(* ===== verification/Prelude.thy ===== *)
theory Prelude
  imports Main "HOL-Library.Sublist" "HOL-Library.List_Lexorder" "HOL-Library.Char_ord"
begin

section \<open>Prelude: shared types, collections and generic lemmas\<close>

text \<open>
  What the components share.  A Go string (and a Go byte slice) is a finite sequence of bytes; a
  HOL \<^typ>\<open>char\<close> is exactly one byte, so both are modelled by \<^typ>\<open>string\<close>, and
  \<open>HOL-Library.List_Lexorder\<close> with \<open>HOL-Library.Char_ord\<close> gives them Go's bytewise string order.
  A Go map is a partial function, a Go function that returns \<open>(T, error)\<close> returns a sum whose left
  side is the error.  The theory also holds the generic reachability relation that the two
  concurrent models (the streams store and the chat hub) instantiate, with its invariant rule as a
  locale.
\<close>

type_synonym gostring = string
type_synonym bytes = string

text \<open>Collections the component proofs draw from.\<close>

named_theorems go_defs \<open>definitions of the operations of a component\<close>
named_theorems go_intros \<open>preservation facts of a component's invariant\<close>

subsection \<open>Lists and bytes\<close>

lemma dropWhile_eq_self [simp]: "xs = [] \<or> \<not> P (hd xs) \<Longrightarrow> dropWhile P xs = xs"
  by (cases xs) auto

lemma dropWhile_append_all: "(\<And>x. x \<in> set xs \<Longrightarrow> P x) \<Longrightarrow> dropWhile P (xs @ ys) = dropWhile P ys"
  by (induction xs) auto

lemma takeWhile_all [simp]: "(\<And>x. x \<in> set xs \<Longrightarrow> P x) \<Longrightarrow> takeWhile P xs = xs"
  by (induction xs) auto

text \<open>
  Two strictly sorted lists with the same elements are equal: what makes the result of
  \<open>sort.Slice\<close> over distinct keys independent of the order it was given.
\<close>

lemma sorted_key_unique:
  fixes f :: "'a \<Rightarrow> 'b::linorder"
  assumes "sorted (map f xs)" "sorted (map f ys)" "distinct (map f xs)" "distinct (map f ys)"
    and "set xs = set ys"
  shows "xs = ys"
proof -
  have "inj_on f (set xs \<union> set ys)"
    using assms(3,5) by (simp add: distinct_map)
  moreover have "map f xs = map f ys"
    using assms by (intro sorted_distinct_set_unique) simp_all
  ultimately show ?thesis
    by (rule inj_on_map_eq_map [THEN iffD1])
qed

lemma distinct_filter_le_one: "distinct (map f xs) \<Longrightarrow> length (filter (\<lambda>x. f x = r) xs) \<le> 1"
proof (induction xs)
  case (Cons x xs)
  show ?case
  proof (cases "f x = r")
    case True
    then have "filter (\<lambda>y. f y = r) xs = []" using Cons.prems by (auto simp: filter_empty_conv) (metis imageI)
    then show ?thesis using True by simp
  qed (use Cons in simp)
qed simp

subsection \<open>Reachable states and invariants\<close>

text \<open>
  The states a transition system reaches from its start states.  Each concurrent component gives
  its own \<open>init\<close> predicate and step relation.
\<close>

inductive reach :: "('s \<Rightarrow> bool) \<Rightarrow> ('s \<Rightarrow> 's \<Rightarrow> bool) \<Rightarrow> 's \<Rightarrow> bool"
  for init :: "'s \<Rightarrow> bool" and step :: "'s \<Rightarrow> 's \<Rightarrow> bool" where
  reach_init: "init s \<Longrightarrow> reach init step s"
| reach_step: "reach init step s \<Longrightarrow> step s t \<Longrightarrow> reach init step t"

lemma reach_rtranclp: "reach init step s \<Longrightarrow> step\<^sup>*\<^sup>* s t \<Longrightarrow> reach init step t"
  by (rotate_tac 1, induction rule: rtranclp_induct) (auto intro: reach_step)

locale invariant_system =
  fixes init :: "'s \<Rightarrow> bool"
    and step :: "'s \<Rightarrow> 's \<Rightarrow> bool"
    and inv :: "'s \<Rightarrow> bool"
  assumes inv_init: "init s \<Longrightarrow> inv s"
    and inv_step: "inv s \<Longrightarrow> step s t \<Longrightarrow> inv t"
begin

lemma reach_inv: "reach init step s \<Longrightarrow> inv s"
  by (induction rule: reach.induct) (auto intro: inv_init inv_step)

lemma inv_rtranclp: "inv s \<Longrightarrow> step\<^sup>*\<^sup>* s t \<Longrightarrow> inv t"
  by (rotate_tac 1, induction rule: rtranclp_induct) (auto intro: inv_step)

text \<open>
  A property that no step turns on once the invariant holds (a closed channel that stays closed, a
  key that stays revoked) stays as it is along any run.
\<close>

lemma stable_rtranclp:
  assumes "inv s" "P s" "step\<^sup>*\<^sup>* s t"
    and stable: "\<And>u v. inv u \<Longrightarrow> P u \<Longrightarrow> step u v \<Longrightarrow> P v"
  shows "P t"
proof -
  have "inv t \<and> P t"
    using assms(3) by (induction rule: rtranclp_induct) (use assms(1,2) in \<open>auto intro: inv_step stable\<close>)
  then show ?thesis ..
qed

end

end
