(* ===== verification/GoStrings.thy ===== *)
theory GoStrings
  imports Prelude
begin

section \<open>The text functions of Go's standard library that the services use\<close>

text \<open>
  Packages \<open>strings\<close>, \<open>path\<close>, \<open>path/filepath\<close> (on a Unix host) and \<open>encoding/hex\<close>, restricted to
  the functions the sources call, each on byte strings.  They are the language's standard library,
  so they are modelled, not assumed.
\<close>

subsection \<open>Package strings\<close>

text \<open>\<open>strings.HasPrefix(s, p)\<close>\<close>

definition HasPrefix :: "gostring \<Rightarrow> gostring \<Rightarrow> bool" where
  "HasPrefix s p = (take (length p) s = p)"

lemma HasPrefix_prefix [simp]: "HasPrefix s p \<longleftrightarrow> prefix p s"
  unfolding HasPrefix_def prefix_def by (metis append_eq_conv_conj append_take_drop_id)

text \<open>\<open>strings.ContainsAny(s, chars)\<close> for ASCII \<open>chars\<close>.\<close>

definition ContainsAny :: "gostring \<Rightarrow> gostring \<Rightarrow> bool" where
  "ContainsAny s chars = list_ex (\<lambda>c. c \<in> set chars) s"

lemma ContainsAny_iff: "ContainsAny s chars \<longleftrightarrow> set s \<inter> set chars \<noteq> {}"
  by (auto simp: ContainsAny_def list_ex_iff)

text \<open>\<open>strings.Trim(s, cutset)\<close> for an ASCII cutset: drop matching bytes at both ends.\<close>

definition TrimLeft :: "gostring \<Rightarrow> gostring \<Rightarrow> gostring" where
  "TrimLeft s cutset = dropWhile (\<lambda>c. c \<in> set cutset) s"

definition TrimRight :: "gostring \<Rightarrow> gostring \<Rightarrow> gostring" where
  "TrimRight s cutset = rev (dropWhile (\<lambda>c. c \<in> set cutset) (rev s))"

definition Trim :: "gostring \<Rightarrow> gostring \<Rightarrow> gostring" where
  "Trim s cutset = TrimRight (TrimLeft s cutset) cutset"

text \<open>\<open>strings.LastIndex(s, c)\<close> for a one-byte needle: \<open>None\<close> is Go's \<open>-1\<close>.\<close>

fun LastIndex :: "gostring \<Rightarrow> char \<Rightarrow> nat option" where
  "LastIndex [] c = None"
| "LastIndex (x # xs) c =
     (case LastIndex xs c of
        Some i \<Rightarrow> Some (Suc i)
      | None \<Rightarrow> if x = c then Some 0 else None)"

text \<open>\<open>strings.Split(s, sep)\<close> for a one-byte separator: never empty.\<close>

fun Split :: "gostring \<Rightarrow> char \<Rightarrow> gostring list" where
  "Split [] sep = [[]]"
| "Split (x # xs) sep =
     (if x = sep then [] # Split xs sep
      else (case Split xs sep of
              [] \<Rightarrow> [[x]]
            | w # ws \<Rightarrow> (x # w) # ws))"

text \<open>Joining with a one-byte separator, the inverse of \<open>Split\<close>.\<close>

fun Join :: "gostring list \<Rightarrow> char \<Rightarrow> gostring" where
  "Join [] sep = []"
| "Join [w] sep = w"
| "Join (w # v # vs) sep = w @ sep # Join (v # vs) sep"

text \<open>
  \<open>strings.TrimSpace\<close> removes leading and trailing runes with the Unicode property White Space:
  the six ASCII ones and those below in their UTF-8 encoding.  A rune is decoded at an end of the
  string exactly when its encoding is a prefix (suffix) of the string.
\<close>

definition space_encodings :: "gostring list" where
  "space_encodings =
     [[CHR 0x09], [CHR 0x0A], [CHR 0x0B], [CHR 0x0C], [CHR 0x0D], [CHR 0x20],
      [CHR 0xC2, CHR 0x85], [CHR 0xC2, CHR 0xA0], [CHR 0xE1, CHR 0x9A, CHR 0x80],
      [CHR 0xE2, CHR 0x80, CHR 0x80], [CHR 0xE2, CHR 0x80, CHR 0x81],
      [CHR 0xE2, CHR 0x80, CHR 0x82], [CHR 0xE2, CHR 0x80, CHR 0x83],
      [CHR 0xE2, CHR 0x80, CHR 0x84], [CHR 0xE2, CHR 0x80, CHR 0x85],
      [CHR 0xE2, CHR 0x80, CHR 0x86], [CHR 0xE2, CHR 0x80, CHR 0x87],
      [CHR 0xE2, CHR 0x80, CHR 0x88], [CHR 0xE2, CHR 0x80, CHR 0x89],
      [CHR 0xE2, CHR 0x80, CHR 0x8A], [CHR 0xE2, CHR 0x80, CHR 0xA8],
      [CHR 0xE2, CHR 0x80, CHR 0xA9], [CHR 0xE2, CHR 0x80, CHR 0xAF],
      [CHR 0xE2, CHR 0x81, CHR 0x9F], [CHR 0xE3, CHR 0x80, CHR 0x80]]"

definition leading_space :: "gostring list \<Rightarrow> gostring \<Rightarrow> nat" where
  "leading_space encs s =
     (case filter (\<lambda>e. take (length e) s = e) encs of [] \<Rightarrow> 0 | e # _ \<Rightarrow> length e)"

function trim_leading :: "gostring list \<Rightarrow> gostring \<Rightarrow> gostring" where
  "trim_leading encs s =
     (let n = leading_space encs s
      in if n = 0 \<or> s = [] then s else trim_leading encs (drop n s))"
  by pat_completeness auto
termination
  by (relation "measure (\<lambda>(encs, s). length s)") auto

declare trim_leading.simps [simp del]

definition TrimSpace :: "gostring \<Rightarrow> gostring" where
  "TrimSpace s =
     rev (trim_leading (map rev space_encodings) (rev (trim_leading space_encodings s)))"

text \<open>
  \<open>strings.ToLower\<close>, where the result is only compared with ASCII strings made of the letters
  \<open>m\<close>, \<open>p\<close>, \<open>t\<close>, \<open>s\<close>: no rune outside ASCII has one of those as its lower case, so the bytes of
  other runes may stay as they are.
\<close>

definition lower_byte :: "char \<Rightarrow> char" where
  "lower_byte c =
     (case map_of (zip ''ABCDEFGHIJKLMNOPQRSTUVWXYZ'' ''abcdefghijklmnopqrstuvwxyz'') c of
        Some d \<Rightarrow> d | None \<Rightarrow> c)"

definition ToLower :: "gostring \<Rightarrow> gostring" where
  "ToLower s = map lower_byte s"

subsection \<open>Packages path and path/filepath\<close>

text \<open>
  \<open>path.Clean\<close>: split at slashes, drop empty elements and \<open>.\<close>, let \<open>..\<close> eliminate the element
  before it, keep leading \<open>..\<close> of a relative path and drop them in a rooted one; the empty result
  is \<open>.\<close>.  The second argument of \<open>clean_elems\<close> is the stack of kept elements, last one first.
\<close>

fun clean_elems :: "bool \<Rightarrow> gostring list \<Rightarrow> gostring list \<Rightarrow> gostring list" where
  "clean_elems rooted acc [] = rev acc"
| "clean_elems rooted acc (e # es) =
     (if e = [] \<or> e = ''.'' then clean_elems rooted acc es
      else if e = ''..'' then
        (case acc of
           [] \<Rightarrow> clean_elems rooted (if rooted then [] else [''..'']) es
         | a # acc' \<Rightarrow>
             if a = ''..'' then clean_elems rooted (''..'' # acc) es
             else clean_elems rooted acc' es)
      else clean_elems rooted (e # acc) es)"

definition path_Clean :: "gostring \<Rightarrow> gostring" where
  "path_Clean p =
     (let rooted = (p \<noteq> [] \<and> hd p = CHR ''/'');
          r = (if rooted then ''/'' else []) @ Join (clean_elems rooted [] (Split p CHR ''/'')) CHR ''/''
      in if r = [] then ''.'' else r)"

text \<open>\<open>path.Join\<close>: empty elements are ignored, the rest joined with slashes and cleaned.\<close>

definition path_Join :: "gostring list \<Rightarrow> gostring" where
  "path_Join elems =
     (case filter (\<lambda>e. e \<noteq> []) elems of
        [] \<Rightarrow> []
      | es \<Rightarrow> path_Clean (Join es CHR ''/''))"

text \<open>\<open>filepath.Base\<close>: the last element, trailing slashes removed first.\<close>

definition filepath_Base :: "gostring \<Rightarrow> gostring" where
  "filepath_Base p =
     (if p = [] then ''.''
      else let q = TrimRight p ''/'';
               b = (case LastIndex q CHR ''/'' of Some i \<Rightarrow> drop (i + 1) q | None \<Rightarrow> q)
           in if b = [] then ''/'' else b)"

text \<open>\<open>filepath.Ext\<close>: from the last dot of the last element on, empty if it has none.\<close>

definition filepath_Ext :: "gostring \<Rightarrow> gostring" where
  "filepath_Ext p =
     (let final = (case LastIndex p CHR ''/'' of Some i \<Rightarrow> drop (i + 1) p | None \<Rightarrow> p)
      in case LastIndex final CHR ''.'' of Some i \<Rightarrow> drop i final | None \<Rightarrow> [])"

subsection \<open>Package encoding/hex\<close>

definition hex_digit :: "nat \<Rightarrow> char" where
  "hex_digit n = ''0123456789abcdef'' ! n"

fun hex_EncodeToString :: "bytes \<Rightarrow> gostring" where
  "hex_EncodeToString [] = []"
| "hex_EncodeToString (c # cs) =
     hex_digit (of_char c div 16) # hex_digit (of_char c mod 16) # hex_EncodeToString cs"

subsection \<open>Facts about these functions\<close>

lemma LastIndex_None_iff [simp]: "LastIndex s c = None \<longleftrightarrow> c \<notin> set s"
  by (induction s) (auto split: option.splits)

lemma LastIndex_None [simp]: "c \<notin> set s \<Longrightarrow> LastIndex s c = None"
  by simp

lemma LastIndex_SomeD:
  "LastIndex s c = Some i \<Longrightarrow> i < length s \<and> s ! i = c \<and> c \<notin> set (drop (Suc i) s)"
  by (induction s arbitrary: i) (auto split: option.splits if_splits)

lemma LastIndex_append [simp]: "c \<notin> set ys \<Longrightarrow> LastIndex (xs @ c # ys) c = Some (length xs)"
  by (induction xs) (auto split: option.splits)

lemma Split_not_Nil [simp]: "Split s c \<noteq> []"
  by (induction s) (auto split: list.splits)

lemma Split_no_sep: "w \<in> set (Split s c) \<Longrightarrow> c \<notin> set w"
  by (induction s arbitrary: w) (auto split: list.splits if_splits)

lemma Join_Split: "Join (Split s c) c = s"
proof (induction s)
  case (Cons x xs)
  then show ?case
    by (cases "Split xs c" rule: remdups_adj.cases) (auto split: list.splits)
qed simp

lemma Split_plain: "c \<notin> set w \<Longrightarrow> Split w c = [w]"
  by (induction w) auto

lemma Split_append_sep: "c \<notin> set w \<Longrightarrow> Split (w @ c # s) c = w # Split s c"
  by (induction w) auto

lemma Split_Join: "ws \<noteq> [] \<Longrightarrow> (\<And>w. w \<in> set ws \<Longrightarrow> c \<notin> set w) \<Longrightarrow> Split (Join ws c) c = ws"
  by (induction ws c rule: Join.induct) (auto simp: Split_plain Split_append_sep)

lemma TrimRight_append: "(\<And>c. c \<in> set t \<Longrightarrow> c \<in> set cs) \<Longrightarrow> TrimRight (s @ t) cs = TrimRight s cs"
  unfolding TrimRight_def rev_append by (subst dropWhile_append_all) auto

lemma TrimLeft_append: "(\<And>c. c \<in> set t \<Longrightarrow> c \<in> set cs) \<Longrightarrow> TrimLeft (t @ s) cs = TrimLeft s cs"
  unfolding TrimLeft_def by (subst dropWhile_append_all) auto

lemma TrimRight_id: "s = [] \<or> last s \<notin> set cs \<Longrightarrow> TrimRight s cs = s"
  by (auto simp: TrimRight_def hd_rev)

lemma TrimLeft_id: "s = [] \<or> hd s \<notin> set cs \<Longrightarrow> TrimLeft s cs = s"
  by (auto simp: TrimLeft_def)

lemma Trim_id: "s = [] \<or> (hd s \<notin> set cs \<and> last s \<notin> set cs) \<Longrightarrow> Trim s cs = s"
  by (auto simp: Trim_def TrimLeft_id TrimRight_id)

text \<open>Elements that \<open>path.Clean\<close> keeps as they are.\<close>

definition plain_elem :: "gostring \<Rightarrow> bool" where
  "plain_elem e \<longleftrightarrow> e \<noteq> [] \<and> e \<noteq> ''.'' \<and> e \<noteq> ''..'' \<and> CHR ''/'' \<notin> set e"

lemma clean_elems_plain:
  "(\<And>e. e \<in> set es \<Longrightarrow> plain_elem e) \<Longrightarrow> clean_elems r acc es = rev acc @ es"
  by (induction es arbitrary: acc) (auto simp: plain_elem_def)

lemma hd_Join: "es \<noteq> [] \<Longrightarrow> hd es \<noteq> [] \<Longrightarrow> hd (Join es c) = hd (hd es)"
  by (cases "(es, c)" rule: Join.cases) auto

lemma Join_eq_Nil: "es \<noteq> [] \<Longrightarrow> hd es \<noteq> [] \<Longrightarrow> Join es c \<noteq> []"
  by (cases "(es, c)" rule: Join.cases) auto

lemma path_Join_plain:
  assumes "es \<noteq> []" and plain: "\<And>e. e \<in> set es \<Longrightarrow> plain_elem e"
  shows "path_Join es = Join es CHR ''/''"
proof -
  have flt: "filter (\<lambda>e. e \<noteq> []) es = es"
    using plain by (intro filter_True) (auto simp: plain_elem_def)
  have hd_es: "hd es \<noteq> []" "CHR ''/'' \<notin> set (hd es)"
    using assms(1) plain[of "hd es"] by (auto simp: plain_elem_def)
  have "hd (Join es CHR ''/'') \<noteq> CHR ''/''"
    using hd_Join[OF assms(1) hd_es(1)] hd_es by (metis hd_in_set)
  moreover have "Split (Join es CHR ''/'') CHR ''/'' = es"
    using assms by (intro Split_Join) (auto simp: plain_elem_def)
  ultimately have "path_Clean (Join es CHR ''/'') = Join es CHR ''/''"
    using Join_eq_Nil[OF assms(1) hd_es(1)] plain
    by (simp add: path_Clean_def clean_elems_plain)
  moreover have "path_Join es = path_Clean (Join es CHR ''/'')"
    unfolding path_Join_def flt using assms(1) by (simp split: list.split)
  ultimately show ?thesis by simp
qed

lemma filepath_Base_no_slash: "filepath_Base p \<noteq> ''/'' \<Longrightarrow> CHR ''/'' \<notin> set (filepath_Base p)"
proof (cases "LastIndex (TrimRight p ''/'') CHR ''/''")
  case (Some i)
  then show "filepath_Base p \<noteq> ''/'' \<Longrightarrow> ?thesis"
    using LastIndex_SomeD[OF Some] by (simp add: filepath_Base_def Let_def split: if_splits)
qed (simp add: filepath_Base_def Let_def split: if_splits)

lemma filepath_Base_not_Nil: "filepath_Base p \<noteq> []"
  by (simp add: filepath_Base_def Let_def)

text \<open>Hexadecimal encoding: two lower-case digits per byte, and injective.\<close>

lemma length_hex [simp]: "length (hex_EncodeToString s) = 2 * length s"
  by (induction s) auto

lemma of_char_nat_less: "(of_char c :: nat) < 256"
proof -
  have "(of_char c :: nat) mod 256 < 256" by (rule mod_less_divisor) simp
  then show ?thesis by simp
qed

lemma of_char_nibbles: "(of_char c :: nat) div 16 < 16" "(of_char c :: nat) mod 16 < 16"
  using less_mult_imp_div_less[of "of_char c" 16 16] of_char_nat_less[of c] by simp_all

lemma hex_digit_in: "n < 16 \<Longrightarrow> hex_digit n \<in> set ''0123456789abcdef''"
  unfolding hex_digit_def by (rule nth_mem) simp

lemma set_hex_within:
  assumes "\<And>n. n < 16 \<Longrightarrow> hex_digit n \<in> H"
  shows "set (hex_EncodeToString s) \<subseteq> H"
  by (induction s) (use of_char_nibbles assms in auto)

lemma set_hex: "set (hex_EncodeToString s) \<subseteq> set ''0123456789abcdef''"
  by (rule set_hex_within[OF hex_digit_in])

lemma hex_digit_inj: "m < 16 \<Longrightarrow> n < 16 \<Longrightarrow> hex_digit m = hex_digit n \<Longrightarrow> m = n"
  unfolding hex_digit_def
  by (subst (asm) nth_eq_iff_index_eq) (simp_all add: eval_nat_numeral)

text \<open>A trimmed string is a substring that has no white space at either end.\<close>

definition no_leading_space :: "gostring \<Rightarrow> bool" where
  "no_leading_space s = (\<forall>e\<in>set space_encodings. \<not> prefix e s)"

definition no_trailing_space :: "gostring \<Rightarrow> bool" where
  "no_trailing_space s = (\<forall>e\<in>set space_encodings. \<not> suffix e s)"

lemma leading_space_pos:
  assumes "\<And>e. e \<in> set encs \<Longrightarrow> e \<noteq> []" and "e \<in> set encs" "prefix e s"
  shows "leading_space encs s \<noteq> 0"
proof -
  let ?m = "filter (\<lambda>e. take (length e) s = e) encs"
  have "e \<in> set ?m"
    using assms(2,3) by (auto simp: prefix_def)
  then obtain x xs where m: "?m = x # xs" by (cases ?m) auto
  then have "x \<in> set encs" by (metis filter_is_subset list.set_intros(1) subsetD)
  then show ?thesis
    using assms(1) by (simp add: leading_space_def m)
qed

lemma trim_leading_no_prefix:
  assumes "\<And>e. e \<in> set encs \<Longrightarrow> e \<noteq> []" and "e \<in> set encs"
  shows "\<not> prefix e (trim_leading encs s)"
  using assms
proof (induction encs s rule: trim_leading.induct)
  case (1 encs s)
  show ?case
  proof (cases "leading_space encs s = 0 \<or> s = []")
    case True
    then show ?thesis
      using leading_space_pos[of encs e s] 1(2,3) by (auto simp: trim_leading.simps[of encs s])
  next
    case False
    then show ?thesis
      using 1 by (simp add: trim_leading.simps[of encs s])
  qed
qed

lemma suffix_trim_leading: "suffix (trim_leading encs s) s"
proof (induction encs s rule: trim_leading.induct)
  case (1 encs s)
  show ?case
  proof (cases "leading_space encs s = 0 \<or> s = []")
    case True
    then show ?thesis by (simp add: trim_leading.simps[of encs s])
  next
    case False
    then have "suffix (trim_leading encs s) (drop (leading_space encs s) s)"
      using 1 by (simp add: trim_leading.simps[of encs s])
    then show ?thesis
      using suffix_drop suffix_order.trans by blast
  qed
qed

lemma space_encodings_not_Nil: "e \<in> set space_encodings \<Longrightarrow> e \<noteq> []"
  by (auto simp: space_encodings_def)

lemma TrimSpace_prefix: "prefix (TrimSpace s) (trim_leading space_encodings s)"
  using suffix_trim_leading[of "map rev space_encodings" "rev (trim_leading space_encodings s)"]
  by (simp add: TrimSpace_def suffix_to_prefix)

lemma TrimSpace_sublist: "sublist (TrimSpace s) s"
  using sublist_order.order_trans[OF prefix_imp_sublist[OF TrimSpace_prefix]
      suffix_imp_sublist[OF suffix_trim_leading]] .

lemma no_leading_TrimSpace: "no_leading_space (TrimSpace s)"
  unfolding no_leading_space_def
  using trim_leading_no_prefix[OF space_encodings_not_Nil] TrimSpace_prefix prefix_order.trans
  by blast

lemma no_trailing_TrimSpace: "no_trailing_space (TrimSpace s)"
proof -
  have "\<not> prefix (rev e) (rev (TrimSpace s))" if "e \<in> set space_encodings" for e
    unfolding TrimSpace_def rev_rev_ident
    by (rule trim_leading_no_prefix) (use that space_encodings_not_Nil in auto)
  then show ?thesis
    by (simp add: no_trailing_space_def suffix_to_prefix)
qed

end
