(* ===== verification/GoHash.thy ===== *)
theory GoHash
  imports GoStrings "HOL-Library.Word"
begin

unbundle bit_operations_syntax

section \<open>The two hash functions of the standard library that the services call\<close>

text \<open>
  \<open>hash/fnv\<close>'s 32-bit FNV-1a (chat: which Redis shard carries a room) and \<open>crypto/sha256\<close>
  (streams: how a stream key is stored).  Both work on 32-bit words with wrap-around, and both
  are executable, so the digests of concrete inputs are facts of the kernel.
\<close>

type_synonym w32 = "32 word"

subsection \<open>FNV-1a, 32 bits\<close>

definition fnv_offset32 :: w32 where "fnv_offset32 = 2166136261"
definition fnv_prime32 :: w32 where "fnv_prime32 = 16777619"

fun fnv32a_Write :: "w32 \<Rightarrow> bytes \<Rightarrow> w32" where
  "fnv32a_Write h [] = h"
| "fnv32a_Write h (c # cs) = fnv32a_Write ((h XOR of_char c) * fnv_prime32) cs"

definition fnv32a :: "bytes \<Rightarrow> w32" where
  "fnv32a s = fnv32a_Write fnv_offset32 s"

subsection \<open>SHA-256\<close>

definition rotr32 :: "nat \<Rightarrow> w32 \<Rightarrow> w32" where
  "rotr32 n x = drop_bit n x OR push_bit (32 - n) x"

definition big_sigma0 :: "w32 \<Rightarrow> w32" where
  "big_sigma0 x = rotr32 2 x XOR rotr32 13 x XOR rotr32 22 x"
definition big_sigma1 :: "w32 \<Rightarrow> w32" where
  "big_sigma1 x = rotr32 6 x XOR rotr32 11 x XOR rotr32 25 x"
definition small_sigma0 :: "w32 \<Rightarrow> w32" where
  "small_sigma0 x = rotr32 7 x XOR rotr32 18 x XOR drop_bit 3 x"
definition small_sigma1 :: "w32 \<Rightarrow> w32" where
  "small_sigma1 x = rotr32 17 x XOR rotr32 19 x XOR drop_bit 10 x"
definition choose32 :: "w32 \<Rightarrow> w32 \<Rightarrow> w32 \<Rightarrow> w32" where
  "choose32 e f g = (e AND f) XOR (NOT e AND g)"
definition majority32 :: "w32 \<Rightarrow> w32 \<Rightarrow> w32 \<Rightarrow> w32" where
  "majority32 a b c = (a AND b) XOR (a AND c) XOR (b AND c)"

definition sha256_K :: "w32 list" where
  "sha256_K =
    [1116352408, 1899447441, 3049323471, 3921009573, 961987163, 1508970993, 2453635748, 2870763221,
     3624381080, 310598401, 607225278, 1426881987, 1925078388, 2162078206, 2614888103, 3248222580,
     3835390401, 4022224774, 264347078, 604807628, 770255983, 1249150122, 1555081692, 1996064986,
     2554220882, 2821834349, 2952996808, 3210313671, 3336571891, 3584528711, 113926993, 338241895,
     666307205, 773529912, 1294757372, 1396182291, 1695183700, 1986661051, 2177026350, 2456956037,
     2730485921, 2820302411, 3259730800, 3345764771, 3516065817, 3600352804, 4094571909, 275423344,
     430227734, 506948616, 659060556, 883997877, 958139571, 1322822218, 1537002063, 1747873779,
     1955562222, 2024104815, 2227730452, 2361852424, 2428436474, 2756734187, 3204031479, 3329325298]"

datatype sha_state = Sha w32 w32 w32 w32 w32 w32 w32 w32

definition sha256_init :: sha_state where
  "sha256_init =
     Sha 1779033703 3144134277 1013904242 2773480762 1359893119 2600822924 528734635 1541459225"

text \<open>
  The compression function.  Instead of the whole message schedule it carries the window of its
  next sixteen words: a round consumes the first one and appends the word sixteen places on.
\<close>

definition next_word :: "w32 list \<Rightarrow> w32" where
  "next_word win = small_sigma1 (win ! 14) + win ! 9 + small_sigma0 (win ! 1) + win ! 0"

fun sha256_round :: "w32 \<Rightarrow> w32 \<Rightarrow> sha_state \<Rightarrow> sha_state" where
  "sha256_round k w (Sha a b c d e f g h) =
     (let t1 = h + big_sigma1 e + choose32 e f g + k + w;
          t2 = big_sigma0 a + majority32 a b c
      in Sha (t1 + t2) a b c (d + t1) e f g)"

fun sha256_rounds :: "w32 list \<Rightarrow> w32 list \<Rightarrow> sha_state \<Rightarrow> sha_state" where
  "sha256_rounds [] win s = s"
| "sha256_rounds (k # ks) win s =
     sha256_rounds ks (tl win @ [next_word win]) (sha256_round k (hd win) s)"

fun sha_add :: "sha_state \<Rightarrow> sha_state \<Rightarrow> sha_state" where
  "sha_add (Sha a b c d e f g h) (Sha a' b' c' d' e' f' g' h') =
     Sha (a + a') (b + b') (c + c') (d + d') (e + e') (f + f') (g + g') (h + h')"

definition sha256_block :: "w32 list \<Rightarrow> sha_state \<Rightarrow> sha_state" where
  "sha256_block ws s = sha_add s (sha256_rounds sha256_K ws s)"

text \<open>Bytes to big-endian words, and the padding: a one bit, zeros, the bit length in 64 bits.\<close>

fun be_words :: "bytes \<Rightarrow> w32 list" where
  "be_words (a # b # c # d # rest) =
     (push_bit 24 (of_char a) OR push_bit 16 (of_char b) OR push_bit 8 (of_char c) OR of_char d)
       # be_words rest"
| "be_words _ = []"

definition be_bytes8 :: "int \<Rightarrow> bytes" where
  "be_bytes8 n =
     map (\<lambda>k. char_of (nat (n div 2 ^ k mod 256))) [56, 48, 40, 32, 24, 16, 8, 0]"

definition sha256_pad :: "bytes \<Rightarrow> bytes" where
  "sha256_pad s =
     s @ [CHR 0x80] @ replicate ((119 - length s mod 64) mod 64) (CHR 0x00)
       @ be_bytes8 (8 * int (length s))"

fun sha256_blocks :: "nat \<Rightarrow> w32 list \<Rightarrow> sha_state \<Rightarrow> sha_state" where
  "sha256_blocks 0 ws s = s"
| "sha256_blocks (Suc n) ws s = sha256_blocks n (drop 16 ws) (sha256_block (take 16 ws) s)"

definition word_bytes :: "w32 \<Rightarrow> bytes" where
  "word_bytes w = map (\<lambda>k. char_of (unat (drop_bit k w AND 255))) [24, 16, 8, 0]"

fun sha_digest :: "sha_state \<Rightarrow> bytes" where
  "sha_digest (Sha a b c d e f g h) = concat (map word_bytes [a, b, c, d, e, f, g, h])"

definition sha256_Sum256 :: "bytes \<Rightarrow> bytes" where
  "sha256_Sum256 s =
     (let ws = be_words (sha256_pad s)
      in sha_digest (sha256_blocks (length ws div 16) ws sha256_init))"

lemma length_word_bytes [simp]: "length (word_bytes w) = 4"
  by (simp add: word_bytes_def)

lemma length_sha256 [simp]: "length (sha256_Sum256 s) = 32"
  by (cases "sha256_blocks (length (be_words (sha256_pad s)) div 16) (be_words (sha256_pad s)) sha256_init")
     (simp add: sha256_Sum256_def)

end
