(* ===== verification/StreamStore.thy ===== *)
theory StreamStore
  imports GoHash
begin

section \<open>The stream-key registry (services/streams/store.go)\<close>

text \<open>
  The in-memory registry of channels: the records by slug, the index from the hash of a stream key
  back to its slug, and every operation of \<open>store\<close>.  Each operation holds the mutex from its first
  to its last access, so it is one function on the state; \<open>StreamsConcurrent\<close> interleaves them.
  \<open>crypto/rand\<close> is an input: \<open>rand.Read\<close> either fills the 24-byte buffer (\<open>Some raw\<close>) or fails
  (\<open>None\<close>).  The lemmas after the operations follow the index through runs of them; the abstract
  registry they implement is in \<open>StoreSpec\<close>.
\<close>

subsection \<open>Data\<close>

datatype store_error = ErrChannelExists | ErrChannelNotFound | ErrGenerateKey

record Channel =
  ch_Slug :: gostring
  ch_HasKey :: bool
  ch_Live :: bool

record LiveChannel =
  lc_Slug :: gostring
  lc_Live :: bool

record channelRecord =
  cr_slug :: gostring
  cr_keyHash :: gostring
  cr_live :: bool

record store =
  channels :: "gostring \<rightharpoonup> channelRecord"
  byKeyHash :: "gostring \<rightharpoonup> gostring"

definition newStore :: store where
  "newStore = \<lparr>channels = Map.empty, byKeyHash = Map.empty\<rparr>"

subsection \<open>Operations\<close>

definition hashKey :: "gostring \<Rightarrow> gostring" where
  "hashKey key = hex_EncodeToString (sha256_Sum256 key)"

definition generateKey :: "bytes option \<Rightarrow> store_error + (gostring \<times> gostring)" where
  "generateKey rnd =
     (case rnd of
        None \<Rightarrow> Inl ErrGenerateKey
      | Some raw \<Rightarrow> (let key = ''sk_'' @ hex_EncodeToString raw in Inr (key, hashKey key)))"

definition CreateKey :: "bytes option \<Rightarrow> gostring \<Rightarrow> store \<Rightarrow> (store_error + gostring) \<times> store" where
  "CreateKey rnd slug s =
     (if channels s slug \<noteq> None then (Inl ErrChannelExists, s)
      else case generateKey rnd of
        Inl err \<Rightarrow> (Inl err, s)
      | Inr (key, hash) \<Rightarrow>
          (Inr key,
           s\<lparr>channels := (channels s)(slug \<mapsto> \<lparr>cr_slug = slug, cr_keyHash = hash, cr_live = False\<rparr>),
             byKeyHash := (byKeyHash s)(hash \<mapsto> slug)\<rparr>))"

definition RotateKey :: "bytes option \<Rightarrow> gostring \<Rightarrow> store \<Rightarrow> (store_error + gostring) \<times> store" where
  "RotateKey rnd slug s =
     (case channels s slug of
        None \<Rightarrow> (Inl ErrChannelNotFound, s)
      | Some rec \<Rightarrow>
          (case generateKey rnd of
             Inl err \<Rightarrow> (Inl err, s)
           | Inr (key, hash) \<Rightarrow>
               (Inr key,
                s\<lparr>channels := (channels s)(slug \<mapsto> rec\<lparr>cr_keyHash := hash\<rparr>),
                  byKeyHash := ((byKeyHash s)(cr_keyHash rec := None))(hash \<mapsto> slug)\<rparr>)))"

definition RevokeKey :: "gostring \<Rightarrow> store \<Rightarrow> store_error option \<times> store" where
  "RevokeKey slug s =
     (case channels s slug of
        None \<Rightarrow> (Some ErrChannelNotFound, s)
      | Some rec \<Rightarrow>
          (None, s\<lparr>channels := (channels s)(slug := None),
                   byKeyHash := (byKeyHash s)(cr_keyHash rec := None)\<rparr>))"

definition Get :: "store \<Rightarrow> gostring \<Rightarrow> Channel option" where
  "Get s slug =
     (case channels s slug of
        None \<Rightarrow> None
      | Some rec \<Rightarrow> Some \<lparr>ch_Slug = cr_slug rec, ch_HasKey = (cr_keyHash rec \<noteq> []), ch_Live = cr_live rec\<rparr>)"

definition FindByKey :: "store \<Rightarrow> gostring \<Rightarrow> gostring option" where
  "FindByKey s key = byKeyHash s (hashKey key)"

definition SetLive :: "gostring \<Rightarrow> bool \<Rightarrow> store \<Rightarrow> store_error option \<times> store" where
  "SetLive slug lv s =
     (case channels s slug of
        None \<Rightarrow> (Some ErrChannelNotFound, s)
      | Some rec \<Rightarrow> (None, s\<lparr>channels := (channels s)(slug \<mapsto> rec\<lparr>cr_live := lv\<rparr>)\<rparr>))"

text \<open>
  \<open>ListLive\<close> ranges over a Go map, in an order the language leaves open, and sorts what it
  collects by slug.  The order is the first argument: any list of the map's keys.
\<close>

definition collect_live :: "gostring list \<Rightarrow> store \<Rightarrow> LiveChannel list" where
  "collect_live order s =
     map (\<lambda>rec. \<lparr>lc_Slug = cr_slug rec, lc_Live = True\<rparr>)
       (filter cr_live (List.map_filter (channels s) order))"

definition ListLive :: "gostring list \<Rightarrow> store \<Rightarrow> LiveChannel list" where
  "ListLive order s = sort_key lc_Slug (collect_live order s)"

text \<open>The orders in which a range over the channel map may visit it.\<close>

definition map_order :: "gostring list \<Rightarrow> store \<Rightarrow> bool" where
  "map_order order s \<longleftrightarrow> distinct order \<and> set order = dom (channels s)"

lemmas store_op_defs [go_defs] =
  CreateKey_def RotateKey_def RevokeKey_def SetLive_def Get_def FindByKey_def

subsection \<open>Stream keys\<close>

lemma generateKey_Inr_iff:
  "generateKey rnd = Inr (key, hash) \<longleftrightarrow>
     (\<exists>raw. rnd = Some raw \<and> key = ''sk_'' @ hex_EncodeToString raw \<and> hash = hashKey key)"
  by (auto simp: generateKey_def Let_def split: option.splits)

lemma length_hashKey [simp]: "length (hashKey k) = 64"
  by (simp add: hashKey_def)

lemma hashKey_not_Nil [simp]: "hashKey k \<noteq> []"
  using length_hashKey[of k] by (metis list.size(3) zero_neq_numeral)

subsection \<open>The representation invariant\<close>

text \<open>
  \<open>index_sound\<close> holds after any operation whatever the random source returns: what the index
  resolves is a channel whose current key has that hash.  \<open>store_inv\<close> adds the converse, every
  channel is found by its key, and needs that newly generated hashes are not in use.
\<close>

definition index_sound :: "store \<Rightarrow> bool" where
  "index_sound s \<longleftrightarrow>
     finite (dom (channels s)) \<and>
     (\<forall>slug rec. channels s slug = Some rec \<longrightarrow> cr_slug rec = slug \<and> cr_keyHash rec \<noteq> []) \<and>
     (\<forall>h slug. byKeyHash s h = Some slug \<longrightarrow>
        (\<exists>rec. channels s slug = Some rec \<and> cr_keyHash rec = h))"

definition index_complete :: "store \<Rightarrow> bool" where
  "index_complete s \<longleftrightarrow>
     (\<forall>slug rec. channels s slug = Some rec \<longrightarrow> byKeyHash s (cr_keyHash rec) = Some slug)"

definition store_inv :: "store \<Rightarrow> bool" where
  "store_inv s \<longleftrightarrow> index_sound s \<and> index_complete s"

lemma store_inv_iff:
  "store_inv s \<longleftrightarrow>
     finite (dom (channels s)) \<and>
     (\<forall>slug rec. channels s slug = Some rec \<longrightarrow> cr_slug rec = slug \<and> cr_keyHash rec \<noteq> []) \<and>
     (\<forall>h slug. byKeyHash s h = Some slug \<longleftrightarrow>
        (\<exists>rec. channels s slug = Some rec \<and> cr_keyHash rec = h))"
  unfolding store_inv_def index_sound_def index_complete_def by auto

lemma store_inv_sound: "store_inv s \<Longrightarrow> index_sound s"
  by (simp add: store_inv_def)

lemma index_soundD:
  assumes "index_sound s" and "byKeyHash s h = Some slug"
  obtains rec where "channels s slug = Some rec" "cr_keyHash rec = h" "cr_slug rec = slug"
  using assms unfolding index_sound_def by blast

lemma index_sound_slug: "index_sound s \<Longrightarrow> channels s slug = Some rec \<Longrightarrow> cr_slug rec = slug"
  unfolding index_sound_def by blast

lemma index_sound_hash: "index_sound s \<Longrightarrow> channels s slug = Some rec \<Longrightarrow> cr_keyHash rec \<noteq> []"
  unfolding index_sound_def by blast

lemma newStore_inv: "store_inv newStore"
  by (simp add: store_inv_iff newStore_def)

subsection \<open>Operations as data\<close>

text \<open>
  One request to the store, its result, and the state after it.  \<open>LiveOp\<close> carries the order in
  which the map is visited.
\<close>

datatype store_op =
    CreateOp "bytes option" gostring
  | RotateOp "bytes option" gostring
  | RevokeOp gostring
  | SetLiveOp gostring bool
  | GetOp gostring
  | FindOp gostring

datatype store_result =
    KeyResult "store_error + gostring"
  | ErrResult "store_error option"
  | ChannelResult "Channel option"
  | SlugResult "gostring option"

fun exec_op :: "store_op \<Rightarrow> store \<Rightarrow> store_result \<times> store" where
  "exec_op (CreateOp rnd slug) s = (let (r, s') = CreateKey rnd slug s in (KeyResult r, s'))"
| "exec_op (RotateOp rnd slug) s = (let (r, s') = RotateKey rnd slug s in (KeyResult r, s'))"
| "exec_op (RevokeOp slug) s = (let (r, s') = RevokeKey slug s in (ErrResult r, s'))"
| "exec_op (SetLiveOp slug lv) s = (let (r, s') = SetLive slug lv s in (ErrResult r, s'))"
| "exec_op (GetOp slug) s = (ChannelResult (Get s slug), s)"
| "exec_op (FindOp key) s = (SlugResult (FindByKey s key), s)"

fun run_ops :: "store_op list \<Rightarrow> store \<Rightarrow> store" where
  "run_ops [] s = s"
| "run_ops (q # qs) s = run_ops qs (snd (exec_op q s))"

text \<open>The hash an operation would put into the index, if it generates one.\<close>

fun new_hash :: "store_op \<Rightarrow> gostring option" where
  "new_hash (CreateOp (Some raw) slug) = Some (hashKey (''sk_'' @ hex_EncodeToString raw))"
| "new_hash (RotateOp (Some raw) slug) = Some (hashKey (''sk_'' @ hex_EncodeToString raw))"
| "new_hash _ = None"

text \<open>
  A generated key is fresh when its hash indexes no channel: \<open>crypto/rand\<close> gives 192 fresh bits, so
  a clash would be a SHA-256 collision or a repeated draw.
\<close>

definition fresh_op :: "store_op \<Rightarrow> store \<Rightarrow> bool" where
  "fresh_op q s = (case new_hash q of None \<Rightarrow> True | Some h \<Rightarrow> byKeyHash s h = None)"

fun fresh_run :: "store_op list \<Rightarrow> store \<Rightarrow> bool" where
  "fresh_run [] s = True"
| "fresh_run (q # qs) s = (fresh_op q s \<and> fresh_run qs (snd (exec_op q s)))"

lemma index_sound_exec [go_intros]: "index_sound s \<Longrightarrow> index_sound (snd (exec_op q s))"
proof (cases q)
  case (CreateOp rnd slug)
  assume "index_sound s"
  then show ?thesis
    unfolding CreateOp index_sound_def
    by (auto simp: CreateKey_def generateKey_Inr_iff split: sum.splits option.splits)
       (metis option.distinct(1))
next
  case (RotateOp rnd slug)
  assume "index_sound s"
  then show ?thesis
    unfolding RotateOp index_sound_def
    by (auto simp: RotateKey_def generateKey_Inr_iff split: sum.splits option.splits)
       (metis option.inject)
next
  case (RevokeOp slug)
  assume "index_sound s"
  then show ?thesis
    unfolding RevokeOp index_sound_def
    by (auto simp: RevokeKey_def split: option.splits)
       (metis option.inject)
next
  case (SetLiveOp slug lv)
  assume "index_sound s"
  then show ?thesis
    unfolding SetLiveOp index_sound_def
    by (auto simp: SetLive_def split: option.splits)
       (metis option.inject)+
qed auto

lemma store_inv_exec [go_intros]:
  "store_inv s \<Longrightarrow> fresh_op q s \<Longrightarrow> store_inv (snd (exec_op q s))"
proof (cases q)
  case (CreateOp rnd slug)
  assume "store_inv s" "fresh_op q s"
  then show ?thesis
    unfolding CreateOp store_inv_iff
    by (auto simp: CreateKey_def generateKey_Inr_iff fresh_op_def split: sum.splits option.splits)
       (metis option.distinct(1))
next
  case (RotateOp rnd slug)
  assume "store_inv s" "fresh_op q s"
  then show ?thesis
    unfolding RotateOp store_inv_iff
    by (auto simp: RotateKey_def generateKey_Inr_iff fresh_op_def split: sum.splits option.splits)
       (metis option.distinct(1) option.inject)+
next
  case (RevokeOp slug)
  assume "store_inv s"
  then show ?thesis
    unfolding RevokeOp store_inv_iff
    by (auto simp: RevokeKey_def split: option.splits)
       (metis option.inject)
next
  case (SetLiveOp slug lv)
  assume "store_inv s"
  then show ?thesis
    unfolding SetLiveOp store_inv_iff
    by (auto simp: SetLive_def split: option.splits)
qed auto

lemma index_sound_run: "index_sound s \<Longrightarrow> index_sound (run_ops qs s)"
  by (induction qs arbitrary: s) (auto intro: go_intros)

lemma store_inv_run: "store_inv s \<Longrightarrow> fresh_run qs s \<Longrightarrow> store_inv (run_ops qs s)"
  by (induction qs arbitrary: s) (auto intro: go_intros)

end
