(* ===== verification/StoreSpec.thy ===== *)
theory StoreSpec
  imports StreamStore "HOL-Library.Multiset"
begin

section \<open>What the registry promises\<close>

text \<open>
  The contract of \<open>StreamStore\<close>: an abstract registry without an index that the operations refine,
  the life of a stream key across any run of operations, the live listing, and the interface the
  MediaMTX webhooks rely on, as a locale that the store's operations interpret.
\<close>

subsection \<open>The abstract registry\<close>

type_synonym registry = "gostring \<rightharpoonup> gostring \<times> bool"

definition abs_store :: "store \<Rightarrow> registry" where
  "abs_store s = (\<lambda>slug. map_option (\<lambda>rec. (cr_keyHash rec, cr_live rec)) (channels s slug))"

text \<open>One operation of the specification: which result and which next registry it allows.\<close>

fun spec_op :: "store_op \<Rightarrow> registry \<Rightarrow> store_result \<Rightarrow> registry \<Rightarrow> bool" where
  "spec_op (CreateOp rnd slug) R res R' =
     (case (R slug, rnd) of
        (Some _, _) \<Rightarrow> res = KeyResult (Inl ErrChannelExists) \<and> R' = R
      | (None, None) \<Rightarrow> res = KeyResult (Inl ErrGenerateKey) \<and> R' = R
      | (None, Some raw) \<Rightarrow>
          res = KeyResult (Inr (''sk_'' @ hex_EncodeToString raw)) \<and>
          R' = R(slug \<mapsto> (hashKey (''sk_'' @ hex_EncodeToString raw), False)))"
| "spec_op (RotateOp rnd slug) R res R' =
     (case (R slug, rnd) of
        (None, _) \<Rightarrow> res = KeyResult (Inl ErrChannelNotFound) \<and> R' = R
      | (Some _, None) \<Rightarrow> res = KeyResult (Inl ErrGenerateKey) \<and> R' = R
      | (Some (h, lv), Some raw) \<Rightarrow>
          res = KeyResult (Inr (''sk_'' @ hex_EncodeToString raw)) \<and>
          R' = R(slug \<mapsto> (hashKey (''sk_'' @ hex_EncodeToString raw), lv)))"
| "spec_op (RevokeOp slug) R res R' =
     (case R slug of
        None \<Rightarrow> res = ErrResult (Some ErrChannelNotFound) \<and> R' = R
      | Some _ \<Rightarrow> res = ErrResult None \<and> R' = R(slug := None))"
| "spec_op (SetLiveOp slug b) R res R' =
     (case R slug of
        None \<Rightarrow> res = ErrResult (Some ErrChannelNotFound) \<and> R' = R
      | Some (h, lv) \<Rightarrow> res = ErrResult None \<and> R' = R(slug \<mapsto> (h, b)))"
| "spec_op (GetOp slug) R res R' =
     (R' = R \<and>
      res = ChannelResult
        (map_option (\<lambda>(h, lv). \<lparr>ch_Slug = slug, ch_HasKey = True, ch_Live = lv\<rparr>) (R slug)))"
| "spec_op (FindOp key) R res R' =
     (R' = R \<and>
      (case res of
         SlugResult (Some slug) \<Rightarrow> (\<exists>lv. R slug = Some (hashKey key, lv))
       | SlugResult None \<Rightarrow> (\<forall>slug lv. R slug \<noteq> Some (hashKey key, lv))
       | _ \<Rightarrow> False))"

inductive spec_run :: "store_op list \<Rightarrow> registry \<Rightarrow> store_result list \<Rightarrow> registry \<Rightarrow> bool" where
  spec_nil: "spec_run [] R [] R"
| spec_cons: "spec_op q R r R' \<Longrightarrow> spec_run qs R' rs R'' \<Longrightarrow> spec_run (q # qs) R (r # rs) R''"

fun run_results :: "store_op list \<Rightarrow> store \<Rightarrow> store_result list" where
  "run_results [] s = []"
| "run_results (q # qs) s = fst (exec_op q s) # run_results qs (snd (exec_op q s))"

lemma abs_store_newStore: "abs_store newStore = Map.empty"
  by (simp add: abs_store_def newStore_def)

text \<open>Channel \<open>slug\<close> currently holds stream key \<open>key\<close>.\<close>

definition has_key :: "store \<Rightarrow> gostring \<Rightarrow> gostring \<Rightarrow> bool" where
  "has_key s slug key \<longleftrightarrow> (\<exists>rec. channels s slug = Some rec \<and> cr_keyHash rec = hashKey key)"

lemma FindByKey_has_key: "store_inv s \<Longrightarrow> FindByKey s key = Some slug \<longleftrightarrow> has_key s slug key"
  by (auto simp: FindByKey_def has_key_def store_inv_iff)

lemma FindByKey_None: "store_inv s \<Longrightarrow> FindByKey s key = None \<longleftrightarrow> (\<forall>slug. \<not> has_key s slug key)"
  using FindByKey_has_key[of s key] by (cases "FindByKey s key") (auto simp del: not_None_eq)

lemma exec_refines_spec:
  assumes inv: "store_inv s"
  shows "spec_op q (abs_store s) (fst (exec_op q s)) (abs_store (snd (exec_op q s)))"
proof (cases q)
  case (CreateOp rnd slug)
  then show ?thesis
    by (auto simp: abs_store_def CreateKey_def generateKey_def Let_def split: option.splits)
next
  case (RotateOp rnd slug)
  then show ?thesis
    by (auto simp: abs_store_def RotateKey_def generateKey_def Let_def split: option.splits)
next
  case (RevokeOp slug)
  then show ?thesis
    by (auto simp: abs_store_def RevokeKey_def split: option.splits)
next
  case (SetLiveOp slug lv)
  then show ?thesis
    by (auto simp: abs_store_def SetLive_def split: option.splits)
next
  case (GetOp slug)
  then show ?thesis
    using index_sound_slug[OF store_inv_sound[OF inv], of slug]
      index_sound_hash[OF store_inv_sound[OF inv], of slug]
    by (auto simp: abs_store_def Get_def split: option.splits)
next
  case (FindOp key)
  then show ?thesis
    using FindByKey_None[OF inv, of key] FindByKey_has_key[OF inv, of key]
    by (auto simp: abs_store_def has_key_def split: option.splits)
qed

lemma run_refines_spec:
  "store_inv s \<Longrightarrow> fresh_run qs s \<Longrightarrow>
     spec_run qs (abs_store s) (run_results qs s) (abs_store (run_ops qs s))"
  by (induction qs arbitrary: s) (auto intro: spec_run.intros exec_refines_spec store_inv_exec)

subsection \<open>The life of a stream key\<close>

text \<open>Operations that issue a key to a channel, and operations that retire its key.\<close>

fun issues :: "gostring \<Rightarrow> store_op \<Rightarrow> bool" where
  "issues slug (CreateOp rnd slug') = (slug' = slug)"
| "issues slug (RotateOp rnd slug') = (slug' = slug)"
| "issues slug _ = False"

fun retires :: "gostring \<Rightarrow> store_op \<Rightarrow> bool" where
  "retires slug (RotateOp rnd slug') = (slug' = slug)"
| "retires slug (RevokeOp slug') = (slug' = slug)"
| "retires slug _ = False"

lemma issued_has_key:
  assumes "issues slug q" "exec_op q s = (KeyResult (Inr key), s')"
  shows "has_key s' slug key"
  using assms
  by (cases q) (auto simp: CreateKey_def RotateKey_def generateKey_Inr_iff has_key_def Let_def
      split: option.splits sum.splits if_splits prod.splits)

lemma has_key_exec:
  assumes "has_key s slug key" "\<not> retires slug q"
  shows "has_key (snd (exec_op q s)) slug key"
  using assms
  by (cases q) (auto simp: CreateKey_def RotateKey_def RevokeKey_def SetLive_def has_key_def Let_def
      split: option.splits sum.splits prod.splits)

lemma has_key_run:
  "has_key s slug key \<Longrightarrow> (\<And>q. q \<in> set qs \<Longrightarrow> \<not> retires slug q) \<Longrightarrow> has_key (run_ops qs s) slug key"
  by (induction qs arbitrary: s) (auto intro: has_key_exec)

text \<open>A hash that has left the index stays out of it unless it is generated again.\<close>

lemma absent_exec:
  assumes "byKeyHash s h = None" "new_hash q \<noteq> Some h"
  shows "byKeyHash (snd (exec_op q s)) h = None"
  using assms
  by (cases q) (auto simp: CreateKey_def RotateKey_def RevokeKey_def SetLive_def Let_def generateKey_Inr_iff
      split: option.splits sum.splits prod.splits)

lemma absent_run:
  "byKeyHash s h = None \<Longrightarrow> (\<And>q. q \<in> set qs \<Longrightarrow> new_hash q \<noteq> Some h) \<Longrightarrow>
     byKeyHash (run_ops qs s) h = None"
  by (induction qs arbitrary: s) (simp_all add: absent_exec)

lemma retired_absent:
  assumes "has_key s slug key" "retires slug q" "new_hash q \<noteq> Some (hashKey key)"
    and ok: "\<nexists>e. fst (exec_op q s) = KeyResult (Inl e)"
  shows "byKeyHash (snd (exec_op q s)) (hashKey key) = None"
  using assms
  by (cases q) (auto simp: RotateKey_def RevokeKey_def Let_def generateKey_def has_key_def
      split: option.splits sum.splits prod.splits)

subsection \<open>The live listing\<close>

definition live_slugs :: "store \<Rightarrow> gostring set" where
  "live_slugs s = {slug. \<exists>rec. channels s slug = Some rec \<and> cr_live rec}"

lemma set_collect_live:
  assumes "index_sound s" "map_order order s"
  shows "set (collect_live order s) =
    {\<lparr>lc_Slug = slug, lc_Live = True\<rparr> | slug. \<exists>rec. channels s slug = Some rec \<and> cr_live rec}"
  using assms index_sound_slug[OF assms(1)]
  by (auto simp: collect_live_def map_order_def List.map_filter_def image_iff dom_def)
     (metis (mono_tags, lifting) domI option.sel)+

lemma set_ListLive:
  "index_sound s \<Longrightarrow> map_order order s \<Longrightarrow> set (map lc_Slug (ListLive order s)) = live_slugs s"
  using set_collect_live by (force simp: ListLive_def live_slugs_def image_iff)

lemma live_slugs_set: "live_slugs (snd (SetLive slug b s)) =
    (if channels s slug = None then live_slugs s
     else if b then insert slug (live_slugs s) else live_slugs s - {slug})"
  by (auto simp: live_slugs_def SetLive_def split: option.splits if_splits)

lemma map_lc_Slug_collect_live:
  assumes "index_sound s" "set order \<subseteq> dom (channels s)"
  shows "map lc_Slug (collect_live order s) = filter (\<lambda>x. cr_live (the (channels s x))) order"
  using assms(2)
proof (induction order)
  case (Cons x xs)
  then obtain rec where "channels s x = Some rec" by auto
  moreover from this have "cr_slug rec = x"
    by (rule index_sound_slug[OF assms(1)])
  ultimately show ?case
    using Cons by (simp add: collect_live_def List.map_filter_simps)
qed (simp add: collect_live_def List.map_filter_simps)

lemma distinct_collect_live:
  assumes "index_sound s" "map_order order s"
  shows "distinct (map lc_Slug (collect_live order s))"
  using assms by (simp add: map_lc_Slug_collect_live map_order_def)

text \<open>
  Whatever order the map is visited in and whatever sorting algorithm runs, a permutation of the
  collected channels that is sorted by slug is this one list.
\<close>

lemma sorted_listing_unique:
  assumes inv: "index_sound s" and o1: "map_order order1 s" and o2: "map_order order2 s"
    and xs: "mset xs = mset (collect_live order1 s)" "sorted (map lc_Slug xs)"
  shows "xs = ListLive order2 s"
proof (rule sorted_key_unique[where f = lc_Slug])
  have m: "mset (map lc_Slug xs) = mset (map lc_Slug (collect_live order1 s))"
    using xs(1) by simp
  then show "distinct (map lc_Slug xs)"
    using distinct_collect_live[OF inv o1] by (metis mset_eq_imp_distinct_iff)
  have "mset (map lc_Slug (ListLive order2 s)) = mset (map lc_Slug (collect_live order2 s))"
    by (simp add: ListLive_def)
  then show "distinct (map lc_Slug (ListLive order2 s))"
    using distinct_collect_live[OF inv o2] by (metis mset_eq_imp_distinct_iff)
  show "set xs = set (ListLive order2 s)"
    using mset_eq_setD[OF xs(1)] set_collect_live[OF inv o1] set_collect_live[OF inv o2]
    by (simp add: ListLive_def)
qed (simp_all add: xs(2) ListLive_def)

subsection \<open>The interface of the MediaMTX webhooks\<close>

text \<open>
  What \<open>mediamtx_handler.go\<close> needs of a registry: keys resolve to known channels, a known channel's
  live flag can be set, and setting it changes nothing else.
\<close>

locale channel_registry =
  fixes inv :: "'s \<Rightarrow> bool"
    and find :: "'s \<Rightarrow> gostring \<Rightarrow> gostring option"
    and get :: "'s \<Rightarrow> gostring \<Rightarrow> Channel option"
    and set_live :: "gostring \<Rightarrow> bool \<Rightarrow> 's \<Rightarrow> store_error option \<times> 's"
  assumes find_get: "inv s \<Longrightarrow> find s key = Some slug \<Longrightarrow> \<exists>ch. get s slug = Some ch"
    and get_slug: "inv s \<Longrightarrow> get s slug = Some ch \<Longrightarrow> ch_Slug ch = slug"
    and set_live_unknown: "get s slug = None \<Longrightarrow> set_live slug b s = (Some ErrChannelNotFound, s)"
    and set_live_known: "get s slug = Some ch \<Longrightarrow> fst (set_live slug b s) = None"
    and set_live_get: "get s slug = Some ch \<Longrightarrow>
      get (snd (set_live slug b s)) = (get s)(slug \<mapsto> ch\<lparr>ch_Live := b\<rparr>)"
    and set_live_find: "find (snd (set_live slug b s)) = find s"
    and set_live_inv: "inv s \<Longrightarrow> inv (snd (set_live slug b s))"
begin

text \<open>A key that resolves can be marked live, and its channel then is.\<close>

lemma find_set_live:
  assumes "inv s" "find s key = Some slug"
  shows "fst (set_live slug b s) = None \<and>
    (\<exists>ch. get (snd (set_live slug b s)) slug = Some ch \<and> ch_Slug ch = slug \<and> ch_Live ch = b)"
proof -
  obtain ch where ch: "get s slug = Some ch"
    using find_get[OF assms] by blast
  then show ?thesis
    using set_live_known[OF ch] set_live_get[OF ch] get_slug[OF assms(1) ch] by simp
qed

text \<open>Setting one channel's flag leaves every other channel as it is.\<close>

lemma set_live_other:
  assumes "slug' \<noteq> slug"
  shows "get (snd (set_live slug b s)) slug' = get s slug'"
proof (cases "get s slug")
  case None
  then show ?thesis by (simp add: set_live_unknown)
next
  case (Some ch)
  then show ?thesis using assms by (simp add: set_live_get)
qed

text \<open>Resolving a path segment as a key first and as a slug second names a known channel.\<close>

lemma key_or_slug_known:
  assumes "inv s"
    and "find s seg = Some slug \<or> (find s seg = None \<and> (\<exists>ch. get s seg = Some ch \<and> slug = ch_Slug ch))"
  shows "\<exists>ch'. get s slug = Some ch'"
  using assms(2) find_get[OF assms(1)] get_slug[OF assms(1)] by auto

end

interpretation streams: channel_registry index_sound FindByKey Get SetLive
proof (unfold_locales, goal_cases)
  case (1 s key slug)
  then show ?case by (auto simp: FindByKey_def Get_def elim!: index_soundD)
next
  case (2 s slug ch)
  then show ?case by (auto simp: Get_def dest: index_sound_slug split: option.splits)
next
  case (7 s slug b)
  then show ?case using index_sound_exec[of s "SetLiveOp slug b"] by (simp add: case_prod_beta)
qed (auto simp: Get_def SetLive_def FindByKey_def fun_eq_iff split: option.splits)

end
