(* ===== verification/StreamsHttp.thy ===== *)
theory StreamsHttp
  imports StoreSpec GoJson
begin

section \<open>Responses, errors and authentication (services/streams: httpjson.go, auth.go, health.go)\<close>

text \<open>
  A handler maps a request and the store to a response and the next store.  A response is the
  status, the content type if one was set, and the body: a JSON value, or an error in place of the
  text \<open>err.Error()\<close> that the code wraps in an object with the one member \<open>error\<close>.
\<close>

subsection \<open>Requests and responses\<close>

text \<open>What decoding a webhook body can fail with: input that is no JSON value, or a wrong type.\<close>

datatype decode_error = BadInput | BadType

text \<open>Errors of the object storage client: bucket, prefix or key, and the SDK's own message.\<close>

datatype storage_error = ListError gostring gostring gostring | PresignError gostring gostring gostring

datatype http_error =
    StoreError store_error
  | DecodeError decode_error
  | ErrUnauthorized
  | ErrRecordingsNotConfigured
  | InvalidSlug gostring
  | StorageError storage_error

datatype resp_body = NoBody | JsonBody json | ErrorBody http_error

record response =
  rs_status :: nat
  rs_ctype :: "gostring option"
  rs_body :: resp_body

text \<open>
  The parts of a request the handlers read: the \<open>Authorization\<close> header (empty if absent), the value
  of the \<open>slug\<close> wildcard, and the body.
\<close>

record request =
  rq_authorization :: gostring
  rq_slug :: gostring
  rq_body :: bytes

type_synonym handler = "request \<Rightarrow> store \<Rightarrow> response \<times> store"

definition StatusOK :: nat where "StatusOK = 200"
definition StatusCreated :: nat where "StatusCreated = 201"
definition StatusNoContent :: nat where "StatusNoContent = 204"
definition StatusBadRequest :: nat where "StatusBadRequest = 400"
definition StatusUnauthorized :: nat where "StatusUnauthorized = 401"
definition StatusNotFound :: nat where "StatusNotFound = 404"
definition StatusConflict :: nat where "StatusConflict = 409"
definition StatusInternalServerError :: nat where "StatusInternalServerError = 500"
definition StatusBadGateway :: nat where "StatusBadGateway = 502"
definition StatusServiceUnavailable :: nat where "StatusServiceUnavailable = 503"

lemmas status_defs = StatusOK_def StatusCreated_def StatusNoContent_def StatusBadRequest_def
  StatusUnauthorized_def StatusNotFound_def StatusConflict_def StatusInternalServerError_def
  StatusBadGateway_def StatusServiceUnavailable_def

subsection \<open>httpjson.go\<close>

definition writeBody :: "nat \<Rightarrow> resp_body \<Rightarrow> response" where
  "writeBody status b = \<lparr>rs_status = status, rs_ctype = Some ''application/json'', rs_body = b\<rparr>"

definition writeJSON :: "nat \<Rightarrow> json \<Rightarrow> response" where
  "writeJSON status body = writeBody status (JsonBody body)"

definition writeError :: "nat \<Rightarrow> http_error \<Rightarrow> response" where
  "writeError status err = writeBody status (ErrorBody err)"

text \<open>\<open>w.WriteHeader(status)\<close> alone: no body and no content type.\<close>

definition writeHeader :: "nat \<Rightarrow> response" where
  "writeHeader status = \<lparr>rs_status = status, rs_ctype = None, rs_body = NoBody\<rparr>"

text \<open>\<open>writeStoreError\<close>: \<open>None\<close> is the \<open>false\<close> of the code, nothing was written.\<close>

definition writeStoreError :: "store_error option \<Rightarrow> response option" where
  "writeStoreError err =
     (case err of
        None \<Rightarrow> None
      | Some e \<Rightarrow>
          Some (if e = ErrChannelNotFound then writeError StatusNotFound (StoreError e)
                else if e = ErrChannelExists then writeError StatusConflict (StoreError e)
                else writeError StatusInternalServerError (StoreError e)))"

lemmas response_defs = writeBody_def writeJSON_def writeError_def writeHeader_def writeStoreError_def

lemma writeStoreError_None_iff [simp]: "writeStoreError err = None \<longleftrightarrow> err = None"
  by (simp add: writeStoreError_def split: option.split)

subsection \<open>auth.go\<close>

text \<open>\<open>subtle.ConstantTimeCompare\<close>: 1 if both slices have equal length and contents.\<close>

definition ConstantTimeCompare :: "bytes \<Rightarrow> bytes \<Rightarrow> nat" where
  "ConstantTimeCompare x y = (if x = y then 1 else 0)"

definition bearer_prefix :: gostring where
  "bearer_prefix = ''Bearer ''"

definition requireAuth :: "gostring \<Rightarrow> handler \<Rightarrow> handler" where
  "requireAuth apiKey fn =
     (if apiKey = [] then fn
      else (\<lambda>r s.
        let header = rq_authorization r
        in if \<not> HasPrefix header bearer_prefix
              \<or> ConstantTimeCompare (drop (length bearer_prefix) header) apiKey \<noteq> 1
           then (writeError StatusUnauthorized ErrUnauthorized, s)
           else fn r s))"

definition authorized :: "gostring \<Rightarrow> request \<Rightarrow> bool" where
  "authorized apiKey r \<longleftrightarrow> apiKey = [] \<or> rq_authorization r = bearer_prefix @ apiKey"

lemma requireAuth_eq:
  "requireAuth apiKey fn r s =
     (if authorized apiKey r then fn r s else (writeError StatusUnauthorized ErrUnauthorized, s))"
  by (auto simp: requireAuth_def authorized_def Let_def ConstantTimeCompare_def prefix_def)

subsection \<open>health.go\<close>

definition newRootHandler :: "gostring \<Rightarrow> handler" where
  "newRootHandler version r s =
     (writeJSON StatusOK (JObj [(''service'', JStr ''streams''), (''version'', JStr version)]), s)"

definition newHealthHandler :: handler where
  "newHealthHandler r s = (writeJSON StatusOK (JObj [(''status'', JStr ''ok'')]), s)"

end
