(* ===== verification/GoJsonDecode.thy ===== *)
theory GoJsonDecode
  imports GoJson
begin

section \<open>The decoder of encoding/json\<close>

text \<open>
  The scanner and string unquoting of \<open>encoding/json\<close>: one value is parsed off the front of the
  input and what follows it is left alone, as \<open>json.Decoder\<close> does.  Fuel bounds the mutual
  recursion of values, members and elements; \<open>parse_value\<close> supplies twice the length of the input
  plus two, and \<open>pval_fuel\<close> shows that more never changes the result.
\<close>

datatype jvalue =
    VNull
  | VBool bool
  | VNumber bytes
  | VString bytes
  | VArray "jvalue list"
  | VObject "(bytes \<times> jvalue) list"

subsection \<open>Strings\<close>

definition is_ws :: "char \<Rightarrow> bool" where
  "is_ws c \<longleftrightarrow> c = CHR 0x20 \<or> c = CHR 0x09 \<or> c = CHR 0x0A \<or> c = CHR 0x0D"

definition skip_ws :: "bytes \<Rightarrow> bytes" where
  "skip_ws s = dropWhile is_ws s"

text \<open>The value of a hexadecimal digit, either case.\<close>

definition hex_val :: "char \<Rightarrow> nat option" where
  "hex_val c =
     map_of (zip ''0123456789abcdefABCDEF''
               [0, 1, 2, 3, 4, 5, 6, 7, 8, 9, 10, 11, 12, 13, 14, 15, 10, 11, 12, 13, 14, 15]) c"

text \<open>Four hexadecimal digits, after the \<open>u\<close> of an escape.\<close>

fun getu4 :: "bytes \<Rightarrow> (nat \<times> bytes) option" where
  "getu4 (a # b # c # d # rest) =
     (case (hex_val a, hex_val b, hex_val c, hex_val d) of
        (Some w, Some x, Some y, Some z) \<Rightarrow> Some (((w * 16 + x) * 16 + y) * 16 + z, rest)
      | _ \<Rightarrow> None)"
| "getu4 _ = None"

definition is_surrogate :: "nat \<Rightarrow> bool" where
  "is_surrogate r \<longleftrightarrow> 55296 \<le> r \<and> r \<le> 57343"

text \<open>A second escaped unit that completes the surrogate \<open>hi\<close>: the rune and the rest.\<close>

definition low_surrogate :: "nat \<Rightarrow> bytes \<Rightarrow> (nat \<times> bytes) option" where
  "low_surrogate hi s =
     (if hi < 56320 \<and> take 2 s = [CHR 0x5C, CHR ''u''] then
        (case getu4 (drop 2 s) of
           Some (lo, rest) \<Rightarrow>
             if 56320 \<le> lo \<and> lo \<le> 57343
             then Some ((hi - 55296) * 1024 + (lo - 56320) + 65536, rest) else None
         | None \<Rightarrow> None)
      else None)"

definition simple_escape :: "char \<Rightarrow> char option" where
  "simple_escape c =
     map_of (zip [CHR 0x22, CHR 0x5C, CHR ''/'', CHR ''b'', CHR ''f'', CHR ''n'', CHR ''r'', CHR ''t'']
                 [CHR 0x22, CHR 0x5C, CHR ''/'', CHR 0x08, CHR 0x0C, CHR 0x0A, CHR 0x0D, CHR 0x09]) c"

lemma getu4_length: "getu4 s = Some (r, rest) \<Longrightarrow> length rest < length s"
  by (induction s rule: getu4.induct) (auto split: option.splits)

lemma low_surrogate_length: "low_surrogate hi s = Some (r, rest) \<Longrightarrow> length rest < length s"
  by (auto simp: low_surrogate_def split: if_splits option.splits dest!: getu4_length)

text \<open>
  The contents of a string literal after its opening quote: the decoded bytes, with malformed
  UTF-8 and lone surrogates replaced by U+FFFD, and the input after the closing quote.
\<close>

definition emit :: "bytes \<Rightarrow> (bytes \<times> bytes) option \<Rightarrow> (bytes \<times> bytes) option" where
  "emit x r = map_option (\<lambda>(s, rest). (x @ s, rest)) r"

lemma emit_simps [simp]:
  "emit x None = None" "emit x (Some (s, rest)) = Some (x @ s, rest)"
  by (simp_all add: emit_def)

lemma emit_eq_Some: "emit x r = Some (y, rest) \<longleftrightarrow> (\<exists>s. r = Some (s, rest) \<and> y = x @ s)"
  by (auto simp: emit_def)

lemma emit_cong [fundef_cong]: "x = y \<Longrightarrow> r = r' \<Longrightarrow> emit x r = emit y r'"
  by simp

function (sequential) pstring :: "bytes \<Rightarrow> (bytes \<times> bytes) option" where
  "pstring [] = None"
| "pstring (c # cs) =
     (if c = CHR 0x22 then Some ([], cs)
      else if c = CHR 0x5C then
        (case cs of
           [] \<Rightarrow> None
         | e # cs' \<Rightarrow>
             (case simple_escape e of
                Some b \<Rightarrow> emit [b] (pstring cs')
              | None \<Rightarrow>
                  if e \<noteq> CHR ''u'' then None
                  else (case getu4 cs' of
                          None \<Rightarrow> None
                        | Some (r, rest) \<Rightarrow>
                            if is_surrogate r then
                              (case low_surrogate r rest of
                                 Some (r', rest') \<Rightarrow> emit (encode_rune r') (pstring rest')
                               | None \<Rightarrow> emit (encode_rune rune_error) (pstring rest))
                            else emit (encode_rune r) (pstring rest))))
      else if byte_in 0 31 c then None
      else if byte_in 0 127 c then emit [c] (pstring cs)
      else emit (encode_rune (fst (decode_rune (c # cs))))
             (pstring (drop (snd (decode_rune (c # cs)) - 1) cs)))"
  by pat_completeness auto
termination
  by (relation "measure length") (auto dest!: getu4_length low_surrogate_length)

lemma pstring_length: "pstring s = Some (x, rest) \<Longrightarrow> length rest < length s"
proof (induction s arbitrary: x rest rule: length_induct)
  case (1 s)
  have IH: "length rest < length s" if "pstring t = Some (y, rest)" "length t < length s" for t y
    using 1(1) that by (meson less_trans)
  show ?case
  proof (cases s)
    case (Cons c cs)
    note step = "1.prems"[unfolded Cons pstring.simps]
    show ?thesis
    proof (cases "c = CHR 0x5C")
      case True
      then obtain e cs' where cs: "cs = e # cs'"
        using step by (cases cs) auto
      have cs': "length cs' < length s"
        using Cons cs by simp
      show ?thesis
      proof (cases "simple_escape e")
        case None
        then obtain r t where u: "getu4 cs' = Some (r, t)"
          using step True cs by (auto split: if_splits option.splits)
        have t: "length t < length s"
          using getu4_length[OF u] Cons cs by simp
        then show ?thesis
          using step True cs None u low_surrogate_length[of r t]
          by (auto simp: emit_eq_Some split: if_splits option.splits intro: IH IH[OF _ less_trans])
      qed (use step True cs cs' in \<open>auto simp: emit_eq_Some intro: IH\<close>)
    next
      case False
      have "length (drop k cs) < length s" "length cs < length s" for k
        using Cons by simp_all
      then show ?thesis
        using step False by (auto simp: emit_eq_Some simp del: decode_rune.simps length_drop split: if_splits intro: IH)
    qed
  qed (use "1.prems" in simp)
qed

subsection \<open>Values\<close>

definition is_digit :: "char \<Rightarrow> bool" where
  "is_digit c \<longleftrightarrow> byte_in 48 57 c"

text \<open>A number literal: sign, integer part without leading zeros, fraction, exponent.\<close>

definition pdigits1 :: "bytes \<Rightarrow> (bytes \<times> bytes) option" where
  "pdigits1 s = (if s \<noteq> [] \<and> is_digit (hd s) then Some (takeWhile is_digit s, dropWhile is_digit s) else None)"

definition pint :: "bytes \<Rightarrow> (bytes \<times> bytes) option" where
  "pint s = (case s of
       [] \<Rightarrow> None
     | c # cs \<Rightarrow> if c = CHR ''0'' then Some ([c], cs) else pdigits1 s)"

definition pfrac :: "bytes \<Rightarrow> (bytes \<times> bytes) option" where
  "pfrac s = (case s of
       [] \<Rightarrow> Some ([], [])
     | c # cs \<Rightarrow> if c = CHR ''.'' then emit [c] (pdigits1 cs) else Some ([], s))"

definition pexp :: "bytes \<Rightarrow> (bytes \<times> bytes) option" where
  "pexp s = (case s of
       [] \<Rightarrow> Some ([], [])
     | c # cs \<Rightarrow>
         if c = CHR ''e'' \<or> c = CHR ''E'' then
           (case cs of
              [] \<Rightarrow> None
            | d # ds \<Rightarrow> if d = CHR ''+'' \<or> d = CHR ''-'' then emit [c, d] (pdigits1 ds)
                        else emit [c] (pdigits1 cs))
         else Some ([], s))"

definition pnumber :: "bytes \<Rightarrow> (bytes \<times> bytes) option" where
  "pnumber s =
     (let (sign, s1) = (if s \<noteq> [] \<and> hd s = CHR ''-'' then ([hd s], tl s) else ([], s))
      in case pint s1 of
           None \<Rightarrow> None
         | Some (i, s2) \<Rightarrow>
             (case pfrac s2 of
                None \<Rightarrow> None
              | Some (f, s3) \<Rightarrow> emit (sign @ i @ f) (pexp s3)))"

definition pliteral :: "gostring \<Rightarrow> jvalue \<Rightarrow> bytes \<Rightarrow> (jvalue \<times> bytes) option" where
  "pliteral w v s = (if take (length w) s = w then Some (v, drop (length w) s) else None)"

fun pval :: "nat \<Rightarrow> bytes \<Rightarrow> (jvalue \<times> bytes) option"
  and pmembers :: "nat \<Rightarrow> bytes \<Rightarrow> ((bytes \<times> jvalue) list \<times> bytes) option"
  and pelems :: "nat \<Rightarrow> bytes \<Rightarrow> (jvalue list \<times> bytes) option" where
  "pval 0 s = None"
| "pval (Suc n) s =
     (case skip_ws s of
        [] \<Rightarrow> None
      | c # cs \<Rightarrow>
          if c = CHR ''{'' then
            (case skip_ws cs of
               [] \<Rightarrow> None
             | d # ds \<Rightarrow>
                 if d = CHR ''}'' then Some (VObject [], ds)
                 else map_option (\<lambda>(ms, r). (VObject ms, r)) (pmembers n (d # ds)))
          else if c = CHR ''['' then
            (case skip_ws cs of
               [] \<Rightarrow> None
             | d # ds \<Rightarrow>
                 if d = CHR '']'' then Some (VArray [], ds)
                 else map_option (\<lambda>(vs, r). (VArray vs, r)) (pelems n (d # ds)))
          else if c = CHR 0x22 then map_option (\<lambda>(x, r). (VString x, r)) (pstring cs)
          else if c = CHR ''t'' then pliteral ''true'' (VBool True) (c # cs)
          else if c = CHR ''f'' then pliteral ''false'' (VBool False) (c # cs)
          else if c = CHR ''n'' then pliteral ''null'' VNull (c # cs)
          else map_option (\<lambda>(x, r). (VNumber x, r)) (pnumber (c # cs)))"
| "pmembers 0 s = None"
| "pmembers (Suc n) s =
     (case skip_ws s of
        [] \<Rightarrow> None
      | c # cs \<Rightarrow>
          if c \<noteq> CHR 0x22 then None
          else (case pstring cs of
                  None \<Rightarrow> None
                | Some (k, s1) \<Rightarrow>
                    (case skip_ws s1 of
                       [] \<Rightarrow> None
                     | d # s2 \<Rightarrow>
                         if d \<noteq> CHR '':'' then None
                         else (case pval n s2 of
                                 None \<Rightarrow> None
                               | Some (v, s3) \<Rightarrow>
                                   (case skip_ws s3 of
                                      [] \<Rightarrow> None
                                    | e # s4 \<Rightarrow>
                                        if e = CHR ''}'' then Some ([(k, v)], s4)
                                        else if e = CHR '','' then
                                          map_option (\<lambda>(ms, r). ((k, v) # ms, r)) (pmembers n s4)
                                        else None)))))"
| "pelems 0 s = None"
| "pelems (Suc n) s =
     (case pval n s of
        None \<Rightarrow> None
      | Some (v, s1) \<Rightarrow>
          (case skip_ws s1 of
             [] \<Rightarrow> None
           | c # s2 \<Rightarrow>
               if c = CHR '']'' then Some ([v], s2)
               else if c = CHR '','' then map_option (\<lambda>(vs, r). (v # vs, r)) (pelems n s2)
               else None))"

definition parse_value :: "bytes \<Rightarrow> (jvalue \<times> bytes) option" where
  "parse_value s = pval (2 * length s + 2) s"

subsection \<open>Progress and fuel\<close>

lemma skip_ws_length: "length (skip_ws s) \<le> length s"
  by (simp add: skip_ws_def length_dropWhile_le)

lemma skip_ws_Cons_length: "skip_ws s = c # cs \<Longrightarrow> length cs < length s"
  using skip_ws_length[of s] by simp

lemma pdigits1_length: "pdigits1 s = Some (x, r) \<Longrightarrow> length r < length s"
  by (cases s) (auto simp: pdigits1_def length_dropWhile_le le_imp_less_Suc split: if_splits)

lemma pint_length: "pint s = Some (x, r) \<Longrightarrow> length r < length s"
  by (auto simp: pint_def split: list.splits if_splits dest: pdigits1_length)

lemma pfrac_length: "pfrac s = Some (x, r) \<Longrightarrow> length r \<le> length s"
  by (auto simp: pfrac_def emit_eq_Some split: list.splits if_splits dest!: pdigits1_length)

lemma pexp_length: "pexp s = Some (x, r) \<Longrightarrow> length r \<le> length s"
  by (auto simp: pexp_def emit_eq_Some split: list.splits if_splits dest!: pdigits1_length)

lemma pnumber_length: "pnumber s = Some (x, r) \<Longrightarrow> length r < length s"
  by (cases s)
     (auto simp: pnumber_def emit_eq_Some Let_def split: if_splits option.splits prod.splits
       dest!: pint_length pfrac_length pexp_length)

lemma pliteral_length: "w \<noteq> [] \<Longrightarrow> pliteral w v s = Some (x, r) \<Longrightarrow> length r < length s"
  by (cases s) (auto simp: pliteral_def split: if_splits)

lemmas parse_lengths = skip_ws_Cons_length pstring_length pnumber_length pliteral_length[rotated]

lemma pval_length:
  "pval n s = Some (v, r) \<Longrightarrow> length r < length s"
  "pmembers n s = Some (ms, r) \<Longrightarrow> length r < length s"
  "pelems n s = Some (vs, r) \<Longrightarrow> length r < length s"
proof (induction n s and n s and n s arbitrary: v r and ms r and vs r
    rule: pval_pmembers_pelems.induct)
  case (2 n s)
  then show ?case
    by (fastforce split: list.splits if_splits dest!: parse_lengths)
next
  case (4 n s)
  then show ?case
    by (fastforce split: list.splits if_splits option.splits prod.splits dest!: parse_lengths)
next
  case (6 n s)
  then show ?case
    by (fastforce split: list.splits if_splits option.splits prod.splits dest!: parse_lengths)
qed simp_all

text \<open>Fuel above twice the length of the input never changes the result.\<close>

declare pval.simps [simp del] pmembers.simps [simp del] pelems.simps [simp del]

lemma pval_fuel_Suc:
  "(2 * length s < n \<longrightarrow> pval (Suc n) s = pval n s) \<and>
   (2 * length s < n \<longrightarrow> pmembers (Suc n) s = pmembers n s) \<and>
   (2 * length s + 1 < n \<longrightarrow> pelems (Suc n) s = pelems n s)"
proof (induction n arbitrary: s)
  case (Suc n)
  have IH: "2 * length t < n \<Longrightarrow> pval (Suc n) t = pval n t"
    "2 * length t < n \<Longrightarrow> pmembers (Suc n) t = pmembers n t"
    "2 * length t + 1 < n \<Longrightarrow> pelems (Suc n) t = pelems n t" for t
    using Suc[of t] by blast+
  have "pval (Suc (Suc n)) s = pval (Suc n) s" if n: "2 * length s < Suc n"
  proof (cases "skip_ws s")
    case (Cons c cs)
    have "pmembers (Suc n) t = pmembers n t" "pelems (Suc n) t = pelems n t"
      if "skip_ws cs = t" for t
      using n that skip_ws_length[of cs] skip_ws_Cons_length[OF Cons] by (auto intro!: IH)
    then show ?thesis
      unfolding pval.simps(2)[of "Suc n"] pval.simps(2)[of n] Cons
      by (auto split: list.split)
  qed (simp add: pval.simps)
  moreover have "pmembers (Suc (Suc n)) s = pmembers (Suc n) s" if n: "2 * length s < Suc n"
  proof -
    have "pval (Suc n) s2 = pval n s2"
      if "skip_ws s = c # cs" "pstring cs = Some (k, s1)" "skip_ws s1 = d # s2" for c cs k s1 d s2
      using that n by (auto dest!: parse_lengths intro!: IH)
    moreover have "pmembers (Suc n) s4 = pmembers n s4"
      if "skip_ws s = c # cs" "pstring cs = Some (k, s1)" "skip_ws s1 = d # s2"
        "pval n s2 = Some (v, s3)" "skip_ws s3 = e # s4" for c cs k s1 d s2 v s3 e s4
      using that n by (auto dest!: parse_lengths pval_length intro!: IH)
    ultimately show ?thesis
      unfolding pmembers.simps(2)[of "Suc n"] pmembers.simps(2)[of n]
      by (auto split: list.split option.split prod.split)
  qed
  moreover have "pelems (Suc (Suc n)) s = pelems (Suc n) s" if n: "2 * length s + 1 < Suc n"
  proof -
    have "pval (Suc n) s = pval n s"
      using n by (intro IH) simp
    moreover have "pelems (Suc n) s2 = pelems n s2"
      if "pval n s = Some (v, s1)" "skip_ws s1 = c # s2" for v s1 c s2
      using that n by (auto dest!: parse_lengths pval_length intro!: IH)
    ultimately show ?thesis
      unfolding pelems.simps(2)[of "Suc n"] pelems.simps(2)[of n]
      by (auto split: list.split option.split prod.split)
  qed
  ultimately show ?case by blast
qed simp

lemma pval_fuel: "2 * length s < n \<Longrightarrow> n \<le> m \<Longrightarrow> pval m s = pval n s"
proof (induction m)
  case (Suc m)
  then show ?case
    using pval_fuel_Suc[of s m] by (cases "n = Suc m") auto
qed simp

lemma parse_value_fuel: "2 * length s + 2 \<le> m \<Longrightarrow> pval m s = parse_value s"
  unfolding parse_value_def by (rule pval_fuel) auto

subsection \<open>Matching object keys to struct fields\<close>

text \<open>
  \<open>foldName\<close>: ASCII letters in upper case, and the two runes outside ASCII that fold to an ASCII
  letter, U+017F to \<open>S\<close> and U+212A to \<open>K\<close>.  Other runes fold to runes outside ASCII, so they match
  no field of ASCII letters and may stay as they are.
\<close>

definition upper_byte :: "char \<Rightarrow> char" where
  "upper_byte c =
     (case map_of (zip ''abcdefghijklmnopqrstuvwxyz'' ''ABCDEFGHIJKLMNOPQRSTUVWXYZ'') c of
        Some d \<Rightarrow> d | None \<Rightarrow> c)"

fun fold_name :: "bytes \<Rightarrow> bytes" where
  "fold_name [] = []"
| "fold_name (a # cs) =
     (if a = CHR 0xC5 \<and> take 1 cs = [CHR 0xBF] then CHR ''S'' # fold_name (drop 1 cs)
      else if a = CHR 0xE2 \<and> take 2 cs = [CHR 0x84, CHR 0xAA] then CHR ''K'' # fold_name (drop 2 cs)
      else upper_byte a # fold_name cs)"

text \<open>The field of a struct that a key names: an exact match first, a folded match otherwise.\<close>

definition match_field :: "gostring list \<Rightarrow> bytes \<Rightarrow> gostring option" where
  "match_field fields k =
     (if k \<in> set fields then Some k
      else case filter (\<lambda>f. fold_name f = fold_name k) fields of [] \<Rightarrow> None | f # _ \<Rightarrow> Some f)"

end
