(* ===== verification/GoJsonRoundtrip.thy ===== *)
theory GoJsonRoundtrip
  imports GoJsonDecode
begin

section \<open>The string decoder inverts the string encoder\<close>

text \<open>
  On well-formed UTF-8, unquoting what \<open>appendString\<close> wrote gives the string back, whatever follows
  the closing quote.  This is what lets a body produced by one JSON encoder reach a handler's struct
  unchanged.
\<close>

lemma nat_lt_16: "(n::nat) < 16 \<Longrightarrow> n \<in> set [0, 1, 2, 3, 4, 5, 6, 7, 8, 9, 10, 11, 12, 13, 14, 15]"
  by (simp, arith)

lemma hex_val_hex_digit:
  assumes "n < 16"
  shows "hex_val (hex_digit n) = Some n"
proof -
  have "list_all (\<lambda>n. hex_val (hex_digit n) = Some n) [0, 1, 2, 3, 4, 5, 6, 7, 8, 9, 10, 11, 12, 13, 14, 15]"
    by (simp add: hex_val_def hex_digit_def)
  then show ?thesis
    using nat_lt_16[OF assms] by (simp only: list_all_iff)
qed

subsection \<open>Multi-byte runes\<close>

lemma split64: "(y::nat) < 64 \<Longrightarrow> (x * 64 + y) div 64 = x" "(y::nat) < 64 \<Longrightarrow> (x * 64 + y) mod 64 = y"
  by simp_all

lemma byte_in_diff:
  assumes "byte_in lo hi c"
  shows "lo + (of_char c - lo) = of_char c" "of_char c - lo \<le> hi - lo"
  using assms by (auto simp: byte_in_def)

lemma char_of_split: "byte_in lo hi c \<Longrightarrow> char_of (lo + (of_char c - lo)) = c"
  using byte_in_diff(1)[of lo hi c] by simp

lemma encode_rune_2:
  assumes "x < 32" "2 \<le> x" "y < 64"
  shows "encode_rune (x * 64 + y) = [char_of (192 + x), char_of (128 + y)]"
proof -
  have "128 \<le> x * 64 + y" "x * 64 + y < 2048" using assms by simp_all
  then show ?thesis
    using assms split64[OF assms(3), of x] by (simp add: encode_rune_def Let_def)
qed

lemma encode_rune_3:
  assumes x: "x < 16" "y < 64" "z < 64" "32 \<le> y \<or> 1 \<le> x" "x = 13 \<Longrightarrow> y < 32"
  shows "encode_rune (x * 4096 + y * 64 + z) = [char_of (224 + x), char_of (128 + y), char_of (128 + z)]"
proof -
  define r where "r = x * 4096 + y * 64 + z"
  have r: "r = (x * 64 + y) * 64 + z" by (simp add: r_def)
  have d: "r div 64 = x * 64 + y" "r mod 64 = z"
    unfolding r using split64[OF x(3), of "x * 64 + y"] by simp_all
  then have "r div 4096 = x" "r div 64 mod 64 = y"
    using split64[OF x(2), of x] div_mult2_eq[of r 64 64] by simp_all
  moreover have "2048 \<le> r" "r < 65536" using x by (auto simp: r_def)
  moreover have "\<not> (55296 \<le> r \<and> r \<le> 57343)"
  proof
    assume b: "55296 \<le> r \<and> r \<le> 57343"
    then have "x = 13" using x(1-3) by (auto simp: r_def)
    with b x show False by (simp add: r_def)
  qed
  ultimately have "encode_rune r = [char_of (224 + x), char_of (128 + y), char_of (128 + z)]"
    using d by (auto simp: encode_rune_def Let_def)
  then show ?thesis by (simp add: r_def)
qed

lemma encode_rune_4:
  assumes x: "x < 5" "y < 64" "z < 64" "w < 64" "16 \<le> y \<or> 1 \<le> x" "x = 4 \<Longrightarrow> y < 16"
  shows "encode_rune (x * 262144 + y * 4096 + z * 64 + w) =
    [char_of (240 + x), char_of (128 + y), char_of (128 + z), char_of (128 + w)]"
proof -
  define r where "r = x * 262144 + y * 4096 + z * 64 + w"
  have r: "r = ((x * 64 + y) * 64 + z) * 64 + w" by (simp add: r_def)
  have d: "r div 64 = (x * 64 + y) * 64 + z" "r mod 64 = w"
    unfolding r using split64[OF x(4), of "(x * 64 + y) * 64 + z"] by simp_all
  then have d2: "r div 4096 = x * 64 + y" "r div 64 mod 64 = z"
    using split64[OF x(3), of "x * 64 + y"] div_mult2_eq[of r 64 64] by simp_all
  then have "r div 262144 = x" "r div 4096 mod 64 = y"
    using split64[OF x(2), of x] div_mult2_eq[of r 4096 64] by simp_all
  moreover have "65536 \<le> r" using x(5) by (auto simp: r_def)
  moreover have "r \<le> 1114111"
    using x(1-4) x(6) by (cases "x = 4") (auto simp: r_def)
  ultimately have "encode_rune r = [char_of (240 + x), char_of (128 + y), char_of (128 + z), char_of (128 + w)]"
    using d d2 by (simp add: encode_rune_def Let_def)
  then show ?thesis by (simp add: r_def)
qed

text \<open>
  A well-formed leading sequence: its width fits, the rune re-encodes to the same bytes, and the
  decoder reads it the same way whatever follows.
\<close>

lemma byte_in_range: "byte_in lo hi c \<longleftrightarrow> lo \<le> of_char c \<and> of_char c \<le> hi"
  by (simp add: byte_in_def)

lemma decode2_ok:
  assumes "byte_in 194 223 c0" "decode2 c0 cs = (r, n)" "\<not> (r = rune_error \<and> n = 1)"
  obtains c1 cs' where "cs = c1 # cs'" "n = 2" "encode_rune r = [c0, c1]"
    "\<And>t. decode2 c0 (c1 # t) = (r, n)"
proof -
  from assms obtain c1 cs' where c: "cs = c1 # cs'" "byte_in 128 191 c1"
    and r: "r = (of_char c0 - 192) * 64 + (of_char c1 - 128)" "n = 2"
    by (auto simp: decode2_def split: list.splits if_splits)
  have "encode_rune r = [char_of (192 + (of_char c0 - 192) :: nat), char_of (128 + (of_char c1 - 128) :: nat)]"
    unfolding r by (rule encode_rune_2) (use assms(1) c(2) in \<open>auto simp: byte_in_range\<close>)
  moreover have "byte_in 192 255 c0" using assms(1) by (auto simp: byte_in_range)
  ultimately have "encode_rune r = [c0, c1]"
    using c(2) by (simp only: char_of_split)
  then show ?thesis
    using that[of c1 cs'] c r by (simp add: decode2_def)
qed

lemma decode3_ok:
  assumes "byte_in 224 239 c0" "decode3 c0 cs = (r, n)" "\<not> (r = rune_error \<and> n = 1)"
  obtains c1 c2 cs' where "cs = c1 # c2 # cs'" "n = 3" "encode_rune r = [c0, c1, c2]"
    "\<And>t. decode3 c0 (c1 # c2 # t) = (r, n)"
proof -
  from assms obtain c1 c2 cs' where c: "cs = c1 # c2 # cs'" "byte_in 128 191 c2"
    "byte_in (if of_char c0 = (224::nat) then 160 else 128) (if of_char c0 = (237::nat) then 159 else 191) c1"
    and r: "r = (of_char c0 - 224) * 4096 + (of_char c1 - 128) * 64 + (of_char c2 - 128)" "n = 3"
    by (auto simp: decode3_def split: list.splits if_splits)
  have c1: "byte_in 128 191 c1" using c(3) by (auto simp: byte_in_range split: if_splits)
  have "encode_rune r = [char_of (224 + (of_char c0 - 224) :: nat), char_of (128 + (of_char c1 - 128) :: nat),
      char_of (128 + (of_char c2 - 128) :: nat)]"
    unfolding r by (rule encode_rune_3)
      (use assms(1) c(2,3) c1 in \<open>auto simp: byte_in_range split: if_splits\<close>)
  then have "encode_rune r = [c0, c1, c2]"
    using assms(1) c(2) c1 by (simp only: char_of_split)
  then show ?thesis
    using that[of c1 c2 cs'] c r by (simp add: decode3_def)
qed

lemma decode4_ok:
  assumes "byte_in 240 244 c0" "decode4 c0 cs = (r, n)" "\<not> (r = rune_error \<and> n = 1)"
  obtains c1 c2 c3 cs' where "cs = c1 # c2 # c3 # cs'" "n = 4" "encode_rune r = [c0, c1, c2, c3]"
    "\<And>t. decode4 c0 (c1 # c2 # c3 # t) = (r, n)"
proof -
  from assms obtain c1 c2 c3 cs' where c: "cs = c1 # c2 # c3 # cs'" "byte_in 128 191 c2" "byte_in 128 191 c3"
    "byte_in (if of_char c0 = (240::nat) then 144 else 128) (if of_char c0 = (244::nat) then 143 else 191) c1"
    and r: "r = (of_char c0 - 240) * 262144 + (of_char c1 - 128) * 4096 + (of_char c2 - 128) * 64
        + (of_char c3 - 128)" "n = 4"
    by (auto simp: decode4_def split: list.splits if_splits)
  have c1: "byte_in 128 191 c1" using c(4) by (auto simp: byte_in_range split: if_splits)
  have "encode_rune r = [char_of (240 + (of_char c0 - 240) :: nat), char_of (128 + (of_char c1 - 128) :: nat),
      char_of (128 + (of_char c2 - 128) :: nat), char_of (128 + (of_char c3 - 128) :: nat)]"
    unfolding r by (rule encode_rune_4)
      (use assms(1) c(2-4) c1 in \<open>auto simp: byte_in_range split: if_splits\<close>)
  then have "encode_rune r = [c0, c1, c2, c3]"
    using assms(1) c(2,3) c1 by (simp only: char_of_split)
  then show ?thesis
    using that[of c1 c2 c3 cs'] c r by (simp add: decode4_def)
qed

lemma decode_rune_ok:
  assumes "decode_rune (c # cs) = (r, n)" "\<not> byte_in 0 127 c" "\<not> (r = rune_error \<and> n = 1)"
  shows "encode_rune r = take n (c # cs)" "n \<noteq> 0" "n \<le> length (c # cs)"
    and "decode_rune (take n (c # cs) @ t) = (r, n)"
proof -
  consider "byte_in 194 223 c" "decode2 c cs = (r, n)"
    | "\<not> byte_in 194 223 c" "byte_in 224 239 c" "decode3 c cs = (r, n)"
    | "\<not> byte_in 194 223 c" "\<not> byte_in 224 239 c" "byte_in 240 244 c" "decode4 c cs = (r, n)"
    using assms by (auto split: if_splits)
  then have "encode_rune r = take n (c # cs) \<and> n \<noteq> 0 \<and> n \<le> length (c # cs) \<and>
    decode_rune (take n (c # cs) @ t) = (r, n)"
  proof cases
    case 1
    show ?thesis
      by (rule decode2_ok[OF 1 assms(3)]) (use 1(1) assms(2) in simp)
  next
    case 2
    show ?thesis
      by (rule decode3_ok[OF 2(2,3) assms(3)]) (use 2(1,2) assms(2) in simp)
  next
    case 3
    show ?thesis
      by (rule decode4_ok[OF 3(3,4) assms(3)]) (use 3(1-3) assms(2) in simp)
  qed
  then show "encode_rune r = take n (c # cs)" "n \<noteq> 0" "n \<le> length (c # cs)"
    "decode_rune (take n (c # cs) @ t) = (r, n)" by auto
qed

subsection \<open>Escapes\<close>

declare pstring.simps(2) [simp del]

lemma pstring_quote [simp]: "pstring (CHR 0x22 # t) = Some ([], t)"
  by (simp add: pstring.simps(2))

lemma byte_in_127 [simp]: "byte_in 0 127 c \<longleftrightarrow> of_char c \<le> (127 :: nat)"
  by (simp add: byte_in_def)

lemma byte_in_31 [simp]: "byte_in 0 31 c \<longleftrightarrow> of_char c < (32 :: nat)"
  by (auto simp: byte_in_def)

lemma encode_rune_ascii: "of_char c \<le> (127 :: nat) \<Longrightarrow> encode_rune (of_char c) = [c]"
  by (simp add: encode_rune_def Let_def)

lemma simple_escape_u: "simple_escape CHR ''u'' = None"
  by (simp add: simple_escape_def)

lemma hex_val_02: "hex_val CHR ''0'' = Some 0" "hex_val CHR ''2'' = Some 2"
  by (simp_all add: hex_val_def)

lemma getu4_byte:
  "getu4 (CHR ''0'' # CHR ''0'' # hex_digit (of_char c div 16) # hex_digit (of_char c mod 16) # t)
     = Some (of_char c, t)"
proof -
  have "hex_val (hex_digit (of_char c div 16)) = Some (of_char c div 16)"
    "hex_val (hex_digit (of_char c mod 16)) = Some (of_char c mod 16)"
    by (rule hex_val_hex_digit, rule of_char_nibbles)+
  then show ?thesis by (simp add: hex_val_02)
qed

lemma pstring_u:
  assumes "getu4 cs = Some (r, t)" "\<not> is_surrogate r"
  shows "pstring (CHR 0x5C # CHR ''u'' # cs) = emit (encode_rune r) (pstring t)"
  using assms by (simp add: pstring.simps(2) simple_escape_u)

lemma pstring_simple:
  assumes "simple_escape e = Some b"
  shows "pstring (CHR 0x5C # e # t) = emit [b] (pstring t)"
  using assms by (simp add: pstring.simps(2))

lemma pstring_raw_ascii:
  assumes "c \<noteq> CHR 0x22" "c \<noteq> CHR 0x5C" "\<not> of_char c < (32::nat)" "of_char c \<le> (127::nat)"
  shows "pstring (c # t) = emit [c] (pstring t)"
  using assms by (simp add: pstring.simps(2))

lemma simple_escapes:
  "simple_escape CHR 0x22 = Some CHR 0x22" "simple_escape CHR 0x5C = Some CHR 0x5C"
  "simple_escape CHR ''b'' = Some CHR 0x08" "simple_escape CHR ''f'' = Some CHR 0x0C"
  "simple_escape CHR ''n'' = Some CHR 0x0A" "simple_escape CHR ''r'' = Some CHR 0x0D"
  "simple_escape CHR ''t'' = Some CHR 0x09"
  by (simp_all add: simple_escape_def)

lemma pstring_esc_ascii:
  assumes "of_char c \<le> (127 :: nat)"
  shows "pstring (esc_ascii c @ t) = emit [c] (pstring t)"
proof -
  let ?S = "{CHR 0x22, CHR 0x5C, CHR 0x08, CHR 0x0C, CHR 0x0A, CHR 0x0D, CHR 0x09}"
  let ?H = "of_char c < (32::nat) \<or> c = CHR ''<'' \<or> c = CHR ''>'' \<or> c = CHR ''&''"
  consider "c \<in> ?S" | "c \<notin> ?S" "?H" | "c \<notin> ?S" "\<not> ?H"
    by (cases "c \<in> ?S"; cases "?H") (rule that; assumption)+
  then show ?thesis
  proof cases
    case 1
    then have "\<exists>e. esc_ascii c = [CHR 0x5C, e] \<and> simple_escape e = Some c"
      by (auto simp: esc_ascii_def simple_escapes)
    then show ?thesis
      by (auto simp: pstring_simple)
  next
    case 2
    have "\<not> is_surrogate (of_char c)" using assms by (simp add: is_surrogate_def)
    moreover have "esc_ascii c = [CHR 0x5C, CHR ''u'', CHR ''0'', CHR ''0'',
        hex_digit (of_char c div 16), hex_digit (of_char c mod 16)]"
      using 2 unfolding esc_ascii_def by (simp only: insert_iff empty_iff if_True if_False de_Morgan_disj simp_thms)
    ultimately show ?thesis
      using pstring_u[OF getu4_byte] encode_rune_ascii[OF assms] by simp
  next
    case 3
    then have "esc_ascii c = [c]"
      unfolding esc_ascii_def by (simp only: insert_iff empty_iff if_False de_Morgan_disj simp_thms)
    then show ?thesis
      using 3 assms pstring_raw_ascii[of c t] by simp
  qed
qed

lemma pstring_raw_rune:
  assumes "decode_rune (c # cs) = (r, n)" "\<not> of_char c \<le> (127::nat)" "\<not> (r = rune_error \<and> n = 1)"
  shows "pstring (take n (c # cs) @ t) = emit (take n (c # cs)) (pstring t)"
proof -
  have nc: "\<not> byte_in 0 127 c" using assms(2) by simp
  note ok = decode_rune_ok[OF assms(1) nc assms(3)]
  have len: "length (take n (c # cs)) = n" using ok(3) by simp
  obtain m where n: "n = Suc m" using ok(2) by (cases n) auto
  have "c \<noteq> CHR 0x22" "c \<noteq> CHR 0x5C" "\<not> of_char c < (32::nat)"
    using assms(2) by auto
  moreover have "drop m (take m cs @ t) = t" using len n by simp
  ultimately show ?thesis
    using ok(1) ok(4)[of t] assms(2) n by (simp add: pstring.simps(2) del: decode_rune.simps)
qed

lemma pstring_line_sep:
  assumes "r = 8232 \<or> r = 8233"
  shows "pstring ([CHR 0x5C, CHR ''u'', CHR ''2'', CHR ''0'', CHR ''2'', hex_digit (r mod 16)] @ t)
    = emit (encode_rune r) (pstring t)"
proof -
  have "hex_val (hex_digit (r mod 16)) = Some (r mod 16)"
    by (rule hex_val_hex_digit) simp
  then have "getu4 (CHR ''2'' # CHR ''0'' # CHR ''2'' # hex_digit (r mod 16) # t) = Some (r, t)"
    using assms hex_val_02 by auto
  moreover have "\<not> is_surrogate r" using assms by (auto simp: is_surrogate_def)
  ultimately show ?thesis
    using pstring_u[of "CHR ''2'' # CHR ''0'' # CHR ''2'' # hex_digit (r mod 16) # t" r t]
    by (simp del: getu4.simps)
qed

text \<open>
  What a string becomes on the way through the encoder and the decoder: each malformed byte is
  replaced by U+FFFD, and nothing changes in well-formed UTF-8.
\<close>

fun coerce_utf8 :: "bytes \<Rightarrow> bytes" where
  "coerce_utf8 [] = []"
| "coerce_utf8 (c # cs) =
     (if byte_in 0 127 c then c # coerce_utf8 cs
      else let (r, n) = decode_rune (c # cs)
           in if r = rune_error \<and> n = 1 then encode_rune rune_error @ coerce_utf8 cs
              else take n (c # cs) @ coerce_utf8 (drop (n - 1) cs))"

lemma pstring_fffd:
  "pstring ([CHR 0x5C, CHR ''u'', CHR ''f'', CHR ''f'', CHR ''f'', CHR ''d''] @ t) =
     emit (encode_rune rune_error) (pstring t)"
proof -
  have "getu4 (CHR ''f'' # CHR ''f'' # CHR ''f'' # CHR ''d'' # t) = Some (rune_error, t)"
    by (simp add: hex_val_def rune_error_def)
  then show ?thesis
    using pstring_u[of "CHR ''f'' # CHR ''f'' # CHR ''f'' # CHR ''d'' # t" rune_error t]
    by (simp add: is_surrogate_def rune_error_def del: getu4.simps)
qed

theorem pstring_esc_coerce:
  "pstring (esc s @ CHR 0x22 # rest) = Some (coerce_utf8 s, rest)"
proof (induction s rule: esc.induct)
  case (2 c cs)
  obtain r n where d: "decode_rune (c # cs) = (r, n)" by (cases "decode_rune (c # cs)")
  show ?case
  proof (cases "of_char c \<le> (127::nat)")
    case True
    then show ?thesis using "2.IH"(1) by (simp add: pstring_esc_ascii)
  next
    case False
    have nc: "\<not> byte_in 0 127 c" using False by simp
    show ?thesis
    proof (cases "r = rune_error \<and> n = 1")
      case bad: True
      have "esc (c # cs) = [CHR 0x5C, CHR ''u'', CHR ''f'', CHR ''f'', CHR ''f'', CHR ''d''] @ esc cs"
        "coerce_utf8 (c # cs) = encode_rune rune_error @ coerce_utf8 cs"
        using bad nc by (simp_all only: esc.simps(2) coerce_utf8.simps(2) d Let_def prod.case if_False if_True simp_thms)
      moreover have "pstring (esc cs @ CHR 0x22 # rest) = Some (coerce_utf8 cs, rest)"
        using "2.IH"(2)[OF nc d[symmetric] refl bad] .
      ultimately show ?thesis
        using pstring_fffd[of "esc cs @ CHR 0x22 # rest"] by (simp only: append_assoc emit_simps)
    next
      case v: False
      note ok = decode_rune_ok[OF d nc v]
      have co: "coerce_utf8 (c # cs) = take n (c # cs) @ coerce_utf8 (drop (n - 1) cs)"
        using v nc by (simp only: coerce_utf8.simps(2) d Let_def prod.case if_False)
      have IH: "pstring (esc (drop (n - 1) cs) @ CHR 0x22 # rest) = Some (coerce_utf8 (drop (n - 1) cs), rest)"
        using "2.IH"(3,4)[OF nc d[symmetric] refl v] by blast
      show ?thesis
      proof (cases "r = 8232 \<or> r = 8233")
        case True
        have "esc (c # cs) = [CHR 0x5C, CHR ''u'', CHR ''2'', CHR ''0'', CHR ''2'', hex_digit (r mod 16)]
            @ esc (drop (n - 1) cs)"
          using True nc v by (simp only: esc.simps(2) d Let_def prod.case if_False if_True)
        then show ?thesis
          using pstring_line_sep[OF True, of "esc (drop (n - 1) cs) @ CHR 0x22 # rest"] IH ok(1) co
          by (simp only: append_assoc emit_simps)
      next
        case False
        have "esc (c # cs) = take n (c # cs) @ esc (drop (n - 1) cs)"
          using False nc v by (simp only: esc.simps(2) d Let_def prod.case if_False)
        then show ?thesis
          using pstring_raw_rune[OF d _ v, of "esc (drop (n - 1) cs) @ CHR 0x22 # rest"] nc IH co
          by (simp only: append_assoc emit_simps byte_in_127 simp_thms)
      qed
    qed
  qed
qed simp

lemma coerce_valid: "valid_utf8 s \<Longrightarrow> coerce_utf8 s = s"
proof (induction s rule: coerce_utf8.induct)
  case (2 c cs)
  obtain r n where d: "decode_rune (c # cs) = (r, n)" by (cases "decode_rune (c # cs)")
  have v: "\<not> (r = rune_error \<and> n = 1)" "valid_utf8 (drop (n - 1) cs)"
    using "2.prems" d by (simp_all del: decode_rune.simps)
  show ?case
  proof (cases "byte_in 0 127 c")
    case True
    then have "n = 1" using d by auto
    then show ?thesis using True v(2) "2.IH"(1) by simp
  next
    case nc: False
    note ok = decode_rune_ok[OF d nc v(1)]
    have "coerce_utf8 (drop (n - 1) cs) = drop (n - 1) cs"
      using "2.IH"(3)[OF nc d[symmetric] refl v(1) v(2)] .
    moreover have "take n (c # cs) @ drop (n - 1) cs = c # cs"
      using ok(2) by (cases n) auto
    ultimately show ?thesis
      using v(1) nc by (simp only: coerce_utf8.simps(2) d Let_def prod.case if_False)
  qed
qed simp

theorem pstring_esc:
  "valid_utf8 s \<Longrightarrow> pstring (esc s @ CHR 0x22 # rest) = Some (s, rest)"
  by (simp add: pstring_esc_coerce coerce_valid)

lemma skip_ws_stop: "\<not> is_ws c \<Longrightarrow> skip_ws (c # s) = c # s"
  by (simp add: skip_ws_def)

end
