(* ===== verification/GoJsonValues.thy ===== *)
theory GoJsonValues
  imports GoJsonRoundtrip
begin

section \<open>The decoder inverts the encoder on every value\<close>

text \<open>
  Any value of the encoder, followed by any input that cannot extend it, is parsed back: strings with
  malformed bytes replaced, numbers as the literal that was written.  So every body the services send
  is one JSON text.
\<close>

subsection \<open>What a value decodes to\<close>

fun decoded :: "json \<Rightarrow> jvalue" where
  "decoded JNull = VNull"
| "decoded (JBool b) = VBool b"
| "decoded (JInt i) = VNumber (show_int i)"
| "decoded (JStr s) = VString (coerce_utf8 s)"
| "decoded (JArr xs) = VArray (map decoded xs)"
| "decoded (JObj ms) = VObject (map (\<lambda>(k, v). (coerce_utf8 k, decoded v)) ms)"

text \<open>Input that cannot be read as a part of a number before it.\<close>

fun ends_value :: "bytes \<Rightarrow> bool" where
  "ends_value [] = True"
| "ends_value (c # cs) = (\<not> is_digit c \<and> c \<notin> {CHR ''.'', CHR ''e'', CHR ''E''})"

subsection \<open>Numbers\<close>

lemma is_digit_hex_digit: "n < 10 \<Longrightarrow> is_digit (hex_digit n) \<and> (hex_digit n = CHR ''0'' \<longleftrightarrow> n = 0)"
proof -
  assume "n < 10"
  moreover have "list_all (\<lambda>n. is_digit (hex_digit n) \<and> (hex_digit n = CHR ''0'' \<longleftrightarrow> n = 0)) [0, 1, 2, 3, 4, 5, 6, 7, 8, 9]"
    by (simp add: hex_digit_def is_digit_def byte_in_def)
  moreover have "n \<in> set [0, 1, 2, 3, 4, 5, 6, 7, 8, 9]" using \<open>n < 10\<close> by (simp, arith)
  ultimately show ?thesis by (simp only: list_all_iff)
qed

lemma dec_digits_all: "list_all is_digit (dec_digits n)"
proof (induction n rule: dec_digits.induct)
  case (1 n)
  then show ?case using is_digit_hex_digit by (subst dec_digits.simps) auto
qed

lemma dec_digits_head: "\<exists>c cs. dec_digits n = c # cs \<and> (c = CHR ''0'' \<longrightarrow> n = 0)"
proof (induction n rule: dec_digits.induct)
  case (1 n)
  show ?case
  proof (cases "n < 10")
    case True
    then show ?thesis using is_digit_hex_digit[OF True] by (subst dec_digits.simps) simp
  next
    case False
    then obtain c cs where "dec_digits (n div 10) = c # cs" "c = CHR ''0'' \<longrightarrow> n div 10 = 0"
      using 1 by blast
    moreover have "dec_digits n = dec_digits (n div 10) @ [hex_digit (n mod 10)]"
      using False by (subst dec_digits.simps) simp
    ultimately show ?thesis using False by auto
  qed
qed

lemma digits_run:
  assumes "list_all is_digit ds" "ends_value rest"
  shows "takeWhile is_digit (ds @ rest) = ds" "dropWhile is_digit (ds @ rest) = rest"
proof -
  have "\<And>d. d \<in> set ds \<Longrightarrow> is_digit d" using assms(1) by (simp add: list_all_iff)
  moreover have "takeWhile is_digit rest = []" "dropWhile is_digit rest = rest"
    using assms(2) by (cases rest; simp)+
  ultimately show "takeWhile is_digit (ds @ rest) = ds" "dropWhile is_digit (ds @ rest) = rest"
    by (simp_all add: takeWhile_append2 dropWhile_append2)
qed

lemma pint_dec_digits:
  assumes "ends_value rest"
  shows "pint (dec_digits n @ rest) = Some (dec_digits n, rest)"
proof -
  obtain c cs where c: "dec_digits n = c # cs" "c = CHR ''0'' \<longrightarrow> n = 0" using dec_digits_head by blast
  show ?thesis
  proof (cases "c = CHR ''0''")
    case True
    then have "dec_digits n = [CHR ''0'']" using c by (simp add: dec_digits.simps hex_digit_def)
    then show ?thesis by (simp add: pint_def)
  next
    case False
    have "is_digit c" using dec_digits_all[of n] c(1) by simp
    then show ?thesis
      using False digits_run[OF dec_digits_all[of n] assms] c(1) by (simp add: pint_def pdigits1_def)
  qed
qed

lemma rest_no_fraction:
  assumes "ends_value rest"
  shows "pfrac rest = Some ([], rest)" "pexp rest = Some ([], rest)"
  using assms by (cases rest; simp add: pfrac_def pexp_def)+

lemma is_digit_not: "is_digit c \<Longrightarrow>
    c \<notin> {CHR ''-'', CHR ''{'', CHR ''['', CHR 0x22, CHR ''t'', CHR ''f'', CHR ''n''} \<and> \<not> is_ws c"
  by (auto simp: is_digit_def is_ws_def byte_in_def)

lemma pnumber_show_int:
  assumes "ends_value rest"
  shows "pnumber (show_int i @ rest) = Some (show_int i, rest)"
proof -
  note facts = pint_dec_digits[OF assms] rest_no_fraction[OF assms]
  obtain c cs where c: "dec_digits (nat i) = c # cs" using dec_digits_head by blast
  then have "c \<noteq> CHR ''-''" using dec_digits_all[of "nat i"] is_digit_not[of c] by simp
  moreover have "pint (c # cs @ rest) = Some (c # cs, rest)" using facts(1)[of "nat i"] c by simp
  ultimately show ?thesis
    using facts c by (auto simp: pnumber_def show_int_def)
qed

lemma show_int_head: "\<exists>c cs. show_int i = c # cs \<and> (c = CHR ''-'' \<or> is_digit c)"
proof -
  obtain c cs where "dec_digits (nat i) = c # cs" using dec_digits_head by blast
  moreover from this have "is_digit c" using dec_digits_all[of "nat i"] by simp
  ultimately show ?thesis by (simp add: show_int_def)
qed

lemma pval_show_int:
  assumes "ends_value rest"
  shows "pval (Suc n) (show_int i @ rest) = Some (VNumber (show_int i), rest)"
proof -
  obtain c cs where c: "show_int i = c # cs" "c = CHR ''-'' \<or> is_digit c" using show_int_head by blast
  have no: "c \<noteq> CHR ''{''" "c \<noteq> CHR ''[''" "c \<noteq> CHR 0x22" "c \<noteq> CHR ''t''" "c \<noteq> CHR ''f''" "c \<noteq> CHR ''n''"
    using c(2) is_digit_not[of c] by auto
  have "\<not> is_ws CHR ''-''" by (simp add: is_ws_def)
  then have "\<not> is_ws c" using c(2) is_digit_not[of c] by blast
  then have "skip_ws (show_int i @ rest) = c # cs @ rest" using c(1) by (simp add: skip_ws_stop)
  moreover have "pnumber (c # cs @ rest) = Some (c # cs, rest)" using pnumber_show_int[OF assms, of i] c(1) by simp
  ultimately show ?thesis
    unfolding pval.simps(2) by (simp only: list.case no if_False option.map prod.case c(1))
qed

subsection \<open>Strings, arrays and objects\<close>

text \<open>Enough fuel parses \<open>s\<close> as \<open>v\<close> and leaves \<open>rest\<close>.\<close>

definition parses :: "(nat \<Rightarrow> bytes \<Rightarrow> ('a \<times> bytes) option) \<Rightarrow> bytes \<Rightarrow> 'a \<Rightarrow> bytes \<Rightarrow> bool" where
  "parses p s v rest \<longleftrightarrow> (\<exists>n0. \<forall>n\<ge>n0. p n (s @ rest) = Some (v, rest))"

lemma parsesI: "(\<And>n. n0 \<le> n \<Longrightarrow> p n (s @ rest) = Some (v, rest)) \<Longrightarrow> parses p s v rest"
  unfolding parses_def by blast

lemma parses_value:
  assumes "parses pval s v rest"
  shows "parse_value (s @ rest) = Some (v, rest)"
proof -
  obtain n0 where n0: "\<forall>n\<ge>n0. pval n (s @ rest) = Some (v, rest)" using assms unfolding parses_def by blast
  have "pval (max n0 (2 * length (s @ rest) + 2)) (s @ rest) = parse_value (s @ rest)"
    by (rule parse_value_fuel) simp
  then show ?thesis using n0 by simp
qed

lemma Suc_leE: "Suc n0 \<le> n \<Longrightarrow> (\<And>m. n = Suc m \<Longrightarrow> n0 \<le> m \<Longrightarrow> thesis) \<Longrightarrow> thesis"
  by (cases n) auto

lemma json_head: "\<exists>c cs. json_encode j = c # cs \<and> \<not> is_ws c \<and> c \<noteq> CHR '']'' \<and> c \<noteq> CHR ''}''"
proof (cases j)
  case (JInt i)
  obtain c cs where c: "show_int i = c # cs" "c = CHR ''-'' \<or> is_digit c" using show_int_head by blast
  have "\<not> is_ws CHR ''-''" "\<not> is_digit CHR '']''" "\<not> is_digit CHR ''}''"
    by (simp_all add: is_ws_def is_digit_def byte_in_def)
  then have "\<not> is_ws c \<and> c \<noteq> CHR '']'' \<and> c \<noteq> CHR ''}''"
    using c(2) is_digit_not[of c] by auto
  then show ?thesis using JInt c(1) by simp
qed (auto simp: is_ws_def quote_def)

lemma pval_string: "pval (Suc n) (quote s @ rest) = Some (VString (coerce_utf8 s), rest)"
  using pstring_esc_coerce[of s rest] by (simp add: quote_def pval.simps skip_ws_stop is_ws_def)

lemma parses_elems:
  assumes "xs \<noteq> []" "\<And>x rest. x \<in> set xs \<Longrightarrow> ends_value rest \<Longrightarrow> parses pval (json_encode x) (decoded x) rest"
  shows "parses pelems (commas (map json_encode xs) @ '']'') (map decoded xs) rest"
  using assms
proof (induction xs)
  case (Cons x xs)
  show ?case
  proof (cases xs)
    case Nil
    have ends: "ends_value (CHR '']'' # rest)" by (simp add: is_digit_def byte_in_def)
    obtain n0 where "\<forall>n\<ge>n0. pval n (json_encode x @ CHR '']'' # rest) = Some (decoded x, CHR '']'' # rest)"
      using Cons.prems(2)[OF _ ends, of x] unfolding parses_def by auto
    then show ?thesis
      using Nil by (intro parsesI[of "Suc n0"]) (auto elim!: Suc_leE simp: pelems.simps(2) skip_ws_stop is_ws_def)
  next
    case (Cons y ys)
    let ?tail = "commas (map json_encode xs) @ CHR '']'' # rest"
    have ends: "ends_value (CHR '','' # ?tail)" by (simp add: is_digit_def byte_in_def)
    obtain n0 where n0: "\<forall>n\<ge>n0. pval n (json_encode x @ CHR '','' # ?tail) = Some (decoded x, CHR '','' # ?tail)"
      using Cons.prems(2)[OF _ ends, of x] unfolding parses_def by auto
    have "parses pelems (commas (map json_encode xs) @ '']'') (map decoded xs) rest"
      using Cons Cons.prems(2) by (intro Cons.IH) auto
    then obtain n1 where n1: "\<forall>n\<ge>n1. pelems n ?tail = Some (map decoded xs, rest)"
      unfolding parses_def by auto
    have enc: "commas (map json_encode (x # xs)) = json_encode x @ CHR '','' # commas (map json_encode xs)"
      using Cons by simp
    show ?thesis
      unfolding enc
      using n0 n1 by (intro parsesI[of "Suc (max n0 n1)"])
        (auto elim!: Suc_leE simp: pelems.simps(2) skip_ws_stop is_ws_def)
  qed
qed simp

definition member_text :: "gostring \<times> json \<Rightarrow> bytes" where
  "member_text m = quote (fst m) @ CHR '':'' # json_encode (snd m)"

lemma pmembers_one:
  assumes "\<forall>n\<ge>n0. pval n (json_encode v @ d # rest) = Some (decoded v, d # rest)" "n0 \<le> n"
    and "d = CHR ''}'' \<or> d = CHR '',''"
  shows "pmembers (Suc n) (member_text (k, v) @ d # rest) =
    (if d = CHR ''}'' then Some ([(coerce_utf8 k, decoded v)], rest)
     else map_option (\<lambda>(ms, r). ((coerce_utf8 k, decoded v) # ms, r)) (pmembers n rest))"
  using assms pstring_esc_coerce[of k "CHR '':'' # json_encode v @ d # rest"]
  by (auto simp: pmembers.simps(2) member_text_def quote_def skip_ws_stop is_ws_def)

lemma parses_members:
  assumes "ms \<noteq> []" "\<And>k v rest. (k, v) \<in> set ms \<Longrightarrow> ends_value rest \<Longrightarrow> parses pval (json_encode v) (decoded v) rest"
  shows "parses pmembers (commas (map member_text ms) @ ''}'') (map (\<lambda>(k, v). (coerce_utf8 k, decoded v)) ms) rest"
  using assms
proof (induction ms)
  case (Cons m ms)
  obtain k v where m: "m = (k, v)" by (cases m)
  show ?case
  proof (cases ms)
    case Nil
    have ends: "ends_value (CHR ''}'' # rest)" by (simp add: is_digit_def byte_in_def)
    obtain n0 where "\<forall>n\<ge>n0. pval n (json_encode v @ CHR ''}'' # rest) = Some (decoded v, CHR ''}'' # rest)"
      using Cons.prems(2)[OF _ ends, of k v] m unfolding parses_def by auto
    note one = pmembers_one[OF this, where k = k]
    show ?thesis
      using Nil m one by (intro parsesI[of "Suc n0"]) (auto elim!: Suc_leE)
  next
    case (Cons m' ms')
    let ?tail = "commas (map member_text ms) @ CHR ''}'' # rest"
    have ends: "ends_value (CHR '','' # ?tail)" by (simp add: is_digit_def byte_in_def)
    obtain n0 where "\<forall>n\<ge>n0. pval n (json_encode v @ CHR '','' # ?tail) = Some (decoded v, CHR '','' # ?tail)"
      using Cons.prems(2)[OF _ ends, of k v] m unfolding parses_def by auto
    note one = pmembers_one[OF this, where k = k]
    have "parses pmembers (commas (map member_text ms) @ ''}'') (map (\<lambda>(k, v). (coerce_utf8 k, decoded v)) ms) rest"
      using Cons Cons.prems(2) by (intro Cons.IH) auto
    then obtain n1 where n1: "\<forall>n\<ge>n1. pmembers n ?tail = Some (map (\<lambda>(k, v). (coerce_utf8 k, decoded v)) ms, rest)"
      unfolding parses_def by auto
    have enc: "commas (map member_text (m # ms)) = member_text (k, v) @ CHR '','' # commas (map member_text ms)"
      using Cons m by simp
    show ?thesis
      unfolding enc
      using one n1 m by (intro parsesI[of "Suc (max n0 n1)"]) (auto elim!: Suc_leE)
  qed
qed simp

lemma encode_obj: "json_encode (JObj ms) = CHR ''{'' # commas (map member_text ms) @ ''}''"
  by (simp add: member_text_def[abs_def] case_prod_beta')

theorem parses_json: "(\<And>i. j = JInt i \<Longrightarrow> ends_value rest) \<Longrightarrow> parses pval (json_encode j) (decoded j) rest"
proof (induction j arbitrary: rest)
  case (JInt i)
  then show ?case
    using pval_show_int by (intro parsesI[of 1]) (auto elim!: Suc_leE simp: One_nat_def)
next
  case (JStr s)
  then show ?case
    using pval_string by (intro parsesI[of 1]) (auto elim!: Suc_leE simp: One_nat_def)
next
  case (JArr xs)
  show ?case
  proof (cases xs)
    case Nil
    show ?thesis
      unfolding Nil by (intro parsesI[of 1]) (auto elim!: Suc_leE simp: One_nat_def pval.simps(2) skip_ws_stop is_ws_def)
  next
    case (Cons x ys)
    obtain n0 where n0: "\<forall>n\<ge>n0. pelems n ((commas (map json_encode xs) @ '']'') @ rest) = Some (map decoded xs, rest)"
      using parses_elems[of xs rest] JArr.IH Cons unfolding parses_def by blast
    obtain c cs where c: "json_encode x = c # cs" "\<not> is_ws c" "c \<noteq> CHR '']''" using json_head by blast
    obtain ds where ds: "(commas (map json_encode xs) @ '']'') @ rest = c # ds"
      using Cons c(1) by (cases ys) auto
    have "pval (Suc n) (CHR ''['' # c # ds) = map_option (\<lambda>(vs, r). (VArray vs, r)) (pelems n (c # ds))" for n
      using c(2,3) by (simp add: pval.simps(2) skip_ws_stop is_ws_def[of "CHR ''[''"])
    then show ?thesis
      using n0 ds by (intro parsesI[of "Suc n0"]) (auto elim!: Suc_leE)
  qed
next
  case (JObj ms)
  show ?case
  proof (cases ms)
    case Nil
    show ?thesis
      unfolding Nil by (intro parsesI[of 1]) (auto elim!: Suc_leE simp: One_nat_def pval.simps(2) skip_ws_stop is_ws_def)
  next
    case (Cons m ms')
    have "parses pmembers (commas (map member_text ms) @ ''}'') (map (\<lambda>(k, v). (coerce_utf8 k, decoded v)) ms) rest"
      by (rule parses_members) (use Cons JObj.IH in \<open>auto\<close>)
    then obtain n0 where n0: "\<forall>n\<ge>n0. pmembers n ((commas (map member_text ms) @ ''}'') @ rest) =
        Some (map (\<lambda>(k, v). (coerce_utf8 k, decoded v)) ms, rest)"
      unfolding parses_def by blast
    obtain ds where ds: "(commas (map member_text ms) @ ''}'') @ rest = CHR 0x22 # ds"
      using Cons by (cases ms') (auto simp: member_text_def quote_def)
    have "pval (Suc n) (CHR ''{'' # CHR 0x22 # ds) = map_option (\<lambda>(vs, r). (VObject vs, r)) (pmembers n (CHR 0x22 # ds))" for n
      by (simp add: pval.simps(2) skip_ws_stop is_ws_def)
    then show ?thesis
      unfolding encode_obj using n0 ds by (intro parsesI[of "Suc n0"]) (auto elim!: Suc_leE)
  qed
qed (auto intro!: parsesI[of 1] elim!: Suc_leE simp: One_nat_def pval.simps(2) skip_ws_stop is_ws_def pliteral_def)

text \<open>A whole body: one value and the newline of \<open>Encode\<close>.\<close>

corollary parse_Encode: "parse_value (Encode j) = Some (decoded j, [CHR 0x0A])"
  unfolding Encode_def by (rule parses_value[OF parses_json]) (simp add: is_digit_def byte_in_def)

text \<open>Objects of strings, which are most of the bodies.\<close>

definition str_obj :: "(gostring \<times> gostring) list \<Rightarrow> json" where
  "str_obj kvs = JObj (map (\<lambda>(k, v). (k, JStr v)) kvs)"

lemma parse_str_obj:
  assumes "\<And>k v. (k, v) \<in> set kvs \<Longrightarrow> valid_utf8 k \<and> valid_utf8 v"
  shows "parse_value (json_encode (str_obj kvs) @ rest) =
    Some (VObject (map (\<lambda>(k, v). (k, VString v)) kvs), rest)"
proof -
  have "decoded (str_obj kvs) = VObject (map (\<lambda>(k, v). (k, VString v)) kvs)"
    using assms by (auto simp: str_obj_def coerce_valid)
  then show ?thesis
    using parses_value[OF parses_json, of "str_obj kvs" rest] by (simp add: str_obj_def)
qed

end
