(* ===== verification/MediaMTXHandler.thy ===== *)
theory MediaMTXHandler
  imports StreamsHttp GoJsonValues
begin

section \<open>The MediaMTX webhooks (mediamtx_handler.go)\<close>

text \<open>
  The external-auth webhook and the unpublish hook: decoding their body, reading the stream key from
  the password field or the last path segment, and resolving a path to a channel.  Each handler is
  given whole and as the sequence of critical sections it runs, which \<open>StreamsConcurrent\<close> interleaves.
\<close>

subsection \<open>Decoding the body\<close>

record authWebhookRequest =
  wr_Action :: gostring
  wr_Path :: gostring
  wr_Password :: gostring

definition empty_webhook :: authWebhookRequest where
  "empty_webhook = \<lparr>wr_Action = [], wr_Path = [], wr_Password = []\<rparr>"

definition webhook_fields :: "gostring list" where
  "webhook_fields = [''action'', ''path'', ''password'']"

definition set_webhook_field :: "gostring \<Rightarrow> gostring \<Rightarrow> authWebhookRequest \<Rightarrow> authWebhookRequest" where
  "set_webhook_field f v req =
     (if f = ''action'' then req\<lparr>wr_Action := v\<rparr>
      else if f = ''path'' then req\<lparr>wr_Path := v\<rparr>
      else if f = ''password'' then req\<lparr>wr_Password := v\<rparr>
      else req)"

text \<open>
  Members of an object are stored in order: a later one overwrites an earlier one, \<open>null\<close> leaves
  the field alone, a value of another type is remembered as the error while decoding goes on, and a
  key that names no field is skipped.  The flag says whether such an error occurred.
\<close>

fun store_members :: "(bytes \<times> jvalue) list \<Rightarrow> authWebhookRequest \<Rightarrow> bool \<times> authWebhookRequest" where
  "store_members [] req = (False, req)"
| "store_members ((k, v) # ms) req =
     (case match_field webhook_fields k of
        None \<Rightarrow> store_members ms req
      | Some f \<Rightarrow>
          (case v of
             VString x \<Rightarrow> store_members ms (set_webhook_field f x req)
           | VNull \<Rightarrow> store_members ms req
           | _ \<Rightarrow> (let (_, req') = store_members ms req in (True, req'))))"

definition max_body :: nat where "max_body = 4096"

text \<open>
  \<open>json.NewDecoder(http.MaxBytesReader(w, r.Body, 4096)).Decode(&req)\<close>: the first value among the
  first 4096 bytes; a longer body only matters if the value is not complete by then (a top-level
  \<open>null\<close> is complete only once a byte follows it).
\<close>

definition decodeWebhook :: "bytes \<Rightarrow> decode_error + authWebhookRequest" where
  "decodeWebhook body =
     (case parse_value (take max_body body) of
        None \<Rightarrow> Inl BadInput
      | Some (v, rest) \<Rightarrow>
          (case v of
             VObject ms \<Rightarrow>
               (let (bad, req) = store_members ms empty_webhook
                in if bad then Inl BadType else Inr req)
           | VNull \<Rightarrow>
               if rest = [] \<and> max_body < length body then Inl BadInput else Inr empty_webhook
           | _ \<Rightarrow> Inl BadType))"

subsection \<open>Paths and keys\<close>

definition lastPathSegment :: "gostring \<Rightarrow> gostring" where
  "lastPathSegment path0 =
     (let path = Trim path0 ''/''
      in case LastIndex path CHR ''/'' of
           Some i \<Rightarrow> drop (i + 1) path
         | None \<Rightarrow> path)"

text \<open>The key the auth webhook looks up: the password, or else the last path segment.\<close>

definition presentedKey :: "authWebhookRequest \<Rightarrow> gostring" where
  "presentedKey req =
     (if wr_Password req = [] then lastPathSegment (wr_Path req) else wr_Password req)"

definition resolveChannelFromPath :: "store \<Rightarrow> gostring \<Rightarrow> gostring option" where
  "resolveChannelFromPath s path =
     (let segment = lastPathSegment path
      in case FindByKey s segment of
           Some slug \<Rightarrow> Some slug
         | None \<Rightarrow>
             (case Get s segment of
                Some ch \<Rightarrow> Some (ch_Slug ch)
              | None \<Rightarrow> None))"

subsection \<open>Handlers\<close>

definition newMediaMTXAuthHandler :: handler where
  "newMediaMTXAuthHandler r s =
     (case decodeWebhook (rq_body r) of
        Inl err \<Rightarrow> (writeError StatusBadRequest (DecodeError err), s)
      | Inr req \<Rightarrow>
          if wr_Action req \<noteq> ''publish'' then (writeHeader StatusOK, s)
          else case FindByKey s (presentedKey req) of
            None \<Rightarrow> (writeHeader StatusUnauthorized, s)
          | Some slug \<Rightarrow> (writeHeader StatusOK, snd (SetLive slug True s)))"

definition newMediaMTXUnpublishHandler :: handler where
  "newMediaMTXUnpublishHandler r s =
     (case decodeWebhook (rq_body r) of
        Inl err \<Rightarrow> (writeError StatusBadRequest (DecodeError err), s)
      | Inr req \<Rightarrow>
          (case resolveChannelFromPath s (wr_Path req) of
             None \<Rightarrow> (writeHeader StatusOK, s)
           | Some slug \<Rightarrow> (writeHeader StatusOK, snd (SetLive slug False s))))"

subsection \<open>Path segments\<close>

lemma lastPathSegment_no_slash: "CHR ''/'' \<notin> set (lastPathSegment p)"
proof (cases "LastIndex (Trim p ''/'') CHR ''/''")
  case (Some i)
  then show ?thesis
    using LastIndex_SomeD[OF Some] by (simp add: lastPathSegment_def)
qed (simp add: lastPathSegment_def)

lemma lastPathSegment_append:
  assumes seg: "seg \<noteq> []" "CHR ''/'' \<notin> set seg" and sl: "set sl \<subseteq> {CHR ''/''}"
  shows "lastPathSegment (p @ CHR ''/'' # seg @ sl) = seg"
proof -
  have lst: "last seg \<noteq> CHR ''/''" "hd seg \<noteq> CHR ''/''"
    using seg by (auto dest: last_in_set hd_in_set)
  show ?thesis
  proof (cases "set p \<subseteq> {CHR ''/''}")
    case True
    have "TrimLeft (p @ CHR ''/'' # seg @ sl) ''/'' = TrimLeft ((p @ [CHR ''/'']) @ (seg @ sl)) ''/''"
      by simp
    also have "\<dots> = TrimLeft (seg @ sl) ''/''"
      by (rule TrimLeft_append) (use True in auto)
    also have "\<dots> = seg @ sl"
      by (rule TrimLeft_id) (use seg lst in auto)
    finally have "Trim (p @ CHR ''/'' # seg @ sl) ''/'' = TrimRight (seg @ sl) ''/''"
      by (simp add: Trim_def)
    also have "\<dots> = TrimRight seg ''/''"
      by (rule TrimRight_append) (use sl in auto)
    also have "\<dots> = seg"
      by (rule TrimRight_id) (use lst in simp)
    finally show ?thesis
      using seg by (simp add: lastPathSegment_def)
  next
    case False
    define q where "q = dropWhile (\<lambda>c. c \<in> set ''/'') p"
    have "\<exists>x\<in>set p. \<not> (x \<in> set ''/'')" using False by auto
    then have "TrimLeft (p @ CHR ''/'' # seg @ sl) ''/'' = (q @ CHR ''/'' # seg) @ sl"
      unfolding TrimLeft_def q_def by (auto simp: dropWhile_append1)
    then have "Trim (p @ CHR ''/'' # seg @ sl) ''/'' = TrimRight (q @ CHR ''/'' # seg) ''/''"
      unfolding Trim_def by (simp only:, intro TrimRight_append) (use sl in auto)
    also have "\<dots> = q @ CHR ''/'' # seg"
      by (rule TrimRight_id) (use lst seg in simp)
    finally show ?thesis
      using seg by (simp add: lastPathSegment_def)
  qed
qed

text \<open>A generated key survives both ways of presenting it.\<close>

lemma generated_key_no_slash: "CHR ''/'' \<notin> set (''sk_'' @ hex_EncodeToString raw)"
  using set_hex[of raw] by auto

lemma presentedKey_path:
  assumes "wr_Password req = []" "wr_Path req = p @ CHR ''/'' # key" "key \<noteq> []" "CHR ''/'' \<notin> set key"
  shows "presentedKey req = key"
  using assms lastPathSegment_append[of key "[]" p] by (simp add: presentedKey_def)

subsection \<open>What a body that encodes a request decodes to\<close>

definition webhook_json :: "authWebhookRequest \<Rightarrow> json" where
  "webhook_json req =
     str_obj [(''action'', wr_Action req), (''path'', wr_Path req), (''password'', wr_Password req)]"

lemma store_members_all:
  "store_members [(''action'', VString a), (''path'', VString p), (''password'', VString w)] req
     = (False, \<lparr>wr_Action = a, wr_Path = p, wr_Password = w, \<dots> = authWebhookRequest.more req\<rparr>)"
  by (cases req) (simp add: match_field_def webhook_fields_def set_webhook_field_def)

lemma decodeWebhook_encoded:
  assumes "valid_utf8 (wr_Action req)" "valid_utf8 (wr_Path req)" "valid_utf8 (wr_Password req)"
    and len: "length (json_encode (webhook_json req)) \<le> max_body"
  shows "decodeWebhook (json_encode (webhook_json req) @ rest) = Inr req"
proof -
  let ?j = "json_encode (webhook_json req)"
  let ?kvs = "[(''action'', wr_Action req), (''path'', wr_Path req), (''password'', wr_Password req)]"
  have "take max_body (?j @ rest) = ?j @ take (max_body - length ?j) rest"
    using len by simp
  moreover have "parse_value (?j @ take (max_body - length ?j) rest) =
      Some (VObject (map (\<lambda>(k, v). (k, VString v)) ?kvs), take (max_body - length ?j) rest)"
    unfolding webhook_json_def
    by (rule parse_str_obj) (use assms(1-3) in \<open>auto simp: byte_in_def rune_error_def\<close>)
  ultimately show ?thesis
    unfolding decodeWebhook_def
    by (simp only: option.case prod.case jvalue.case list.map store_members_all Let_def if_False sum.case)
       (simp add: empty_webhook_def)
qed

subsection \<open>Behaviour of the handlers\<close>

lemma auth_bad_body:
  "decodeWebhook (rq_body r) = Inl e \<Longrightarrow>
     newMediaMTXAuthHandler r s = (writeError StatusBadRequest (DecodeError e), s)"
  by (simp add: newMediaMTXAuthHandler_def)

lemma auth_read:
  "decodeWebhook (rq_body r) = Inr req \<Longrightarrow> wr_Action req \<noteq> ''publish'' \<Longrightarrow>
     newMediaMTXAuthHandler r s = (writeHeader StatusOK, s)"
  by (simp add: newMediaMTXAuthHandler_def)

lemma auth_publish:
  "decodeWebhook (rq_body r) = Inr req \<Longrightarrow> wr_Action req = ''publish'' \<Longrightarrow>
     newMediaMTXAuthHandler r s =
       (case FindByKey s (presentedKey req) of
          None \<Rightarrow> (writeHeader StatusUnauthorized, s)
        | Some slug \<Rightarrow> (writeHeader StatusOK, snd (SetLive slug True s)))"
  by (simp add: newMediaMTXAuthHandler_def)

lemma resolveChannelFromPath_known:
  assumes "index_sound s" "resolveChannelFromPath s path = Some slug"
  shows "\<exists>ch. Get s slug = Some ch"
  by (rule streams.key_or_slug_known[OF assms(1), where seg = "lastPathSegment path"])
     (use assms(2) in \<open>auto simp: resolveChannelFromPath_def Let_def split: option.splits\<close>)

lemma SetLive_sound: "index_sound s \<Longrightarrow> index_sound (snd (SetLive slug b s))"
  by (rule streams.set_live_inv)

text \<open>The webhooks change nothing but live flags.\<close>

lemma SetLive_inv: "store_inv s \<Longrightarrow> store_inv (snd (SetLive slug b s))"
  using store_inv_exec[of s "SetLiveOp slug b"] by (simp add: fresh_op_def case_prod_beta)

lemma auth_handler_inv: "store_inv s \<Longrightarrow> store_inv (snd (newMediaMTXAuthHandler r s))"
  by (auto simp: newMediaMTXAuthHandler_def intro: SetLive_inv split: sum.split option.split)

lemma unpublish_handler_inv: "store_inv s \<Longrightarrow> store_inv (snd (newMediaMTXUnpublishHandler r s))"
  by (auto simp: newMediaMTXUnpublishHandler_def intro: SetLive_inv split: sum.split option.split)

end
