(* ===== verification/GoTime.thy ===== *)
theory GoTime
  imports GoJson
begin

section \<open>Times in JSON\<close>

text \<open>
  A \<open>time.Time\<close> in UTC, as the services marshal it: RFC 3339 with the fraction of a second cut
  after its last nonzero digit, and an error for a year outside 0 to 9999.
\<close>

record utc_time =
  t_year :: int
  t_month :: nat
  t_day :: nat
  t_hour :: nat
  t_minute :: nat
  t_second :: nat
  t_nanos :: nat

text \<open>The zero \<open>time.Time\<close>.\<close>

definition zero_time :: utc_time where
  "zero_time = \<lparr>t_year = 1, t_month = 1, t_day = 1, t_hour = 0, t_minute = 0, t_second = 0, t_nanos = 0\<rparr>"

definition pad_digits :: "nat \<Rightarrow> nat \<Rightarrow> gostring" where
  "pad_digits w n = (let d = dec_digits n in replicate (w - length d) CHR ''0'' @ d)"

definition nano_fraction :: "nat \<Rightarrow> gostring" where
  "nano_fraction ns =
     (if ns = 0 then []
      else CHR ''.'' # rev (dropWhile (\<lambda>c. c = CHR ''0'') (rev (pad_digits 9 ns))))"

definition format_RFC3339Nano :: "utc_time \<Rightarrow> gostring" where
  "format_RFC3339Nano t =
     pad_digits 4 (nat (t_year t)) @ ''-'' @ pad_digits 2 (t_month t) @ ''-'' @ pad_digits 2 (t_day t)
       @ ''T'' @ pad_digits 2 (t_hour t) @ '':'' @ pad_digits 2 (t_minute t) @ '':''
       @ pad_digits 2 (t_second t) @ nano_fraction (t_nanos t) @ ''Z''"

text \<open>\<open>Time.MarshalJSON\<close>: \<open>None\<close> is its error.\<close>

definition time_json :: "utc_time \<Rightarrow> json option" where
  "time_json t = (if 0 \<le> t_year t \<and> t_year t \<le> 9999 then Some (JStr (format_RFC3339Nano t)) else None)"

end
