(* ===== verification/S3Client.thy ===== *)
theory S3Client
  imports Prelude
begin

section \<open>Options of the object storage client\<close>

text \<open>
  The options both services build an S3 client from (\<open>newS3Recordings\<close> in
  services/streams/s3client.go, \<open>newS3Client\<close> in services/vod-recorder/uploader.go).  The SDK behind
  the client is a parameter of the operations that use it.
\<close>

record aws_Credentials =
  AccessKeyID :: gostring
  SecretAccessKey :: gostring

record s3_Options =
  op_Region :: gostring
  op_BaseEndpoint :: gostring
  op_UsePathStyle :: bool
  op_Credentials :: "unit \<Rightarrow> gostring + aws_Credentials"

text \<open>\<open>staticCredentials\<close> of the streams service, whose \<open>Retrieve\<close> never fails; the unit stands for the context.\<close>

type_synonym staticCredentials = aws_Credentials

definition Retrieve :: "staticCredentials \<Rightarrow> unit \<Rightarrow> gostring + aws_Credentials" where
  "Retrieve c ctx = Inr c"

text \<open>
  The literal that both constructors pass to \<open>s3.New\<close>, each with the \<open>Retrieve\<close> of its own
  credentials type.
\<close>

definition s3_options ::
  "(aws_Credentials \<Rightarrow> unit \<Rightarrow> gostring + aws_Credentials) \<Rightarrow> gostring \<Rightarrow> bool \<Rightarrow> gostring \<Rightarrow> gostring \<Rightarrow> s3_Options" where
  "s3_options retrieve endpoint pathStyle accessKey secretKey =
     \<lparr>op_Region = ''us-east-1'', op_BaseEndpoint = endpoint, op_UsePathStyle = pathStyle,
      op_Credentials = retrieve \<lparr>AccessKeyID = accessKey, SecretAccessKey = secretKey\<rparr>\<rparr>"

end
