(* ===== verification/RecordingsHandler.thy ===== *)
theory RecordingsHandler
  imports StreamsHttp GoTime S3Client
begin

section \<open>VOD listing (s3client.go, recordings_handler.go)\<close>

text \<open>
  The object-storage settings, the paginated listing of a channel's recordings, and the handler of
  \<open>GET /channels/{slug}/recordings\<close>.  The AWS SDK is a parameter: a paginator answers, for the i-th
  call, whether there are more pages and what the next page is, and a presigner returns a URL or an
  error.  A listing whose paginator never ends does not return, so it is an option.
\<close>

subsection \<open>Configuration\<close>

record s3Config =
  s3_Endpoint :: gostring
  s3_Bucket :: gostring
  s3_AccessKey :: gostring
  s3_SecretKey :: gostring
  s3_UsePathStyle :: bool

text \<open>\<open>None\<close> is the \<open>ok = false\<close> of the code.\<close>

definition loadS3Config :: "(gostring \<Rightarrow> gostring) \<Rightarrow> s3Config option" where
  "loadS3Config getenv =
     (let bucket = getenv ''S3_BUCKET'' in
      if bucket = [] then None
      else
        let endpoint = getenv ''S3_ENDPOINT'';
            accessKey = getenv ''S3_ACCESS_KEY'';
            secretKey = getenv ''S3_SECRET_KEY''
        in if endpoint = [] \<or> accessKey = [] \<or> secretKey = [] then None
           else Some \<lparr>s3_Endpoint = endpoint, s3_Bucket = bucket, s3_AccessKey = accessKey,
                      s3_SecretKey = secretKey,
                      s3_UsePathStyle = (getenv ''S3_USE_PATH_STYLE'' \<noteq> ''false'')\<rparr>)"

subsection \<open>Listing\<close>

record RecordingObject =
  ro_Key :: gostring
  ro_SizeBytes :: int
  ro_LastModified :: utc_time

text \<open>An object of a listing page; the SDK's fields are pointers that may be nil.\<close>

record s3_object =
  obj_Key :: "gostring option"
  obj_Size :: "int option"
  obj_LastModified :: "utc_time option"

record paginator =
  pg_HasMorePages :: "nat \<Rightarrow> bool"
  pg_NextPage :: "nat \<Rightarrow> gostring + s3_object list"

text \<open>\<open>aws.ToString\<close>, \<open>aws.ToInt64\<close> and \<open>aws.ToTime\<close> read nil as the zero value.\<close>

definition to_recording :: "s3_object \<Rightarrow> RecordingObject" where
  "to_recording obj =
     \<lparr>ro_Key = case_option [] (\<lambda>x. x) (obj_Key obj),
      ro_SizeBytes = case_option 0 (\<lambda>x. x) (obj_Size obj),
      ro_LastModified = case_option zero_time (\<lambda>x. x) (obj_LastModified obj)\<rparr>"

definition listPrefix :: "gostring \<Rightarrow> gostring" where
  "listPrefix slug = path_Join [''recordings'', slug] @ ''/''"

text \<open>The loop over pages: \<open>i\<close> pages have been read, \<open>acc\<close> holds their objects.\<close>

partial_function (option) list_pages ::
  "paginator \<Rightarrow> nat \<Rightarrow> RecordingObject list \<Rightarrow> (gostring + RecordingObject list) option" where
  "list_pages pg i acc =
     (if pg_HasMorePages pg i then
        (case pg_NextPage pg i of
           Inl err \<Rightarrow> Some (Inl err)
         | Inr page \<Rightarrow> list_pages pg (Suc i) (acc @ map to_recording page))
      else Some (Inr acc))"

text \<open>
  The two SDK calls, given the client they are made with, and the struct \<open>s3Recordings\<close> (its presign
  client is a view of the same client).
\<close>

record s3_sdk =
  sdk_ListObjectsV2 :: "s3_Options \<Rightarrow> gostring \<Rightarrow> gostring \<Rightarrow> paginator"
  sdk_PresignGetObject :: "s3_Options \<Rightarrow> gostring \<Rightarrow> gostring \<Rightarrow> int \<Rightarrow> gostring + gostring"

record s3Recordings =
  sr_client :: s3_Options
  sr_bucket :: gostring

definition newS3Recordings :: "s3Config \<Rightarrow> s3Recordings" where
  "newS3Recordings cfg =
     \<lparr>sr_client = s3_options Retrieve (s3_Endpoint cfg) (s3_UsePathStyle cfg) (s3_AccessKey cfg) (s3_SecretKey cfg),
      sr_bucket = s3_Bucket cfg\<rparr>"

definition ListRecordings ::
  "s3_sdk \<Rightarrow> s3Recordings \<Rightarrow> gostring \<Rightarrow> (storage_error + RecordingObject list) option" where
  "ListRecordings sdk s slug =
     (let prefix = listPrefix slug
      in map_option
           (\<lambda>res. case res of Inl err \<Rightarrow> Inl (ListError (sr_bucket s) prefix err) | Inr objs \<Rightarrow> Inr objs)
           (list_pages (sdk_ListObjectsV2 sdk (sr_client s) (sr_bucket s) prefix) 0 []))"

definition PresignGet :: "s3_sdk \<Rightarrow> s3Recordings \<Rightarrow> gostring \<Rightarrow> int \<Rightarrow> storage_error + gostring" where
  "PresignGet sdk s key expires =
     (case sdk_PresignGetObject sdk (sr_client s) (sr_bucket s) key expires of
        Inl err \<Rightarrow> Inl (PresignError (sr_bucket s) key err)
      | Inr url \<Rightarrow> Inr url)"

subsection \<open>The handler\<close>

text \<open>The interface \<open>recordingsAPI\<close>, and \<open>s3Recordings\<close> as a value of it.\<close>

record recordingsAPI =
  api_ListRecordings :: "gostring \<Rightarrow> (storage_error + RecordingObject list) option"
  api_PresignGet :: "gostring \<Rightarrow> int \<Rightarrow> storage_error + gostring"

definition s3_api :: "s3_sdk \<Rightarrow> s3Recordings \<Rightarrow> recordingsAPI" where
  "s3_api sdk s = \<lparr>api_ListRecordings = ListRecordings sdk s, api_PresignGet = PresignGet sdk s\<rparr>"

record Recording =
  rec_Key :: gostring
  rec_URL :: gostring
  rec_RecordedAt :: utc_time
  rec_SizeBytes :: int

text \<open>Fifteen minutes, in nanoseconds.\<close>

definition recordingURLExpiry :: int where
  "recordingURLExpiry = 15 * 60 * 1000000000"

definition containsPathTraversal :: "gostring \<Rightarrow> bool" where
  "containsPathTraversal s = ContainsAny s [CHR ''/'', CHR 0x5C]"

fun presign_all :: "recordingsAPI \<Rightarrow> RecordingObject list \<Rightarrow> storage_error + Recording list" where
  "presign_all api [] = Inr []"
| "presign_all api (obj # objs) =
     (case api_PresignGet api (ro_Key obj) recordingURLExpiry of
        Inl err \<Rightarrow> Inl err
      | Inr url \<Rightarrow>
          (case presign_all api objs of
             Inl err \<Rightarrow> Inl err
           | Inr recs \<Rightarrow>
               Inr (\<lparr>rec_Key = ro_Key obj, rec_URL = url, rec_RecordedAt = ro_LastModified obj,
                     rec_SizeBytes = ro_SizeBytes obj\<rparr> # recs)))"

definition recording_json :: "Recording \<Rightarrow> json option" where
  "recording_json rec =
     map_option (\<lambda>t. JObj [(''key'', JStr (rec_Key rec)), (''url'', JStr (rec_URL rec)),
                           (''recordedAt'', t), (''sizeBytes'', JInt (rec_SizeBytes rec))])
       (time_json (rec_RecordedAt rec))"

text \<open>
  The response value; if a time has no JSON form the encoder fails after the header was written and
  the body stays empty.
\<close>

definition recordings_body :: "Recording list \<Rightarrow> resp_body" where
  "recordings_body recs =
     (let js = map recording_json recs
      in if None \<in> set js then NoBody else JsonBody (JObj [(''recordings'', JArr (map the js))]))"

definition newListRecordingsHandler :: "recordingsAPI option \<Rightarrow> request \<Rightarrow> response option" where
  "newListRecordingsHandler api0 r =
     (case api0 of
        None \<Rightarrow> Some (writeError StatusServiceUnavailable ErrRecordingsNotConfigured)
      | Some api \<Rightarrow>
          (let slug = rq_slug r in
           if containsPathTraversal slug then Some (writeError StatusBadRequest (InvalidSlug slug))
           else map_option
             (\<lambda>res. case res of
                Inl err \<Rightarrow> writeError StatusBadGateway (StorageError err)
              | Inr objects \<Rightarrow>
                  (case presign_all api objects of
                     Inl err \<Rightarrow> writeError StatusBadGateway (StorageError err)
                   | Inr recordings \<Rightarrow> writeBody StatusOK (recordings_body recordings)))
             (api_ListRecordings api slug)))"

subsection \<open>The page loop\<close>

text \<open>The paginator yields exactly these pages from the i-th call on, without an error.\<close>

fun yields_pages :: "paginator \<Rightarrow> nat \<Rightarrow> s3_object list list \<Rightarrow> bool" where
  "yields_pages pg i [] = (\<not> pg_HasMorePages pg i)"
| "yields_pages pg i (p # ps) =
     (pg_HasMorePages pg i \<and> pg_NextPage pg i = Inr p \<and> yields_pages pg (Suc i) ps)"

lemma list_pages_yields:
  "yields_pages pg i ps \<Longrightarrow> list_pages pg i acc = Some (Inr (acc @ map to_recording (concat ps)))"
  by (induction ps arbitrary: i acc) (auto simp: list_pages.simps[of pg])

text \<open>
  A paginator that ends, or fails, within \<open>n\<close> more calls makes the loop return: either the error of a
  call it made, or the objects of all pages in order.
\<close>

definition pages_result :: "paginator \<Rightarrow> nat \<Rightarrow> RecordingObject list \<Rightarrow> gostring + RecordingObject list \<Rightarrow> bool" where
  "pages_result pg i acc res =
     (case res of
        Inl err \<Rightarrow> \<exists>j\<ge>i. pg_HasMorePages pg j \<and> pg_NextPage pg j = Inl err
      | Inr objs \<Rightarrow> \<exists>ps. yields_pages pg i ps \<and> objs = acc @ map to_recording (concat ps))"

lemma pages_result_step:
  assumes "pg_HasMorePages pg i" "pg_NextPage pg i = Inr page"
    and "pages_result pg (Suc i) (acc @ map to_recording page) res"
  shows "pages_result pg i acc res"
proof (cases res)
  case (Inl err)
  then show ?thesis using assms(3) by (auto simp: pages_result_def intro: Suc_leD)
next
  case (Inr objs)
  with assms(3) obtain ps where "yields_pages pg (Suc i) ps"
      "objs = (acc @ map to_recording page) @ map to_recording (concat ps)"
    by (auto simp: pages_result_def)
  with assms(1,2) Inr show ?thesis
    by (auto simp: pages_result_def intro!: exI[of _ "page # ps"])
qed

lemma list_pages_last:
  "\<not> pg_HasMorePages pg i \<Longrightarrow> \<exists>res. list_pages pg i acc = Some res \<and> pages_result pg i acc res"
  "pg_HasMorePages pg i \<Longrightarrow> pg_NextPage pg i = Inl err \<Longrightarrow>
     \<exists>res. list_pages pg i acc = Some res \<and> pages_result pg i acc res"
  by (auto simp: list_pages.simps[of pg i] pages_result_def intro!: exI[of _ "[]"])

lemma list_pages_total:
  assumes "\<not> pg_HasMorePages pg (i + n) \<or> (\<exists>err. pg_NextPage pg (i + n) = Inl err)"
  shows "\<exists>res. list_pages pg i acc = Some res \<and> pages_result pg i acc res"
  using assms
proof (induction n arbitrary: i acc)
  case 0
  then show ?case using list_pages_last[of pg i] by fastforce
next
  case (Suc n)
  show ?case
  proof (cases "pg_HasMorePages pg i")
    case more: True
    show ?thesis
    proof (cases "pg_NextPage pg i")
      case (Inl err)
      with more show ?thesis by (rule list_pages_last(2))
    next
      case (Inr page)
      have "\<exists>res. list_pages pg (Suc i) (acc @ map to_recording page) = Some res \<and>
          pages_result pg (Suc i) (acc @ map to_recording page) res"
        using Suc.IH[of "Suc i"] Suc.prems by simp
      then show ?thesis
        using more Inr pages_result_step[OF more Inr] by (auto simp: list_pages.simps[of pg i])
    qed
  qed (rule list_pages_last(1))
qed

lemma presign_all_Inr:
  "presign_all api objs = Inr recs \<Longrightarrow>
     map rec_Key recs = map ro_Key objs \<and> map rec_SizeBytes recs = map ro_SizeBytes objs \<and>
     map rec_RecordedAt recs = map ro_LastModified objs \<and>
     map Inr (map rec_URL recs) = map (\<lambda>x. api_PresignGet api (ro_Key x) recordingURLExpiry) objs"
  by (induction objs arbitrary: recs) (auto split: sum.splits)

lemma presign_all_Inl_iff:
  "(\<exists>err. presign_all api objs = Inl err) \<longleftrightarrow>
     (\<exists>x\<in>set objs. \<exists>err. api_PresignGet api (ro_Key x) recordingURLExpiry = Inl err)"
  by (induction objs) (auto split: sum.splits)

end
