(* ===== verification/GoServeMux.thy ===== *)
theory GoServeMux
  imports GoStrings
begin

section \<open>http.ServeMux\<close>

text \<open>
  The request router of \<open>net/http\<close> as the services use it: patterns of literal segments, one-segment
  wildcards, \<open>{$}\<close> and the catch-all \<open>/\<close>, with or without a method.  The decision tree of the
  library is a search over the registered patterns that prefers a literal to a wildcard at each
  segment.  No service registers a longer pattern that ends in a slash, so the redirect to such a
  pattern never applies and is left out.
\<close>

datatype pattern_segment = Lit gostring | Wild | End | Multi

type_synonym 'h route = "gostring option \<times> pattern_segment list \<times> 'h"

subsection \<open>Paths\<close>

definition unhex :: "char \<Rightarrow> nat option" where
  "unhex c = map_of (zip ''0123456789abcdefABCDEF''
     [0, 1, 2, 3, 4, 5, 6, 7, 8, 9, 10, 11, 12, 13, 14, 15, 10, 11, 12, 13, 14, 15]) c"

fun unescape :: "gostring \<Rightarrow> gostring option" where
  "unescape [] = Some []"
| "unescape (c # cs) =
     (if c = CHR ''%'' then
        (case cs of
           h # l # rest \<Rightarrow>
             (case (unhex h, unhex l, unescape rest) of
                (Some a, Some b, Some t) \<Rightarrow> Some (char_of (16 * a + b) # t)
              | _ \<Rightarrow> None)
         | _ \<Rightarrow> None)
      else map_option (Cons c) (unescape cs))"

text \<open>\<open>pathUnescape\<close>: a malformed escape leaves the segment as it is.\<close>

definition pathUnescape :: "gostring \<Rightarrow> gostring" where
  "pathUnescape s = (case unescape s of Some t \<Rightarrow> t | None \<Rightarrow> s)"

definition cleanPath :: "gostring \<Rightarrow> gostring" where
  "cleanPath p0 =
     (if p0 = [] then ''/''
      else let p = (if hd p0 \<noteq> CHR ''/'' then CHR ''/'' # p0 else p0);
               np = path_Clean p
           in if last p = CHR ''/'' \<and> np \<noteq> ''/'' then np @ ''/'' else np)"

text \<open>
  The segments \<open>firstSegment\<close> splits off a path that starts with a slash, unescaped; a trailing slash
  is the segment \<open>/\<close> of its own.
\<close>

definition path_segments :: "gostring \<Rightarrow> gostring list" where
  "path_segments path =
     (if path = [] then []
      else let parts = Split (tl path) CHR ''/''
           in map pathUnescape (butlast parts)
                @ [if last parts = [] then ''/'' else pathUnescape (last parts)])"

subsection \<open>Matching\<close>

definition children :: "(pattern_segment \<Rightarrow> bool) \<Rightarrow> (pattern_segment list \<times> 'h) list
    \<Rightarrow> (pattern_segment list \<times> 'h) list" where
  "children P pats = List.map_filter
     (\<lambda>(ps, h). case ps of p # ps' \<Rightarrow> if P p then Some (ps', h) else None | [] \<Rightarrow> None) pats"

definition first_with :: "pattern_segment list \<Rightarrow> (pattern_segment list \<times> 'h) list \<Rightarrow> 'h option" where
  "first_with ps pats = map_of pats ps"

fun match_segments ::
  "(pattern_segment list \<times> 'h) list \<Rightarrow> gostring list \<Rightarrow> ('h \<times> gostring list) option" where
  "match_segments pats [] = map_option (\<lambda>h. (h, [])) (first_with [] pats)"
| "match_segments pats (seg # rest) =
     (case match_segments (children (\<lambda>p. p = Lit seg \<or> (p = End \<and> seg = ''/'')) pats) rest of
        Some m \<Rightarrow> Some m
      | None \<Rightarrow>
          (case (if seg \<noteq> ''/'' then match_segments (children (\<lambda>p. p = Wild) pats) rest else None) of
             Some (h, ms) \<Rightarrow> Some (h, seg # ms)
           | None \<Rightarrow> map_option (\<lambda>h. (h, [])) (first_with [Multi] pats)))"

definition with_method :: "gostring option \<Rightarrow> 'h route list \<Rightarrow> (pattern_segment list \<times> 'h) list" where
  "with_method m routes = map snd (filter (\<lambda>r. fst r = m) routes)"

text \<open>A pattern for the method itself, for \<open>GET\<close> if it is \<open>HEAD\<close>, then one for any method.\<close>

definition match_request :: "'h route list \<Rightarrow> gostring \<Rightarrow> gostring \<Rightarrow> ('h \<times> gostring list) option" where
  "match_request routes method path =
     (let segs = path_segments path
      in case match_segments (with_method (Some method) routes) segs of
           Some m \<Rightarrow> Some m
         | None \<Rightarrow>
             (case (if method = ''HEAD'' then match_segments (with_method (Some ''GET'') routes) segs else None) of
                Some m \<Rightarrow> Some m
              | None \<Rightarrow> match_segments (with_method None routes) segs))"

definition methods_at :: "'h route list \<Rightarrow> gostring \<Rightarrow> gostring list" where
  "methods_at routes path =
     filter (\<lambda>m. match_segments (with_method (Some m) routes) (path_segments path) \<noteq> None)
       (remdups (List.map_filter fst routes))"

text \<open>The \<open>Allow\<close> header of a 405: also the methods of the path with a slash added.\<close>

definition matchingMethods :: "'h route list \<Rightarrow> gostring \<Rightarrow> gostring list" where
  "matchingMethods routes path =
     (let ms = methods_at routes path @
               (if path = [] \<or> last path \<noteq> CHR ''/'' then methods_at routes (path @ ''/'') else [])
      in sort (remdups (ms @ (if ''GET'' \<in> set ms then [''HEAD''] else []))))"

subsection \<open>Requests\<close>

text \<open>
  What the mux reads of a request: the method, the escaped path of its URL (\<open>URL.EscapedPath\<close>).  The
  outcome is a handler with the values of its wildcards, or the mux's own answer.
\<close>

datatype 'h mux_result =
    Route 'h "gostring list"
  | MovedPermanently gostring
  | MethodNotAllowed "gostring list"
  | PageNotFound
  | BadRequestURI

text \<open>
  A redirect is to \<open>(&url.URL{Path: path}).String()\<close>, which escapes the path once more, its percent
  signs included.  (The query of the request, which is not modelled, is kept.)
\<close>

definition shouldEscape :: "char \<Rightarrow> bool" where
  "shouldEscape c \<longleftrightarrow> c \<notin> set (''ABCDEFGHIJKLMNOPQRSTUVWXYZabcdefghijklmnopqrstuvwxyz0123456789'' @ ''-_.~$&+,/:;=@'')"

fun escapePath :: "gostring \<Rightarrow> gostring" where
  "escapePath [] = []"
| "escapePath (c # cs) =
     (if shouldEscape c
      then [CHR ''%'', ''0123456789ABCDEF'' ! (of_char c div 16), ''0123456789ABCDEF'' ! (of_char c mod 16)]
      else [c]) @ escapePath cs"

definition mux_Handler :: "'h route list \<Rightarrow> gostring \<Rightarrow> gostring \<Rightarrow> 'h mux_result" where
  "mux_Handler routes method escapedPath =
     (if escapedPath = ''*'' then BadRequestURI
      else
        let path = (if method = ''CONNECT'' then escapedPath else cleanPath escapedPath)
        in if path \<noteq> escapedPath then MovedPermanently (escapePath path)
           else case match_request routes method path of
             Some (h, ms) \<Rightarrow> Route h ms
           | None \<Rightarrow>
               (let allowed = matchingMethods routes path
                in if allowed \<noteq> [] then MethodNotAllowed allowed else PageNotFound))"

subsection \<open>Facts\<close>

lemma match_nothing [simp]: "match_segments [] segs = None"
  by (induction segs) (auto simp: first_with_def children_def List.map_filter_simps)

lemma path_segments_plain:
  assumes "ws \<noteq> []" "\<And>w. w \<in> set ws \<Longrightarrow> CHR ''/'' \<notin> set w" "last ws \<noteq> []"
  shows "path_segments (CHR ''/'' # Join ws CHR ''/'') = map pathUnescape ws"
proof -
  have "Split (Join ws CHR ''/'') CHR ''/'' = ws"
    using assms(1,2) by (rule Split_Join)
  moreover have "map pathUnescape ws = map pathUnescape (butlast ws) @ [pathUnescape (last ws)]"
    using assms(1) by (metis append_butlast_last_id list.simps(8,9) map_append)
  ultimately show ?thesis
    using assms(3) by (simp add: path_segments_def)
qed

lemma cleanPath_plain:
  assumes "ws \<noteq> []" "\<And>w. w \<in> set ws \<Longrightarrow> plain_elem w"
  shows "cleanPath (CHR ''/'' # Join ws CHR ''/'') = CHR ''/'' # Join ws CHR ''/''"
proof -
  let ?j = "Join ws CHR ''/''"
  have sp: "Split ?j CHR ''/'' = ws"
    using assms by (intro Split_Join) (auto simp: plain_elem_def)
  have ne: "?j \<noteq> []"
    using assms(1) assms(2)[of "hd ws"] by (intro Join_eq_Nil) (auto simp: plain_elem_def)
  have "path_Clean (CHR ''/'' # ?j) = CHR ''/'' # ?j"
    using sp clean_elems_plain[of ws True "[]"] assms(2) by (simp add: path_Clean_def)
  moreover have "last ?j \<noteq> CHR ''/''"
  proof -
    have "last ws \<noteq> []" "CHR ''/'' \<notin> set (last ws)"
      using assms(1) assms(2)[of "last ws"] by (auto simp: plain_elem_def)
    moreover have "last (Join ws c) = last (last ws)" if "last ws \<noteq> []" "ws \<noteq> []" for c
      using that
    proof (induction ws c rule: Join.induct)
      case (3 w v vs sep)
      have "Join (v # vs) sep \<noteq> []"
        using 3(2) by (cases vs) auto
      with 3 show ?case by simp
    qed auto
    ultimately show ?thesis
      using assms(1) by (metis last_in_set)
  qed
  ultimately show ?thesis
    using ne by (simp add: cleanPath_def)
qed

lemma pathUnescape_plain: "CHR ''%'' \<notin> set s \<Longrightarrow> pathUnescape s = s"
proof -
  have "CHR ''%'' \<notin> set s \<Longrightarrow> unescape s = Some s" for s
    by (induction s rule: unescape.induct) auto
  then show "CHR ''%'' \<notin> set s \<Longrightarrow> pathUnescape s = s" by (simp add: pathUnescape_def)
qed

end
