(* ===== verification/StreamsMain.thy ===== *)
theory StreamsMain
  imports StreamKeyHandler MediaMTXHandler RecordingsHandler GoServeMux
begin

section \<open>The streams service as a whole (services/streams/main.go)\<close>

text \<open>
  The wiring of \<open>main\<close>: settings from the environment, the routes the \<open>register\<close> functions add, and
  one request served through the mux.  What a request draws from its surroundings, randomness and
  the order of a map range, is a record of inputs.  The lemmas say which handler the endpoints of a
  channel reach under every method, what no request without the API key can change, and that every
  request keeps the index sound.
\<close>

subsection \<open>Routes\<close>

record inputs =
  in_random :: "bytes option"
  in_order :: "gostring list"

type_synonym service_handler = "inputs \<Rightarrow> request \<Rightarrow> store \<Rightarrow> response option \<times> store"

type_synonym routes = "service_handler route list"

definition lift_handler :: "handler \<Rightarrow> service_handler" where
  "lift_handler h inp r s = (let (resp, s') = h r s in (Some resp, s'))"

definition HandleFunc :: "gostring \<Rightarrow> pattern_segment list \<Rightarrow> service_handler \<Rightarrow> routes \<Rightarrow> routes" where
  "HandleFunc method pattern h mux = mux @ [(Some method, pattern, h)]"

definition stream_key_pattern :: "pattern_segment list" where
  "stream_key_pattern = [Lit ''channels'', Wild, Lit ''stream-key'']"

definition registerStreamKeyRoutes :: "gostring \<Rightarrow> routes \<Rightarrow> routes" where
  "registerStreamKeyRoutes apiKey mux =
     HandleFunc ''DELETE'' stream_key_pattern
       (\<lambda>inp. lift_handler (requireAuth apiKey newRevokeStreamKeyHandler) inp)
     (HandleFunc ''PUT'' stream_key_pattern
       (\<lambda>inp. lift_handler (requireAuth apiKey (newRotateStreamKeyHandler (in_random inp))) inp)
     (HandleFunc ''GET'' stream_key_pattern
       (\<lambda>inp. lift_handler (requireAuth apiKey newGetStreamKeyHandler) inp)
     (HandleFunc ''POST'' stream_key_pattern
       (\<lambda>inp. lift_handler (requireAuth apiKey (newCreateStreamKeyHandler (in_random inp))) inp) mux)))"

definition registerMediaMTXRoutes :: "routes \<Rightarrow> routes" where
  "registerMediaMTXRoutes mux =
     HandleFunc ''POST'' [Lit ''mediamtx'', Lit ''unpublish''] (lift_handler newMediaMTXUnpublishHandler)
     (HandleFunc ''POST'' [Lit ''mediamtx'', Lit ''auth''] (lift_handler newMediaMTXAuthHandler) mux)"

definition registerChannelsRoutes :: "routes \<Rightarrow> routes" where
  "registerChannelsRoutes mux =
     HandleFunc ''GET'' [Lit ''channels'']
       (\<lambda>inp. lift_handler (newListChannelsHandler (in_order inp)) inp) mux"

definition registerRecordingsRoutes :: "recordingsAPI option \<Rightarrow> routes \<Rightarrow> routes" where
  "registerRecordingsRoutes api mux =
     HandleFunc ''GET'' [Lit ''channels'', Wild, Lit ''recordings'']
       (\<lambda>inp r s. (newListRecordingsHandler api r, s)) mux"

subsection \<open>main\<close>

definition getEnv :: "(gostring \<Rightarrow> gostring) \<Rightarrow> gostring \<Rightarrow> gostring \<Rightarrow> gostring" where
  "getEnv getenv key fallback = (let v = getenv key in if v \<noteq> [] then v else fallback)"

definition streams_routes :: "gostring \<Rightarrow> gostring \<Rightarrow> recordingsAPI option \<Rightarrow> routes" where
  "streams_routes version apiKey recordings =
     registerRecordingsRoutes recordings
     (registerChannelsRoutes
     (registerMediaMTXRoutes
     (registerStreamKeyRoutes apiKey
     (HandleFunc ''GET'' [Lit ''healthz''] (lift_handler newHealthHandler)
     (HandleFunc ''GET'' [End] (lift_handler (newRootHandler version)) [])))))"

record server =
  sv_addr :: gostring
  sv_routes :: routes
  sv_store :: store

definition streams_main :: "s3_sdk \<Rightarrow> (gostring \<Rightarrow> gostring) \<Rightarrow> server" where
  "streams_main sdk getenv =
     (let version = getEnv getenv ''VERSION'' ''dev'';
          addr = getEnv getenv ''ADDR'' '':8080'';
          apiKey = getEnv getenv ''API_KEY'' [];
          recordings = map_option (\<lambda>cfg. s3_api sdk (newS3Recordings cfg)) (loadS3Config getenv)
      in \<lparr>sv_addr = addr, sv_routes = streams_routes version apiKey recordings, sv_store = newStore\<rparr>)"

subsection \<open>Serving a request\<close>

record http_request =
  hr_method :: gostring
  hr_path :: gostring
  hr_authorization :: gostring
  hr_body :: bytes

datatype reply =
    HandlerReply response
  | HandlerStuck
  | RedirectReply gostring
  | MethodNotAllowedReply "gostring list"
  | NotFoundReply
  | BadRequestReply

definition serve :: "routes \<Rightarrow> inputs \<Rightarrow> http_request \<Rightarrow> store \<Rightarrow> reply \<times> store" where
  "serve mux inp hr s =
     (case mux_Handler mux (hr_method hr) (hr_path hr) of
        Route h ms \<Rightarrow>
          (let r = \<lparr>rq_authorization = hr_authorization hr,
                    rq_slug = (case ms of v # _ \<Rightarrow> v | [] \<Rightarrow> []), rq_body = hr_body hr\<rparr>;
               (resp, s') = h inp r s
           in (case resp of Some x \<Rightarrow> HandlerReply x | None \<Rightarrow> HandlerStuck, s'))
      | MovedPermanently path \<Rightarrow> (RedirectReply path, s)
      | MethodNotAllowed methods \<Rightarrow> (MethodNotAllowedReply methods, s)
      | PageNotFound \<Rightarrow> (NotFoundReply, s)
      | BadRequestURI \<Rightarrow> (BadRequestReply, s))"

fun serve_all :: "routes \<Rightarrow> (inputs \<times> http_request) list \<Rightarrow> store \<Rightarrow> reply list \<times> store" where
  "serve_all mux [] s = ([], s)"
| "serve_all mux ((inp, hr) # reqs) s =
     (let (a, s') = serve mux inp hr s; (as, s'') = serve_all mux reqs s' in (a # as, s''))"

lemmas register_defs = registerStreamKeyRoutes_def registerMediaMTXRoutes_def registerChannelsRoutes_def
  registerRecordingsRoutes_def HandleFunc_def

subsection \<open>What a request may reach\<close>

lemma children_sub: "(ps, h) \<in> set (children P pats) \<Longrightarrow> \<exists>p. (p # ps, h) \<in> set pats \<and> P p"
  by (auto simp: children_def List.map_filter_def split: list.splits if_splits)

lemma match_segments_registered:
  "match_segments pats segs = Some (h, ms) \<Longrightarrow> \<exists>ps. (ps, h) \<in> set pats"
proof (induction pats segs arbitrary: ms rule: match_segments.induct)
  case (1 pats)
  then show ?case by (auto simp: first_with_def dest: map_of_SomeD)
next
  case (2 pats seg rest)
  then show ?case
    by (auto simp: first_with_def dest: map_of_SomeD children_sub split: option.splits if_splits)
qed

lemma match_request_registered:
  assumes "match_request routes method path = Some (h, ms)"
  shows "\<exists>m ps. (m, ps, h) \<in> set routes"
proof -
  obtain m ps where "(ps, h) \<in> set (with_method m routes)"
    using assms by (auto simp: match_request_def Let_def dest!: match_segments_registered split: option.splits if_splits)
  then obtain m' where "(m', ps, h) \<in> set routes" by (auto simp: with_method_def)
  then show ?thesis by blast
qed

text \<open>A property of every registered handler is one of every request that is served.\<close>

lemma serve_registered:
  assumes "serve mux inp hr s = (a, s')"
    and each: "\<And>m ps h r. (m, ps, h) \<in> set mux \<Longrightarrow> rq_authorization (r :: request) = hr_authorization hr
           \<Longrightarrow> P (snd (h inp r s))"
    and "P s"
  shows "P s'"
proof (cases "mux_Handler mux (hr_method hr) (hr_path hr)")
  case (Route h ms)
  then obtain m ps where "(m, ps, h) \<in> set mux"
    by (auto simp: mux_Handler_def Let_def dest!: match_request_registered split: if_splits option.splits)
  moreover let ?r = "\<lparr>rq_authorization = hr_authorization hr,
      rq_slug = (case ms of v # _ \<Rightarrow> v | [] \<Rightarrow> []), rq_body = hr_body hr\<rparr>"
  have "s' = snd (h inp ?r s)"
    using assms(1) Route by (auto simp: serve_def Let_def split: prod.splits)
  ultimately show ?thesis
    using each[of m ps h ?r] by simp
qed (use assms in \<open>auto simp: serve_def\<close>)

lemma streams_handlers:
  assumes "(m, ps, h) \<in> set (streams_routes version apiKey recordings)"
  shows "h = lift_handler (newRootHandler version) \<or> h = lift_handler newHealthHandler \<or>
    h = (\<lambda>inp. lift_handler (requireAuth apiKey (newCreateStreamKeyHandler (in_random inp))) inp) \<or>
    h = (\<lambda>inp. lift_handler (requireAuth apiKey newGetStreamKeyHandler) inp) \<or>
    h = (\<lambda>inp. lift_handler (requireAuth apiKey (newRotateStreamKeyHandler (in_random inp))) inp) \<or>
    h = (\<lambda>inp. lift_handler (requireAuth apiKey newRevokeStreamKeyHandler) inp) \<or>
    h = lift_handler newMediaMTXAuthHandler \<or> h = lift_handler newMediaMTXUnpublishHandler \<or>
    h = (\<lambda>inp. lift_handler (newListChannelsHandler (in_order inp)) inp) \<or>
    h = (\<lambda>inp r s. (newListRecordingsHandler recordings r, s))"
  using assms unfolding streams_routes_def register_defs by auto

text \<open>The stream keys a store knows, live flags left out.\<close>

definition key_hashes :: "store \<Rightarrow> (gostring \<rightharpoonup> gostring) \<times> (gostring \<rightharpoonup> gostring)" where
  "key_hashes s = ((\<lambda>slug. map_option cr_keyHash (channels s slug)), byKeyHash s)"

lemma SetLive_key_hashes [simp]: "key_hashes (snd (SetLive slug b s)) = key_hashes s"
  by (auto simp: key_hashes_def SetLive_def fun_eq_iff split: option.split)

lemma snd_lift_handler: "snd (lift_handler h inp r s) = snd (h r s)"
  by (simp add: lift_handler_def split: prod.split)

lemma serve_unauthorized:
  assumes "serve (streams_routes version apiKey recordings) inp hr s = (a, s')"
    and "apiKey \<noteq> []" "hr_authorization hr \<noteq> bearer_prefix @ apiKey"
  shows "key_hashes s' = key_hashes s"
proof (rule serve_registered[OF assms(1)])
  fix m ps h and r :: request
  assume h: "(m, ps, h) \<in> set (streams_routes version apiKey recordings)"
    and r: "rq_authorization r = hr_authorization hr"
  have un: "\<not> authorized apiKey r"
    using assms(2,3) r by (simp add: authorized_def)
  show "key_hashes (snd (h inp r s)) = key_hashes s"
    using streams_handlers[OF h] un
    by (elim disjE) (auto simp: snd_lift_handler requireAuth_eq newRootHandler_def newHealthHandler_def
        newListChannelsHandler_def newMediaMTXAuthHandler_def newMediaMTXUnpublishHandler_def split: sum.split option.split)
qed simp

text \<open>Every request is at most one store operation as far as the representation is concerned.\<close>

lemma serve_sound:
  assumes "serve (streams_routes version apiKey recordings) inp hr s = (a, s')" "index_sound s"
  shows "index_sound s'"
proof (rule serve_registered[OF assms(1)])
  fix m ps h and r :: request
  assume "(m, ps, h) \<in> set (streams_routes version apiKey recordings)"
  then show "index_sound (snd (h inp r s))"
    using assms(2) index_sound_exec SetLive_sound
    by (elim streams_handlers[elim_format] disjE)
       (auto simp: snd_lift_handler requireAuth_eq newRootHandler_def newHealthHandler_def newListChannelsHandler_def
          get_handler_state create_handler_state rotate_handler_state revoke_handler_state
          newMediaMTXAuthHandler_def newMediaMTXUnpublishHandler_def
          simp del: exec_op.simps split: sum.split option.split)
qed (rule assms(2))

lemma serve_all_sound:
  "serve_all (streams_routes version apiKey recordings) reqs s = (as, s') \<Longrightarrow> index_sound s \<Longrightarrow> index_sound s'"
  by (induction reqs arbitrary: s as) (fastforce split: prod.splits dest: serve_sound)+

subsection \<open>The endpoints of a channel\<close>

definition with_slug :: "http_request \<Rightarrow> gostring \<Rightarrow> request" where
  "with_slug hr slug = \<lparr>rq_authorization = hr_authorization hr, rq_slug = slug, rq_body = hr_body hr\<rparr>"

text \<open>The path \<open>/channels/<enc>/<leaf>\<close>, \<open>enc\<close> the escaped slug.\<close>

definition channel_url :: "gostring \<Rightarrow> gostring \<Rightarrow> gostring" where
  "channel_url enc leaf = ''/channels/'' @ enc @ CHR ''/'' # leaf"

lemma channel_url_neq [simp]: "channel_url enc leaf \<noteq> []" "channel_url enc leaf \<noteq> ''*''"
  by (simp_all add: channel_url_def)

lemma channel_path:
  assumes "plain_elem enc" "plain_elem leaf" "CHR ''%'' \<notin> set leaf"
  shows "cleanPath (channel_url enc leaf) = channel_url enc leaf"
    and "path_segments (channel_url enc leaf) = [''channels'', pathUnescape enc, leaf]"
proof -
  let ?ws = "[''channels'', enc, leaf]"
  have ws: "channel_url enc leaf = CHR ''/'' # Join ?ws CHR ''/''"
    by (simp add: channel_url_def)
  have plain: "plain_elem w" if "w \<in> set ?ws" for w
    using that assms by (auto simp: plain_elem_def)
  show "cleanPath (channel_url enc leaf) = channel_url enc leaf"
    unfolding ws by (rule cleanPath_plain) (use plain in auto)
  show "path_segments (channel_url enc leaf) = [''channels'', pathUnescape enc, leaf]"
    unfolding ws using assms(2,3) plain
    by (subst path_segments_plain) (auto simp: pathUnescape_plain plain_elem_def)
qed

lemma channels_slash:
  assumes "plain_elem enc" "plain_elem leaf" "CHR ''%'' \<notin> set leaf"
  shows "path_segments ((channel_url enc leaf) @ ''/'') = [''channels'', pathUnescape enc, leaf, ''/'']"
proof -
  have "Split (Join [''channels'', enc, leaf, []] CHR ''/'') CHR ''/'' = [''channels'', enc, leaf, []]"
    by (rule Split_Join) (use assms in \<open>auto simp: plain_elem_def\<close>)
  then show ?thesis
    using assms(3) by (simp add: channel_url_def path_segments_def pathUnescape_plain)
qed

lemma with_method_streams:
  "with_method (Some ''GET'') (streams_routes v k rec) =
     [([End], lift_handler (newRootHandler v)), ([Lit ''healthz''], lift_handler newHealthHandler),
      (stream_key_pattern, \<lambda>inp. lift_handler (requireAuth k newGetStreamKeyHandler) inp),
      ([Lit ''channels''], \<lambda>inp. lift_handler (newListChannelsHandler (in_order inp)) inp),
      ([Lit ''channels'', Wild, Lit ''recordings''], \<lambda>inp r s. (newListRecordingsHandler rec r, s))]"
  "with_method (Some ''POST'') (streams_routes v k rec) =
     [(stream_key_pattern, \<lambda>inp. lift_handler (requireAuth k (newCreateStreamKeyHandler (in_random inp))) inp),
      ([Lit ''mediamtx'', Lit ''auth''], lift_handler newMediaMTXAuthHandler),
      ([Lit ''mediamtx'', Lit ''unpublish''], lift_handler newMediaMTXUnpublishHandler)]"
  "with_method (Some ''PUT'') (streams_routes v k rec) =
     [(stream_key_pattern, \<lambda>inp. lift_handler (requireAuth k (newRotateStreamKeyHandler (in_random inp))) inp)]"
  "with_method (Some ''DELETE'') (streams_routes v k rec) =
     [(stream_key_pattern, \<lambda>inp. lift_handler (requireAuth k newRevokeStreamKeyHandler) inp)]"
  by (simp_all add: streams_routes_def register_defs with_method_def)

lemma with_other_method:
  "m \<notin> {''GET'', ''POST'', ''PUT'', ''DELETE''} \<Longrightarrow> with_method (Some m) (streams_routes v k rec) = []"
  by (auto simp: streams_routes_def register_defs with_method_def)

lemmas match_eval = children_def List.map_filter_simps first_with_def stream_key_pattern_def

lemma stream_key_match:
  assumes "x \<noteq> ''/''"
  shows "match_segments (with_method (Some ''GET'') (streams_routes v k rec)) [''channels'', x, ''stream-key''] =
      Some (\<lambda>inp. lift_handler (requireAuth k newGetStreamKeyHandler) inp, [x])"
    "match_segments (with_method (Some ''POST'') (streams_routes v k rec)) [''channels'', x, ''stream-key''] =
      Some (\<lambda>inp. lift_handler (requireAuth k (newCreateStreamKeyHandler (in_random inp))) inp, [x])"
    "match_segments (with_method (Some ''PUT'') (streams_routes v k rec)) [''channels'', x, ''stream-key''] =
      Some (\<lambda>inp. lift_handler (requireAuth k (newRotateStreamKeyHandler (in_random inp))) inp, [x])"
    "match_segments (with_method (Some ''DELETE'') (streams_routes v k rec)) [''channels'', x, ''stream-key''] =
      Some (\<lambda>inp. lift_handler (requireAuth k newRevokeStreamKeyHandler) inp, [x])"
  using assms by (simp_all add: with_method_streams match_eval)

lemma recordings_match:
  assumes "x \<noteq> ''/''"
  shows "match_segments (with_method (Some ''GET'') (streams_routes v k rec)) [''channels'', x, ''recordings''] =
      Some (\<lambda>inp r s. (newListRecordingsHandler rec r, s), [x])"
  using assms by (simp_all add: with_method_streams match_eval)

lemma no_any_method: "with_method None (streams_routes v k rec) = []"
  by (simp add: streams_routes_def register_defs with_method_def)

text \<open>Without a catch-all, a path matches only patterns with as many segments.\<close>

lemma match_segments_length:
  "match_segments pats segs = Some m \<Longrightarrow> (\<And>ps h. (ps, h) \<in> set pats \<Longrightarrow> Multi \<notin> set ps) \<Longrightarrow>
     \<exists>ps h. (ps, h) \<in> set pats \<and> length ps = length segs"
proof (induction pats segs arbitrary: m rule: match_segments.induct)
  case (1 pats)
  then show ?case by (fastforce simp: first_with_def dest: map_of_SomeD)
next
  case (2 pats seg rest)
  let ?A = "children (\<lambda>p. p = Lit seg \<or> (p = End \<and> seg = ''/'')) pats"
  let ?B = "children (\<lambda>p. p = Wild) pats"
  have child: "\<exists>ps h. (ps, h) \<in> set pats \<and> length ps = length (seg # rest)"
    if "match_segments (children P pats) rest = Some m'"
      and IH: "\<And>m. match_segments (children P pats) rest = Some m \<Longrightarrow>
        (\<And>ps h. (ps, h) \<in> set (children P pats) \<Longrightarrow> Multi \<notin> set ps) \<Longrightarrow>
        \<exists>ps h. (ps, h) \<in> set (children P pats) \<and> length ps = length rest" for P m'
    using IH[OF that(1)] children_sub[of _ _ P pats] 2(4) by (metis length_Cons list.set_intros(2))
  have nm: "first_with [Multi] pats = None"
    using 2(4)[of "[Multi]"] by (cases "first_with [Multi] pats") (auto simp: first_with_def dest: map_of_SomeD)
  show ?case
  proof (cases "match_segments ?A rest")
    case (Some m')
    show ?thesis by (rule child[OF Some 2(1)])
  next
    case None
    then obtain m' where B: "seg \<noteq> ''/''" "match_segments ?B rest = Some m'"
      using 2(3) nm by (auto split: option.splits if_splits)
    show ?thesis by (rule child[OF B(2) 2(2)[OF None B(1)]])
  qed
qed

lemma streams_patterns:
  "(m, ps, h) \<in> set (streams_routes v k rec) \<Longrightarrow> Multi \<notin> set ps \<and> length ps \<le> 3"
  by (auto simp: streams_routes_def register_defs stream_key_pattern_def)

lemma four_match:
  assumes "3 < length segs"
  shows "match_segments (with_method m (streams_routes v k rec)) segs = None"
proof (rule ccontr)
  assume "match_segments (with_method m (streams_routes v k rec)) segs \<noteq> None"
  then obtain x where "match_segments (with_method m (streams_routes v k rec)) segs = Some x" by blast
  then show False
    using match_segments_length[of "with_method m (streams_routes v k rec)" segs x] streams_patterns[of _ _ _ v k rec] assms
    by (fastforce simp: with_method_def)
qed

lemma sorted_methods:
  "sort [''PUT'', ''DELETE'', ''POST'', ''GET'', ''HEAD''] = [''DELETE'', ''GET'', ''HEAD'', ''POST'', ''PUT'']"
  by simp

lemma route_found:
  assumes "plain_elem enc" "plain_elem leaf" "CHR ''%'' \<notin> set leaf"
    and "match_segments (with_method (Some m) (streams_routes v k rec)) [''channels'', pathUnescape enc, leaf]
      = Some (h, ms)"
  shows "mux_Handler (streams_routes v k rec) m (channel_url enc leaf) = Route h ms"
    and "m = ''GET'' \<Longrightarrow>
      mux_Handler (streams_routes v k rec) ''HEAD'' (channel_url enc leaf) = Route h ms"
  using assms(4) channel_path[OF assms(1-3)] with_other_method[of "''HEAD''" v k rec]
  by (simp_all add: mux_Handler_def match_request_def Let_def)

lemma methods_registered:
  "remdups (List.map_filter fst (streams_routes v k rec)) = [''PUT'', ''DELETE'', ''POST'', ''GET'']"
  by (simp add: streams_routes_def register_defs List.map_filter_simps)

lemma stream_key_methods:
  assumes "plain_elem enc" "pathUnescape enc \<noteq> ''/''"
  shows "matchingMethods (streams_routes v k rec) (channel_url enc ''stream-key'') =
    [''DELETE'', ''GET'', ''HEAD'', ''POST'', ''PUT'']"
proof -
  let ?p = "channel_url enc ''stream-key''"
  have leaf: "plain_elem ''stream-key''" "CHR ''%'' \<notin> set ''stream-key''"
    by (simp_all add: plain_elem_def)
  have "methods_at (streams_routes v k rec) ?p = [''PUT'', ''DELETE'', ''POST'', ''GET'']"
    using channel_path(2)[OF assms(1) leaf] stream_key_match[OF assms(2), of v k rec]
    unfolding methods_at_def methods_registered by simp
  moreover have "methods_at (streams_routes v k rec) (?p @ ''/'') = []"
    using channels_slash[OF assms(1) leaf] four_match[of "[''channels'', pathUnescape enc, ''stream-key'', ''/'']"]
    unfolding methods_at_def by simp
  moreover have "last ?p \<noteq> CHR ''/''" by (simp add: channel_url_def)
  ultimately show ?thesis
    using sorted_methods unfolding matchingMethods_def Let_def by simp
qed

lemma stream_key_other_method:
  assumes "plain_elem enc" "pathUnescape enc \<noteq> ''/''" "m \<notin> {''GET'', ''POST'', ''PUT'', ''DELETE'', ''HEAD''}"
  shows "mux_Handler (streams_routes v k rec) m (channel_url enc ''stream-key'') =
    MethodNotAllowed [''DELETE'', ''GET'', ''HEAD'', ''POST'', ''PUT'']"
proof -
  have "match_request (streams_routes v k rec) m (channel_url enc ''stream-key'') = None"
    using assms(3) with_other_method[of m v k rec] by (auto simp: match_request_def no_any_method)
  moreover have "cleanPath (channel_url enc ''stream-key'') = channel_url enc ''stream-key''"
    using channel_path(1)[OF assms(1), of "''stream-key''"] by (simp add: plain_elem_def)
  ultimately show ?thesis
    using stream_key_methods[OF assms(1,2), of v k rec] by (simp add: mux_Handler_def Let_def)
qed

definition run_handler :: "handler \<Rightarrow> request \<Rightarrow> store \<Rightarrow> reply \<times> store" where
  "run_handler h r s = (let (resp, s') = h r s in (HandlerReply resp, s'))"

lemma serve_lifted:
  "mux_Handler mux (hr_method hr) (hr_path hr) = Route h [slug] \<Longrightarrow> h inp = lift_handler g inp \<Longrightarrow>
     serve mux inp hr s = run_handler g (with_slug hr slug) s"
  by (simp add: serve_def run_handler_def with_slug_def lift_handler_def Let_def split: prod.split)

definition stream_key_handler :: "gostring \<Rightarrow> inputs \<Rightarrow> gostring \<Rightarrow> handler option" where
  "stream_key_handler apiKey inp m =
     map_option (requireAuth apiKey)
       (if m = ''POST'' then Some (newCreateStreamKeyHandler (in_random inp))
        else if m = ''GET'' \<or> m = ''HEAD'' then Some newGetStreamKeyHandler
        else if m = ''PUT'' then Some (newRotateStreamKeyHandler (in_random inp))
        else if m = ''DELETE'' then Some newRevokeStreamKeyHandler
        else None)"

lemma serve_stream_key:
  assumes path: "hr_path hr = channel_url enc ''stream-key''"
    and enc: "plain_elem enc" "pathUnescape enc \<noteq> ''/''"
  shows "serve (streams_routes v k rec) inp hr s =
    (case stream_key_handler k inp (hr_method hr) of
       Some h \<Rightarrow> run_handler h (with_slug hr (pathUnescape enc)) s
     | None \<Rightarrow> (MethodNotAllowedReply [''DELETE'', ''GET'', ''HEAD'', ''POST'', ''PUT''], s))"
proof -
  have leaf: "plain_elem ''stream-key''" "CHR ''%'' \<notin> set ''stream-key''"
    by (simp_all add: plain_elem_def)
  note found = route_found[OF enc(1) leaf]
  note keys = stream_key_match[OF enc(2), of v k rec]
  consider "hr_method hr = ''POST''" | "hr_method hr = ''GET''" | "hr_method hr = ''HEAD''" | "hr_method hr = ''PUT''"
    | "hr_method hr = ''DELETE''" | "hr_method hr \<notin> {''GET'', ''POST'', ''PUT'', ''DELETE'', ''HEAD''}"
    by auto
  then show ?thesis
  proof cases
    case 1
    then show ?thesis
      using serve_lifted[of "streams_routes v k rec" hr] found(1)[OF keys(2)] path by (simp add: stream_key_handler_def)
  next
    case 2
    then show ?thesis
      using serve_lifted[of "streams_routes v k rec" hr] found(1)[OF keys(1)] path by (simp add: stream_key_handler_def)
  next
    case 3
    then show ?thesis
      using serve_lifted[of "streams_routes v k rec" hr] found(2)[OF keys(1)] path by (simp add: stream_key_handler_def)
  next
    case 4
    then show ?thesis
      using serve_lifted[of "streams_routes v k rec" hr] found(1)[OF keys(3)] path by (simp add: stream_key_handler_def)
  next
    case 5
    then show ?thesis
      using serve_lifted[of "streams_routes v k rec" hr] found(1)[OF keys(4)] path by (simp add: stream_key_handler_def)
  next
    case 6
    then show ?thesis
      using stream_key_other_method[OF enc 6] path by (simp add: stream_key_handler_def serve_def)
  qed
qed

lemma serve_recordings:
  assumes path: "hr_path hr = channel_url enc ''recordings''" and m: "hr_method hr = ''GET''"
    and enc: "plain_elem enc" "pathUnescape enc \<noteq> ''/''"
  shows "serve (streams_routes v k rec) inp hr s =
    (case newListRecordingsHandler rec (with_slug hr (pathUnescape enc)) of
       Some resp \<Rightarrow> HandlerReply resp | None \<Rightarrow> HandlerStuck, s)"
proof -
  have leaf: "plain_elem ''recordings''" "CHR ''%'' \<notin> set ''recordings''"
    by (simp_all add: plain_elem_def)
  show ?thesis
    using route_found(1)[OF enc(1) leaf recordings_match[OF enc(2), of v k rec]] path m
    by (simp add: serve_def with_slug_def)
qed

end
