(* ===== verification/StreamsJourney.thy ===== *)
theory StreamsJourney
  imports StreamsMain
begin

section \<open>A stream from its key to its end (services/streams)\<close>

text \<open>
  The requests of one stream through the mux: the key is created, MediaMTX asks whether to let the
  publisher in, viewers list the channels, the publisher leaves, viewers list again.
\<close>

subsection \<open>The routes of the webhooks and of the listing\<close>

lemma hook_segments:
  "cleanPath ''/mediamtx/auth'' = ''/mediamtx/auth''" "path_segments ''/mediamtx/auth'' = [''mediamtx'', ''auth'']"
  "cleanPath ''/mediamtx/unpublish'' = ''/mediamtx/unpublish''"
  "path_segments ''/mediamtx/unpublish'' = [''mediamtx'', ''unpublish'']"
  "cleanPath ''/channels'' = ''/channels''" "path_segments ''/channels'' = [''channels'']"
  by (simp_all add: cleanPath_def path_Clean_def path_segments_def pathUnescape_plain)

lemma hook_routes:
  "mux_Handler (streams_routes v k rec) ''POST'' ''/mediamtx/auth'' = Route (lift_handler newMediaMTXAuthHandler) []"
  "mux_Handler (streams_routes v k rec) ''POST'' ''/mediamtx/unpublish'' = Route (lift_handler newMediaMTXUnpublishHandler) []"
  "mux_Handler (streams_routes v k rec) ''GET'' ''/channels'' =
     Route (\<lambda>inp. lift_handler (newListChannelsHandler (in_order inp)) inp) []"
  by (simp_all add: mux_Handler_def match_request_def hook_segments with_method_streams match_eval Let_def)

subsection \<open>Requests and their effects\<close>

definition create_request :: "gostring \<Rightarrow> gostring \<Rightarrow> http_request" where
  "create_request apiKey enc =
     \<lparr>hr_method = ''POST'', hr_path = channel_url enc ''stream-key'', hr_authorization = bearer_prefix @ apiKey, hr_body = []\<rparr>"

definition hook_request :: "gostring \<Rightarrow> authWebhookRequest \<Rightarrow> http_request" where
  "hook_request hook req =
     \<lparr>hr_method = ''POST'', hr_path = ''/mediamtx/'' @ hook, hr_authorization = [], hr_body = json_encode (webhook_json req)\<rparr>"

definition list_request :: http_request where
  "list_request = \<lparr>hr_method = ''GET'', hr_path = ''/channels'', hr_authorization = [], hr_body = []\<rparr>"

definition on_path :: "gostring \<Rightarrow> gostring \<Rightarrow> authWebhookRequest" where
  "on_path app key = \<lparr>wr_Action = ''publish'', wr_Path = app @ ''/'' @ key, wr_Password = []\<rparr>"

definition live_reply :: "LiveChannel list \<Rightarrow> reply" where
  "live_reply cs = HandlerReply (writeJSON StatusOK (JObj [(''channels'', JArr (map live_json cs))]))"

lemma serve_create:
  assumes "plain_elem enc" "pathUnescape enc \<noteq> ''/''" "channels s (pathUnescape enc) = None" "in_random inp = Some raw"
  shows "serve (streams_routes v k rec) inp (create_request k enc) s =
    (HandlerReply (writeJSON StatusCreated (key_response (pathUnescape enc) (''sk_'' @ hex_EncodeToString raw))),
     snd (exec_op (CreateOp (Some raw) (pathUnescape enc)) s))"
proof -
  have "serve (streams_routes v k rec) inp (create_request k enc) s =
      run_handler (requireAuth k (newCreateStreamKeyHandler (Some raw))) (with_slug (create_request k enc) (pathUnescape enc)) s"
    using serve_stream_key[of "create_request k enc" enc v k rec inp s] assms
    by (simp add: create_request_def stream_key_handler_def)
  then show ?thesis
    using assms(3)
    by (simp add: run_handler_def requireAuth_eq authorized_def create_handler_cases create_request_def with_slug_def
        case_prod_beta)
qed

lemma serve_hook:
  "serve (streams_routes v k rec) inp (hook_request ''auth'' req) s =
     run_handler newMediaMTXAuthHandler (with_slug (hook_request ''auth'' req) []) s"
  "serve (streams_routes v k rec) inp (hook_request ''unpublish'' req) s =
     run_handler newMediaMTXUnpublishHandler (with_slug (hook_request ''unpublish'' req) []) s"
  by (simp_all add: serve_def hook_request_def hook_routes run_handler_def lift_handler_def with_slug_def case_prod_beta Let_def)

lemma serve_list:
  "serve (streams_routes v k rec) inp list_request s = (live_reply (ListLive (in_order inp) s), s)"
  by (simp add: serve_def list_request_def hook_routes lift_handler_def newListChannelsHandler_def live_reply_def)

lemma decode_hook:
  assumes "valid_utf8 (app @ ''/'' @ key)" "length (json_encode (webhook_json (on_path app key))) \<le> 4096"
  shows "decodeWebhook (rq_body (with_slug (hook_request hook (on_path app key)) x)) = Inr (on_path app key)"
  using decodeWebhook_encoded[of "on_path app key" "[]"] assms
  by (simp add: hook_request_def with_slug_def on_path_def max_body_def byte_in_def rune_error_def)

text \<open>Both hooks, for a path that ends in a channel's key.\<close>

lemma serve_publish:
  assumes "FindByKey s key = Some slug" "key = ''sk_'' @ hex_EncodeToString raw"
    and "valid_utf8 (app @ ''/'' @ key)" "length (json_encode (webhook_json (on_path app key))) \<le> 4096"
  shows "serve (streams_routes v k rec) inp (hook_request ''auth'' (on_path app key)) s =
      (HandlerReply (writeHeader StatusOK), snd (SetLive slug True s))"
    and "serve (streams_routes v k rec) inp (hook_request ''unpublish'' (on_path app key)) s =
      (HandlerReply (writeHeader StatusOK), snd (SetLive slug False s))"
proof -
  have key: "key \<noteq> []" "CHR ''/'' \<notin> set key"
    using generated_key_no_slash[of raw] assms(2) by simp_all
  have seg: "lastPathSegment (wr_Path (on_path app key)) = key"
    using lastPathSegment_append[OF key, of "[]" app] by (simp add: on_path_def)
  then have pres: "presentedKey (on_path app key) = key" by (simp add: presentedKey_def on_path_def)
  note dec = decode_hook[OF assms(3,4)]
  have act: "wr_Action (on_path app key) = ''publish''" by (simp add: on_path_def)
  show "serve (streams_routes v k rec) inp (hook_request ''auth'' (on_path app key)) s =
      (HandlerReply (writeHeader StatusOK), snd (SetLive slug True s))"
    unfolding serve_hook run_handler_def auth_publish[OF dec act] pres assms(1) by simp
  show "serve (streams_routes v k rec) inp (hook_request ''unpublish'' (on_path app key)) s =
      (HandlerReply (writeHeader StatusOK), snd (SetLive slug False s))"
    unfolding serve_hook run_handler_def newMediaMTXUnpublishHandler_def dec
    by (simp add: resolveChannelFromPath_def seg assms(1))
qed

lemma dom_set: "dom (channels (snd (SetLive slug b s))) = dom (channels s)"
  by (auto simp: SetLive_def split: option.split)

lemma created_store:
  assumes "store_inv s" "channels s slug = None" "key = ''sk_'' @ hex_EncodeToString raw" "byKeyHash s (hashKey key) = None"
    and s1: "s1 = snd (exec_op (CreateOp (Some raw) slug) s)"
  shows "store_inv s1" "FindByKey s1 key = Some slug" "live_slugs s1 = live_slugs s"
    "dom (channels s1) = insert slug (dom (channels s))"
proof -
  show inv: "store_inv s1"
    unfolding s1 by (rule store_inv_exec[OF assms(1)]) (use assms(3,4) in \<open>simp add: fresh_op_def\<close>)
  have "exec_op (CreateOp (Some raw) slug) s = (KeyResult (Inr key), s1)"
    using assms(2,3) by (simp add: s1 CreateKey_def generateKey_def Let_def)
  from issued_has_key[OF _ this, of slug] have "has_key s1 slug key" by simp
  then show "FindByKey s1 key = Some slug" using FindByKey_has_key[OF inv] by blast
  have "channels s1 = (channels s)(slug \<mapsto> \<lparr>cr_slug = slug, cr_keyHash = hashKey key, cr_live = False\<rparr>)"
    using assms(2,3) by (simp add: s1 CreateKey_def generateKey_def Let_def)
  then show "live_slugs s1 = live_slugs s" "dom (channels s1) = insert slug (dom (channels s))"
    using assms(2) by (auto simp: live_slugs_def)
qed

subsection \<open>The whole stream\<close>

text \<open>
  C25: One stream, request by request: creating a channel's key answers 201 with the key; publishing
  on a path that ends in the key is allowed; the listing then shows the channel beside those that were
  live before; the unpublish hook with that path takes it out again, and all else is as before.
\<close>

theorem stream_from_key_to_end:
  assumes "store_inv s" "plain_elem enc" "pathUnescape enc = slug" "slug \<noteq> ''/''" "channels s slug = None"
    and "in_random i1 = Some raw" "key = ''sk_'' @ hex_EncodeToString raw" "byKeyHash s (hashKey key) = None"
    and "valid_utf8 (app @ ''/'' @ key)" "length (json_encode (webhook_json (on_path app key))) \<le> 4096"
    and "distinct (in_order i3)" "set (in_order i3) = insert slug (dom (channels s))"
    and "distinct (in_order i5)" "set (in_order i5) = insert slug (dom (channels s))"
  shows "\<exists>on off s'. serve_all (streams_routes v apiKey rec)
      [(i1, create_request apiKey enc), (i2, hook_request ''auth'' (on_path app key)), (i3, list_request),
       (i4, hook_request ''unpublish'' (on_path app key)), (i5, list_request)] s =
      ([HandlerReply (writeJSON StatusCreated (key_response slug key)), HandlerReply (writeHeader StatusOK),
        live_reply on, HandlerReply (writeHeader StatusOK), live_reply off], s') \<and>
    set (map lc_Slug on) = insert slug (live_slugs s) \<and> set (map lc_Slug off) = live_slugs s"
proof -
  define s1 where "s1 = snd (exec_op (CreateOp (Some raw) slug) s)"
  define s2 where "s2 = snd (SetLive slug True s1)"
  define s3 where "s3 = snd (SetLive slug False s2)"
  note created = created_store[OF assms(1,5,7,8) s1_def]
  have inv: "store_inv s2" "store_inv s3" using created(1) by (simp_all add: s2_def s3_def SetLive_inv)
  have find: "FindByKey s2 key = Some slug" using created(2) by (simp add: s2_def streams.set_live_find)
  have doms: "dom (channels s2) = insert slug (dom (channels s))" "dom (channels s3) = insert slug (dom (channels s))"
    using created(4) by (simp_all add: s2_def s3_def dom_set)
  have known: "channels s1 slug \<noteq> None" "channels s2 slug \<noteq> None" using created(4) doms by auto
  have off: "slug \<notin> live_slugs s" using assms(5) by (simp add: live_slugs_def)
  have live: "live_slugs s2 = insert slug (live_slugs s)" "live_slugs s3 = live_slugs s"
    using known off created(3) live_slugs_set[of slug True s1] live_slugs_set[of slug False s2]
    unfolding s2_def[symmetric] s3_def[symmetric] by auto
  have "set (map lc_Slug (ListLive (in_order i3) s2)) = insert slug (live_slugs s)"
    using set_ListLive[OF store_inv_sound[OF inv(1)]] assms(11,12) doms(1) live(1) by (simp add: map_order_def)
  moreover have "set (map lc_Slug (ListLive (in_order i5) s3)) = live_slugs s"
    using set_ListLive[OF store_inv_sound[OF inv(2)]] assms(13,14) doms(2) live(2) by (simp add: map_order_def)
  moreover note create = serve_create[of enc s i1 raw v apiKey rec, unfolded assms(3), OF assms(2,4,5,6), folded s1_def]
  moreover note hooks = serve_publish(1)[OF created(2) assms(7,9,10), folded s2_def]
    serve_publish(2)[OF find assms(7,9,10), folded s3_def]
  ultimately show ?thesis
    by (intro exI[of _ "ListLive (in_order i3) s2"] exI[of _ "ListLive (in_order i5) s3"] exI[of _ s3])
       (simp only: serve_all.simps create hooks serve_list assms(7) Let_def prod.case)
qed

theorem stream_from_key_to_end_witness:
  "let i = \<lparr>in_random = Some [], in_order = [''alice'']\<rparr>
   in \<exists>on off s'. serve_all (streams_routes ''dev'' ''secret'' None)
      [(i, create_request ''secret'' ''alice''), (i, hook_request ''auth'' (on_path ''live'' ''sk_'')), (i, list_request),
       (i, hook_request ''unpublish'' (on_path ''live'' ''sk_'')), (i, list_request)] newStore =
      ([HandlerReply (writeJSON StatusCreated (key_response ''alice'' ''sk_'')), HandlerReply (writeHeader StatusOK),
        live_reply on, HandlerReply (writeHeader StatusOK), live_reply off], s') \<and>
    set (map lc_Slug on) = insert ''alice'' (live_slugs newStore) \<and> set (map lc_Slug off) = live_slugs newStore"
  unfolding Let_def
proof (rule stream_from_key_to_end[OF newStore_inv, where raw = "[]"])
  show "length (json_encode (webhook_json (on_path ''live'' ''sk_''))) \<le> 4096"
    by (simp add: webhook_json_def on_path_def str_obj_def quote_def esc_ascii_def byte_in_def)
  show "pathUnescape ''alice'' = ''alice''" by (rule pathUnescape_plain) simp
qed (simp_all add: newStore_def plain_elem_def byte_in_def rune_error_def)

end
