(* ===== verification/StreamsReplies.thy ===== *)
theory StreamsReplies
  imports StreamsJourney
begin

section \<open>What the streams service sends\<close>

text \<open>
  The texts of the errors and the bytes of a response body, and the shape of every reply: a JSON
  object with the members of its kind, or no body at all.  What the code does not say itself, the
  text of a decoding error, of a failed draw of randomness and of \<open>%q\<close>, is an argument.
\<close>

subsection \<open>Texts\<close>

record library_texts =
  tx_decode :: "decode_error \<Rightarrow> gostring"
  tx_random :: gostring
  tx_quote :: "gostring \<Rightarrow> gostring"

definition generate_key_text :: "gostring \<Rightarrow> gostring" where
  "generate_key_text err = ''generate stream key: '' @ err"

definition store_error_text :: "library_texts \<Rightarrow> store_error \<Rightarrow> gostring" where
  "store_error_text tx e =
     (case e of
        ErrChannelExists \<Rightarrow> ''channel already has a stream key''
      | ErrChannelNotFound \<Rightarrow> ''channel not found''
      | ErrGenerateKey \<Rightarrow> generate_key_text (tx_random tx))"

definition unauthorized_text :: gostring where
  "unauthorized_text = ''unauthorized''"

definition errRecordingsNotConfigured :: gostring where
  "errRecordingsNotConfigured = ''VOD recording storage is not configured for this deployment''"

definition invalid_slug_text :: "library_texts \<Rightarrow> gostring \<Rightarrow> gostring" where
  "invalid_slug_text tx slug = ''invalid slug '' @ tx_quote tx slug"

definition list_error_text :: "gostring \<Rightarrow> gostring \<Rightarrow> gostring \<Rightarrow> gostring" where
  "list_error_text bucket p err = ''list recordings under s3://'' @ bucket @ ''/'' @ p @ '': '' @ err"

definition presign_error_text :: "gostring \<Rightarrow> gostring \<Rightarrow> gostring \<Rightarrow> gostring" where
  "presign_error_text bucket key err = ''presign GET for s3://'' @ bucket @ ''/'' @ key @ '': '' @ err"

text \<open>\<open>err.Error()\<close>.\<close>

definition error_text :: "library_texts \<Rightarrow> http_error \<Rightarrow> gostring" where
  "error_text tx e =
     (case e of
        StoreError x \<Rightarrow> store_error_text tx x
      | DecodeError x \<Rightarrow> tx_decode tx x
      | ErrUnauthorized \<Rightarrow> unauthorized_text
      | ErrRecordingsNotConfigured \<Rightarrow> errRecordingsNotConfigured
      | InvalidSlug slug \<Rightarrow> invalid_slug_text tx slug
      | StorageError x \<Rightarrow>
          (case x of
             ListError bucket p err \<Rightarrow> list_error_text bucket p err
           | PresignError bucket key err \<Rightarrow> presign_error_text bucket key err))"

subsection \<open>Bodies\<close>

definition error_json :: "library_texts \<Rightarrow> http_error \<Rightarrow> json" where
  "error_json tx e = JObj [(''error'', JStr (error_text tx e))]"

definition body_bytes :: "library_texts \<Rightarrow> resp_body \<Rightarrow> bytes" where
  "body_bytes tx b =
     (case b of
        NoBody \<Rightarrow> []
      | JsonBody j \<Rightarrow> Encode j
      | ErrorBody e \<Rightarrow> Encode (error_json tx e))"

subsection \<open>The shape of a reply\<close>

text \<open>The members a body may have, by status; \<open>None\<close> for no body.\<close>

definition reply_schema :: "(nat \<times> gostring list option) set" where
  "reply_schema =
     {(201, Some [''slug'', ''streamKey'']), (200, Some [''slug'', ''streamKey'']),
      (200, Some [''slug'', ''hasKey'', ''live'']), (200, Some [''channels'']), (200, Some [''recordings'']),
      (200, Some [''service'', ''version'']), (200, Some [''status'']),
      (200, None), (204, None), (401, None)}
     \<union> {400, 401, 404, 409, 500, 502, 503} \<times> {Some [''error'']}"

fun body_members :: "resp_body \<Rightarrow> gostring list option" where
  "body_members (JsonBody (JObj ms)) = Some (map fst ms)"
| "body_members (ErrorBody e) = Some [''error'']"
| "body_members _ = None"

fun object_body :: "resp_body \<Rightarrow> bool" where
  "object_body (JsonBody (JObj ms)) = list_all valid_utf8 (map fst ms)"
| "object_body (JsonBody _) = False"
| "object_body _ = True"

definition reply_ok :: "response \<Rightarrow> bool" where
  "reply_ok resp \<longleftrightarrow> object_body (rs_body resp) \<and>
     (rs_status resp, body_members (rs_body resp)) \<in> reply_schema \<and>
     (rs_body resp \<noteq> NoBody \<longrightarrow> rs_ctype resp = Some ''application/json'')"

lemma reply_ok_error: "status \<in> {400, 401, 404, 409, 500, 502, 503} \<Longrightarrow> reply_ok (writeError status e)"
  by (simp add: reply_ok_def response_defs reply_schema_def)

lemma reply_ok_header: "status \<in> {200, 204, 401} \<Longrightarrow> reply_ok (writeHeader status)"
  by (auto simp: reply_ok_def writeHeader_def reply_schema_def)

lemma reply_ok_json:
  "(status, Some (map fst ms)) \<in> reply_schema \<Longrightarrow> list_all valid_utf8 (map fst ms) \<Longrightarrow> reply_ok (writeJSON status (JObj ms))"
  by (simp add: reply_ok_def response_defs)

lemmas reply_oks = reply_ok_error reply_ok_header reply_ok_json

lemma ascii_members:
  "list_all valid_utf8 [''slug'', ''streamKey'', ''hasKey'', ''live'', ''channels'', ''recordings'', ''service'', ''version'', ''status'']"
  by (simp add: byte_in_def rune_error_def)

lemma handler_replies:
  "reply_ok (fst (newRootHandler v r s))" "reply_ok (fst (newHealthHandler r s))"
  "reply_ok (fst (newCreateStreamKeyHandler rnd r s))" "reply_ok (fst (newGetStreamKeyHandler r s))"
  "reply_ok (fst (newRotateStreamKeyHandler rnd r s))" "reply_ok (fst (newRevokeStreamKeyHandler r s))"
  "reply_ok (fst (newMediaMTXAuthHandler r s))" "reply_ok (fst (newMediaMTXUnpublishHandler r s))"
  "reply_ok (fst (newListChannelsHandler order r s))"
  using ascii_members
  by (auto simp: newRootHandler_def newHealthHandler_def create_handler_cases newGetStreamKeyHandler_def
      rotate_handler_cases revoke_handler_cases newMediaMTXAuthHandler_def newMediaMTXUnpublishHandler_def
      newListChannelsHandler_def writeStoreError_def status_defs key_response_def Let_def
      split: option.split sum.split intro!: reply_oks simp: reply_schema_def)

lemma auth_reply: "reply_ok (fst (fn r s)) \<Longrightarrow> reply_ok (fst (requireAuth k fn r s))"
  by (simp add: requireAuth_eq status_defs reply_ok_error)

lemma recordings_body_ok: "reply_ok (writeBody 200 (recordings_body recs))"
  using ascii_members by (auto simp: reply_ok_def recordings_body_def writeBody_def reply_schema_def Let_def)

lemma recordings_reply:
  assumes "newListRecordingsHandler api r = Some resp"
  shows "reply_ok resp"
proof (cases api)
  case None
  then show ?thesis using assms by (auto simp: newListRecordingsHandler_def status_defs intro: reply_ok_error)
next
  case (Some x)
  have each: "reply_ok (case res of
      Inl err \<Rightarrow> writeError StatusBadGateway (StorageError err)
    | Inr objects \<Rightarrow> (case presign_all x objects of
          Inl err \<Rightarrow> writeError StatusBadGateway (StorageError err)
        | Inr recordings \<Rightarrow> writeBody StatusOK (recordings_body recordings)))" for res
    using recordings_body_ok by (auto simp: status_defs intro: reply_ok_error split: sum.split)
  show ?thesis
  proof (cases "containsPathTraversal (rq_slug r)")
    case True
    then show ?thesis using assms Some by (auto simp: newListRecordingsHandler_def status_defs intro: reply_ok_error)
  next
    case False
    then show ?thesis using assms Some each by (auto simp: newListRecordingsHandler_def)
  qed
qed

text \<open>A fact about every registered handler's reply is one about every reply that is served.\<close>

lemma served_reply:
  assumes "serve mux inp hr s = (HandlerReply resp, s')"
    and each: "\<And>m ps h r. (m, ps, h) \<in> set mux \<Longrightarrow> fst (h inp (r :: request) s) = Some resp \<Longrightarrow> Q resp"
  shows "Q resp"
proof (cases "mux_Handler mux (hr_method hr) (hr_path hr)")
  case (Route h ms)
  then obtain m ps where reg: "(m, ps, h) \<in> set mux"
    by (auto simp: mux_Handler_def Let_def dest!: match_request_registered split: if_splits option.splits)
  let ?r = "\<lparr>rq_authorization = hr_authorization hr, rq_slug = (case ms of v # _ \<Rightarrow> v | [] \<Rightarrow> []), rq_body = hr_body hr\<rparr>"
  have "fst (h inp ?r s) = Some resp"
    using assms(1) Route by (auto simp: serve_def Let_def split: prod.splits option.splits)
  then show ?thesis by (rule each[OF reg])
qed (use assms(1) in \<open>simp_all add: serve_def\<close>)

lemma fst_lift_handler: "fst (lift_handler h inp r s) = Some (fst (h r s))"
  by (simp add: lift_handler_def split: prod.split)

lemma streams_reply_ok:
  assumes "serve (streams_routes v k rec) inp hr s = (HandlerReply resp, s')"
  shows "reply_ok resp"
proof (rule served_reply[OF assms])
  fix m ps h r assume "(m, ps, h) \<in> set (streams_routes v k rec)" and resp: "fst (h inp (r :: request) s) = Some resp"
  from streams_handlers[OF this(1)] show "reply_ok resp"
    by (elim disjE; use resp in \<open>auto simp: fst_lift_handler handler_replies auth_reply intro: recordings_reply\<close>)
qed

lemma decoded_members:
  assumes "object_body b" "body_members b = Some names"
  shows "\<exists>ms. parse_value (body_bytes tx b) = Some (VObject ms, [CHR 0x0A]) \<and> map fst ms = names"
proof (cases b rule: body_members.cases)
  case (1 ms)
  have "map (coerce_utf8 \<circ> fst) ms = map fst ms"
    using assms(1) 1 by (auto simp: list_all_iff coerce_valid)
  then show ?thesis
    using 1 assms(2) by (auto simp: body_bytes_def parse_Encode case_prod_beta comp_def)
next
  case (2 e)
  have "coerce_utf8 ''error'' = ''error''" by (rule coerce_valid) (simp add: byte_in_def rune_error_def)
  then show ?thesis
    using 2 assms(2) by (simp add: body_bytes_def error_json_def parse_Encode del: coerce_utf8.simps)
qed (use assms in simp_all)

subsection \<open>Every reply\<close>

text \<open>
  C10: Every reply of the service's handlers has one of the documented shapes: what it sends is
  nothing, or one JSON object and a newline under the content type of JSON, and the object has the
  members its status calls for, only \<open>error\<close> for a status from 400 on.
\<close>

theorem replies_have_schema:
  assumes "serve (streams_routes v k rec) inp hr s = (HandlerReply resp, s')"
  shows "\<exists>names. (rs_status resp, names) \<in> reply_schema \<and>
    (case names of
       None \<Rightarrow> body_bytes tx (rs_body resp) = []
     | Some ns \<Rightarrow> rs_ctype resp = Some ''application/json'' \<and>
         (\<exists>ms. parse_value (body_bytes tx (rs_body resp)) = Some (VObject ms, [CHR 0x0A]) \<and> map fst ms = ns))"
proof -
  have ok: "reply_ok resp" by (rule streams_reply_ok[OF assms])
  show ?thesis
  proof (cases "body_members (rs_body resp)")
    case None
    then have "rs_body resp = NoBody"
      using ok by (cases "rs_body resp" rule: object_body.cases) (auto simp: reply_ok_def)
    then show ?thesis using ok None by (auto simp: reply_ok_def body_bytes_def intro!: exI[of _ None])
  next
    case (Some names)
    moreover from this have "rs_body resp \<noteq> NoBody" by auto
    ultimately show ?thesis
      using ok decoded_members[of "rs_body resp" names tx] by (auto simp: reply_ok_def intro!: exI[of _ "Some names"])
  qed
qed

theorem replies_have_schema_witness:
  "\<exists>ms. parse_value (Encode (JObj [(''channels'', JArr [])])) = Some (VObject ms, [CHR 0x0A])"
proof -
  let ?inp = "\<lparr>in_random = None, in_order = []\<rparr>" and ?body = "JsonBody (JObj [(''channels'', JArr [])])"
  let ?tx = "\<lparr>tx_decode = (\<lambda>e. []), tx_random = [], tx_quote = (\<lambda>s. s)\<rparr>"
  have "serve (streams_routes ''dev'' [] None) ?inp list_request newStore = (HandlerReply (writeBody 200 ?body), newStore)"
    by (simp add: serve_list live_reply_def ListLive_def collect_live_def writeJSON_def status_defs)
  from replies_have_schema[OF this, of ?tx] show ?thesis
    by (fastforce simp: writeBody_def body_bytes_def Encode_def split: option.splits)
qed

end
