(* ===== verification/StreamsApi.thy ===== *)
theory StreamsApi
  imports StreamsJourney
begin

section \<open>The HTTP interface as a registry (services/streams)\<close>

text \<open>
  What a client of the service sees, stated without the store, the handlers and the mux: each call of
  the stream-key endpoints, of the two webhooks and of the listing against the abstract registry of
  \<open>StoreSpec\<close>, with its reply.  Any sequence of requests through the mux behaves so.
\<close>

subsection \<open>Calls\<close>

datatype api_call =
    KeyCall (call_method: gostring) (call_slug: gostring) (call_auth: gostring)
  | AuthCall bytes
  | UnpublishCall bytes
  | ListCall

fun request_of :: "api_call \<Rightarrow> http_request" where
  "request_of (KeyCall m enc auth) =
     \<lparr>hr_method = m, hr_path = channel_url enc ''stream-key'', hr_authorization = auth, hr_body = []\<rparr>"
| "request_of (AuthCall body) =
     \<lparr>hr_method = ''POST'', hr_path = ''/mediamtx/auth'', hr_authorization = [], hr_body = body\<rparr>"
| "request_of (UnpublishCall body) =
     \<lparr>hr_method = ''POST'', hr_path = ''/mediamtx/unpublish'', hr_authorization = [], hr_body = body\<rparr>"
| "request_of ListCall = list_request"

subsection \<open>The specification\<close>

text \<open>An authorised call of a stream-key endpoint: the response and the next registry.\<close>

definition key_spec :: "bytes option \<Rightarrow> gostring \<Rightarrow> gostring \<Rightarrow> registry \<Rightarrow> response \<times> registry" where
  "key_spec rnd m slug R =
     (let unknown = (writeError 404 (StoreError ErrChannelNotFound), R);
          no_key = (writeError 500 (StoreError ErrGenerateKey), R);
          key = (\<lambda>raw. ''sk_'' @ hex_EncodeToString raw)
      in if m = ''POST'' then
           (case (R slug, rnd) of
              (Some _, _) \<Rightarrow> (writeError 409 (StoreError ErrChannelExists), R)
            | (None, None) \<Rightarrow> no_key
            | (None, Some raw) \<Rightarrow> (writeJSON 201 (key_response slug (key raw)), R(slug \<mapsto> (hashKey (key raw), False))))
         else if m = ''PUT'' then
           (case (R slug, rnd) of
              (None, _) \<Rightarrow> unknown
            | (Some _, None) \<Rightarrow> no_key
            | (Some (h, lv), Some raw) \<Rightarrow> (writeJSON 200 (key_response slug (key raw)), R(slug \<mapsto> (hashKey (key raw), lv))))
         else if m = ''DELETE'' then
           (case R slug of None \<Rightarrow> unknown | Some _ \<Rightarrow> (writeHeader 204, R(slug := None)))
         else
           (case R slug of
              None \<Rightarrow> unknown
            | Some (h, lv) \<Rightarrow>
                (writeJSON 200 (JObj [(''slug'', JStr slug), (''hasKey'', JBool True), (''live'', JBool lv)]), R)))"

definition holds_key :: "registry \<Rightarrow> gostring \<Rightarrow> gostring \<Rightarrow> bool" where
  "holds_key R key slug \<longleftrightarrow> (\<exists>lv. R slug = Some (hashKey key, lv))"

definition set_flag :: "gostring \<Rightarrow> bool \<Rightarrow> registry \<Rightarrow> registry" where
  "set_flag slug b R = R(slug := map_option (\<lambda>(h, lv). (h, b)) (R slug))"

fun api_spec :: "gostring \<Rightarrow> inputs \<Rightarrow> api_call \<Rightarrow> registry \<Rightarrow> reply \<Rightarrow> registry \<Rightarrow> bool" where
  "api_spec apiKey inp (KeyCall m enc auth) R a R' =
     (if m \<notin> {''GET'', ''HEAD'', ''POST'', ''PUT'', ''DELETE''} then
        a = MethodNotAllowedReply [''DELETE'', ''GET'', ''HEAD'', ''POST'', ''PUT''] \<and> R' = R
      else if apiKey \<noteq> [] \<and> auth \<noteq> ''Bearer '' @ apiKey then
        a = HandlerReply (writeError 401 ErrUnauthorized) \<and> R' = R
      else (case key_spec (in_random inp) m (pathUnescape enc) R of (resp, R1) \<Rightarrow> a = HandlerReply resp \<and> R' = R1))"
| "api_spec apiKey inp (AuthCall body) R a R' =
     (case decodeWebhook body of
        Inl err \<Rightarrow> a = HandlerReply (writeError 400 (DecodeError err)) \<and> R' = R
      | Inr req \<Rightarrow>
          if wr_Action req \<noteq> ''publish'' then a = HandlerReply (writeHeader 200) \<and> R' = R
          else if \<exists>slug. holds_key R (presentedKey req) slug then
            a = HandlerReply (writeHeader 200) \<and> (\<exists>slug. holds_key R (presentedKey req) slug \<and> R' = set_flag slug True R)
          else a = HandlerReply (writeHeader 401) \<and> R' = R)"
| "api_spec apiKey inp (UnpublishCall body) R a R' =
     (case decodeWebhook body of
        Inl err \<Rightarrow> a = HandlerReply (writeError 400 (DecodeError err)) \<and> R' = R
      | Inr req \<Rightarrow>
          a = HandlerReply (writeHeader 200) \<and>
          (let seg = lastPathSegment (wr_Path req) in
           if \<exists>slug. holds_key R seg slug then \<exists>slug. holds_key R seg slug \<and> R' = set_flag slug False R
           else R' = set_flag seg False R))"
| "api_spec apiKey inp ListCall R a R' =
     (a = live_reply (map (\<lambda>slug. \<lparr>lc_Slug = slug, lc_Live = True\<rparr>)
            (sorted_list_of_set {slug. \<exists>h. R slug = Some (h, True)})) \<and> R' = R)"

inductive api_run :: "gostring \<Rightarrow> (inputs \<times> api_call) list \<Rightarrow> registry \<Rightarrow> reply list \<Rightarrow> registry \<Rightarrow> bool" for apiKey where
  api_nil: "api_run apiKey [] R [] R"
| api_cons: "api_spec apiKey inp q R a R' \<Longrightarrow> api_run apiKey qs R' as R'' \<Longrightarrow>
    api_run apiKey ((inp, q) # qs) R (a # as) R''"

text \<open>
  What a call takes from its surroundings: a fresh key where one is drawn, the channels in some order,
  and a slug that is a plain path element.
\<close>

fun call_ok :: "inputs \<Rightarrow> api_call \<Rightarrow> store \<Rightarrow> bool" where
  "call_ok inp (KeyCall m enc auth) s \<longleftrightarrow>
     plain_elem enc \<and> pathUnescape enc \<noteq> ''/'' \<and>
     (case in_random inp of None \<Rightarrow> True | Some raw \<Rightarrow> byKeyHash s (hashKey (''sk_'' @ hex_EncodeToString raw)) = None)"
| "call_ok inp ListCall s \<longleftrightarrow> map_order (in_order inp) s"
| "call_ok inp _ s \<longleftrightarrow> True"

fun calls_ok :: "routes \<Rightarrow> (inputs \<times> api_call) list \<Rightarrow> store \<Rightarrow> bool" where
  "calls_ok mux [] s = True"
| "calls_ok mux ((inp, q) # qs) s = (call_ok inp q s \<and> calls_ok mux qs (snd (serve mux inp (request_of q) s)))"

subsection \<open>The service implements it\<close>

lemma abs_SetLive: "abs_store (snd (SetLive slug b s)) = set_flag slug b (abs_store s)"
  by (auto simp: abs_store_def set_flag_def SetLive_def fun_eq_iff split: option.split)

lemma holds_key_abs: "holds_key (abs_store s) key slug \<longleftrightarrow> has_key s slug key"
  by (auto simp: holds_key_def has_key_def abs_store_def)

lemma create_key_spec:
  "key_spec rnd ''POST'' (rq_slug r) (abs_store s) =
     (fst (newCreateStreamKeyHandler rnd r s), abs_store (snd (newCreateStreamKeyHandler rnd r s)))"
  by (auto simp: key_spec_def create_handler_cases abs_store_def CreateKey_def generateKey_def status_defs Let_def
      fun_eq_iff split: option.split)

lemma rotate_key_spec:
  "key_spec rnd ''PUT'' (rq_slug r) (abs_store s) =
     (fst (newRotateStreamKeyHandler rnd r s), abs_store (snd (newRotateStreamKeyHandler rnd r s)))"
  by (auto simp: key_spec_def rotate_handler_cases abs_store_def RotateKey_def generateKey_def status_defs Let_def
      fun_eq_iff split: option.split)

lemma revoke_key_spec:
  "key_spec rnd ''DELETE'' (rq_slug r) (abs_store s) =
     (fst (newRevokeStreamKeyHandler r s), abs_store (snd (newRevokeStreamKeyHandler r s)))"
  by (auto simp: key_spec_def revoke_handler_cases abs_store_def RevokeKey_def status_defs Let_def
      fun_eq_iff split: option.split)

lemma get_key_spec:
  assumes "store_inv s" "m = ''GET'' \<or> m = ''HEAD''"
  shows "key_spec rnd m (rq_slug r) (abs_store s) =
     (fst (newGetStreamKeyHandler r s), abs_store (snd (newGetStreamKeyHandler r s)))"
  using assms(2) index_sound_slug[OF store_inv_sound[OF assms(1)], of "rq_slug r"]
    index_sound_hash[OF store_inv_sound[OF assms(1)], of "rq_slug r"]
  by (auto simp: key_spec_def newGetStreamKeyHandler_def Get_def abs_store_def writeStoreError_def status_defs Let_def
      split: option.split)

lemma key_call_spec:
  assumes inv: "store_inv s" and ok: "call_ok inp (KeyCall m enc auth) s"
    and served: "serve (streams_routes v k rec) inp (request_of (KeyCall m enc auth)) s = (a, s')"
  shows "api_spec k inp (KeyCall m enc auth) (abs_store s) a (abs_store s') \<and> store_inv s'"
proof -
  let ?r = "with_slug (request_of (KeyCall m enc auth)) (pathUnescape enc)"
  have r: "rq_slug ?r = pathUnescape enc" "rq_authorization ?r = auth" by (simp_all add: with_slug_def)
  have served: "(a, s') = (case stream_key_handler k inp m of
       Some h \<Rightarrow> run_handler h ?r s
     | None \<Rightarrow> (MethodNotAllowedReply [''DELETE'', ''GET'', ''HEAD'', ''POST'', ''PUT''], s))"
    using served serve_stream_key[of "request_of (KeyCall m enc auth)" enc v k rec inp s] ok by simp
  have authorized: "authorized k ?r \<longleftrightarrow> k = [] \<or> auth = ''Bearer '' @ k"
    by (simp add: authorized_def bearer_prefix_def with_slug_def)
  have fresh: "fresh_op (CreateOp (in_random inp) slug) s" "fresh_op (RotateOp (in_random inp) slug) s" "fresh_op (RevokeOp slug) s" for slug
    using ok by (simp_all add: fresh_op_def split: option.splits)
  have spec: "key_spec (in_random inp) m (pathUnescape enc) (abs_store s) = (fst (h ?r s), abs_store (snd (h ?r s))) \<and>
      store_inv (snd (h ?r s))"
    if "stream_key_handler k inp m = Some (requireAuth k h)" "h = (if m = ''POST'' then newCreateStreamKeyHandler (in_random inp)
        else if m = ''PUT'' then newRotateStreamKeyHandler (in_random inp)
        else if m = ''DELETE'' then newRevokeStreamKeyHandler else newGetStreamKeyHandler)" for h
    using that create_key_spec[of "in_random inp" ?r s] rotate_key_spec[of "in_random inp" ?r s]
      revoke_key_spec[of "in_random inp" ?r s] get_key_spec[OF inv, of m "in_random inp" ?r] store_inv_exec[OF inv fresh(1)]
      store_inv_exec[OF inv fresh(2)] store_inv_exec[OF inv fresh(3)] inv
    unfolding r stream_key_handler_def
    by (auto simp: create_handler_state rotate_handler_state revoke_handler_state get_handler_state split: if_splits
        simp del: exec_op.simps)
  show ?thesis
  proof (cases "m \<in> {''GET'', ''HEAD'', ''POST'', ''PUT'', ''DELETE''}")
    case False
    then have "stream_key_handler k inp m = None" by (auto simp: stream_key_handler_def)
    then show ?thesis using served False inv by simp
  next
    case True
    define h where "h = (if m = ''POST'' then newCreateStreamKeyHandler (in_random inp)
        else if m = ''PUT'' then newRotateStreamKeyHandler (in_random inp)
        else if m = ''DELETE'' then newRevokeStreamKeyHandler else newGetStreamKeyHandler)"
    have h: "stream_key_handler k inp m = Some (requireAuth k h)"
      using True by (auto simp: stream_key_handler_def h_def)
    have run: "(a, s') = (if authorized k ?r then (HandlerReply (fst (h ?r s)), snd (h ?r s))
        else (HandlerReply (writeError 401 ErrUnauthorized), s))"
      using served unfolding h by (simp add: run_handler_def requireAuth_eq status_defs case_prod_beta Let_def)
    show ?thesis
    proof (cases "authorized k ?r")
      case True
      then show ?thesis
        using run spec[OF h h_def] \<open>m \<in> _\<close> unfolding authorized by (auto simp: case_prod_beta)
    next
      case False
      then show ?thesis
        using run inv \<open>m \<in> _\<close> unfolding authorized by auto
    qed
  qed
qed

lemma serve_webhooks:
  "serve (streams_routes v k rec) inp (request_of (AuthCall body)) s =
     run_handler newMediaMTXAuthHandler \<lparr>rq_authorization = [], rq_slug = [], rq_body = body\<rparr> s"
  "serve (streams_routes v k rec) inp (request_of (UnpublishCall body)) s =
     run_handler newMediaMTXUnpublishHandler \<lparr>rq_authorization = [], rq_slug = [], rq_body = body\<rparr> s"
  by (simp_all add: serve_def hook_routes run_handler_def lift_handler_def case_prod_beta Let_def)

lemma auth_call_spec:
  assumes inv: "store_inv s" and served: "serve (streams_routes v k rec) inp (request_of (AuthCall body)) s = (a, s')"
  shows "api_spec k inp (AuthCall body) (abs_store s) a (abs_store s') \<and> store_inv s'"
proof -
  let ?r = "\<lparr>rq_authorization = [], rq_slug = [], rq_body = body\<rparr>"
  have as: "a = HandlerReply (fst (newMediaMTXAuthHandler ?r s))" "s' = snd (newMediaMTXAuthHandler ?r s)"
    using served unfolding serve_webhooks by (simp_all add: run_handler_def case_prod_beta Let_def)
  have "api_spec k inp (AuthCall body) (abs_store s) a (abs_store s')"
  proof (cases "decodeWebhook body")
    case (Inl err)
    then show ?thesis by (simp add: as newMediaMTXAuthHandler_def status_defs)
  next
    case (Inr req)
    show ?thesis
    proof (cases "FindByKey s (presentedKey req)")
      case None
      then have "\<not> (\<exists>slug. holds_key (abs_store s) (presentedKey req) slug)"
        unfolding holds_key_abs using FindByKey_None[OF inv] by blast
      then show ?thesis using None Inr by (auto simp: as newMediaMTXAuthHandler_def status_defs)
    next
      case (Some slug)
      then have "has_key s slug (presentedKey req)" using FindByKey_has_key[OF inv] by blast
      then show ?thesis
        using Some Inr by (auto simp: as newMediaMTXAuthHandler_def holds_key_abs abs_SetLive status_defs)
    qed
  qed
  then show ?thesis using auth_handler_inv[OF inv] by (simp only: as(2))
qed

lemma unpublish_call_spec:
  assumes inv: "store_inv s" and served: "serve (streams_routes v k rec) inp (request_of (UnpublishCall body)) s = (a, s')"
  shows "api_spec k inp (UnpublishCall body) (abs_store s) a (abs_store s') \<and> store_inv s'"
proof -
  let ?r = "\<lparr>rq_authorization = [], rq_slug = [], rq_body = body\<rparr>"
  have as: "a = HandlerReply (fst (newMediaMTXUnpublishHandler ?r s))" "s' = snd (newMediaMTXUnpublishHandler ?r s)"
    using served unfolding serve_webhooks by (simp_all add: run_handler_def case_prod_beta Let_def)
  have "api_spec k inp (UnpublishCall body) (abs_store s) a (abs_store s')"
  proof (cases "decodeWebhook body")
    case (Inl err)
    then show ?thesis by (simp add: as newMediaMTXUnpublishHandler_def status_defs)
  next
    case (Inr req)
    let ?seg = "lastPathSegment (wr_Path req)"
    show ?thesis
    proof (cases "FindByKey s ?seg")
      case None
      then have no: "\<not> (\<exists>slug. holds_key (abs_store s) ?seg slug)"
        unfolding holds_key_abs using FindByKey_None[OF inv] by blast
      have "abs_store s' = set_flag ?seg False (abs_store s)"
      proof (cases "Get s ?seg")
        case gone: None
        then have "abs_store s ?seg = None" by (auto simp: Get_def abs_store_def split: option.splits)
        then show ?thesis
          using None gone Inr by (auto simp: as newMediaMTXUnpublishHandler_def resolveChannelFromPath_def set_flag_def)
      next
        case (Some ch)
        then have "ch_Slug ch = ?seg" using streams.get_slug[OF store_inv_sound[OF inv]] by blast
        then show ?thesis
          using None Some Inr by (simp add: as newMediaMTXUnpublishHandler_def resolveChannelFromPath_def abs_SetLive)
      qed
      moreover have "a = HandlerReply (writeHeader 200)"
        using Inr by (auto simp: as newMediaMTXUnpublishHandler_def status_defs split: option.split)
      ultimately show ?thesis using no Inr by (auto simp: Let_def)
    next
      case (Some slug)
      then have "has_key s slug ?seg" using FindByKey_has_key[OF inv] by blast
      then show ?thesis
        using Some Inr by (auto simp: as newMediaMTXUnpublishHandler_def resolveChannelFromPath_def holds_key_abs
            abs_SetLive status_defs Let_def)
    qed
  qed
  then show ?thesis using unpublish_handler_inv[OF inv] by (simp only: as(2))
qed

text \<open>The listing is a function of the live slugs.\<close>

lemma ListLive_abs:
  assumes "index_sound s" "map_order order s"
  shows "ListLive order s = map (\<lambda>slug. \<lparr>lc_Slug = slug, lc_Live = True\<rparr>) (sorted_list_of_set (live_slugs s))"
proof -
  have m: "mset (ListLive order s) = mset (collect_live order s)" by (simp add: ListLive_def)
  have "distinct (map lc_Slug (ListLive order s))"
    using distinct_collect_live[OF assms] m by (metis mset_eq_imp_distinct_iff mset_map)
  moreover have "sorted (map lc_Slug (ListLive order s))" by (simp add: ListLive_def)
  ultimately have slugs: "map lc_Slug (ListLive order s) = sorted_list_of_set (live_slugs s)"
    using set_ListLive[OF assms] by (metis sorted_list_of_set_unique sorted_list_of_set.idem_if_sorted_distinct)
  have "\<lparr>lc_Slug = lc_Slug c, lc_Live = True\<rparr> = c" if "c \<in> set (ListLive order s)" for c
    using that set_collect_live[OF assms] by (auto simp: ListLive_def)
  then have "ListLive order s = map ((\<lambda>slug. \<lparr>lc_Slug = slug, lc_Live = True\<rparr>) \<circ> lc_Slug) (ListLive order s)"
    by (simp add: map_idI comp_def)
  then show ?thesis using slugs by (metis map_map)
qed

lemma live_slugs_abs: "live_slugs s = {slug. \<exists>h. abs_store s slug = Some (h, True)}"
  by (auto simp: live_slugs_def abs_store_def)

lemma api_call_spec:
  assumes "store_inv s" "call_ok inp q s" "serve (streams_routes v k rec) inp (request_of q) s = (a, s')"
  shows "api_spec k inp q (abs_store s) a (abs_store s') \<and> store_inv s'"
proof (cases q)
  case (KeyCall m enc auth)
  show ?thesis using key_call_spec assms unfolding KeyCall by blast
next
  case (AuthCall body)
  show ?thesis using auth_call_spec assms unfolding AuthCall by blast
next
  case (UnpublishCall body)
  show ?thesis using unpublish_call_spec assms unfolding UnpublishCall by blast
next
  case ListCall
  have as: "a = live_reply (ListLive (in_order inp) s)" "s' = s"
    using assms(3) unfolding ListCall request_of.simps serve_list by auto
  then show ?thesis
    using assms(1,2) ListLive_abs[OF store_inv_sound[OF assms(1)], of "in_order inp"]
    by (simp add: ListCall as live_slugs_abs)
qed

lemma api_calls_run:
  assumes "store_inv s" "calls_ok (streams_routes v k rec) qs s"
    "serve_all (streams_routes v k rec) (map (\<lambda>(inp, q). (inp, request_of q)) qs) s = (as, s')"
  shows "api_run k qs (abs_store s) as (abs_store s')"
  using assms
proof (induction qs arbitrary: s as)
  case Nil
  then show ?case by (auto intro: api_nil)
next
  case (Cons x qs)
  obtain inp q where x: "x = (inp, q)" by (cases x)
  obtain a s1 where a: "serve (streams_routes v k rec) inp (request_of q) s = (a, s1)"
    by (cases "serve (streams_routes v k rec) inp (request_of q) s")
  obtain bs where bs: "serve_all (streams_routes v k rec) (map (\<lambda>(inp, q). (inp, request_of q)) qs) s1 = (bs, s')" "as = a # bs"
    using Cons.prems(3) x a by (auto simp: Let_def split: prod.splits)
  have ok: "call_ok inp q s" "calls_ok (streams_routes v k rec) qs s1" using Cons.prems(2) x a by simp_all
  note step = api_call_spec[OF Cons.prems(1) ok(1) a]
  then show ?case
    unfolding x bs(2) using Cons.IH[OF _ ok(2) bs(1)] by (blast intro: api_cons)
qed

text \<open>
  C6: Seen through HTTP the service is the abstract registry: for any sequence of
  calls of the stream-key endpoints under every method and with any authorisation, of the two webhooks
  with any body, and of the listing, every reply and the final state are those of the specification, as
  long as keys are drawn fresh.
\<close>

theorem service_refines_registry:
  assumes "calls_ok (streams_routes version apiKey recordings) qs newStore"
  shows "case serve_all (streams_routes version apiKey recordings) (map (\<lambda>(inp, q). (inp, request_of q)) qs) newStore of
      (replies, s) \<Rightarrow> api_run apiKey qs Map.empty replies (abs_store s)"
  using api_calls_run[OF newStore_inv assms] by (simp add: abs_store_newStore split: prod.split)

theorem service_refines_registry_witness:
  "let quiet = \<lparr>in_random = None, in_order = []\<rparr>;
       qs = [(quiet, ListCall), (\<lparr>in_random = Some ''k'', in_order = []\<rparr>, KeyCall ''POST'' ''alice'' ''Bearer secret''),
             (quiet, AuthCall ''{''), (quiet, KeyCall ''PATCH'' ''bob'' [])]
   in case serve_all (streams_routes ''dev'' ''secret'' None) (map (\<lambda>(inp, q). (inp, request_of q)) qs) newStore of
        (replies, s) \<Rightarrow> api_run ''secret'' qs Map.empty replies (abs_store s)"
proof -
  have slugs: "pathUnescape ''alice'' = ''alice''" "pathUnescape ''bob'' = ''bob''"
    by (rule pathUnescape_plain, simp)+
  show ?thesis
    unfolding Let_def
    by (rule service_refines_registry) (simp add: slugs plain_elem_def map_order_def serve_list newStore_def del: request_of.simps(1-3))
qed

end
