(* ===== verification/StreamsConcurrent.thy ===== *)
theory StreamsConcurrent
  imports StreamKeyHandler MediaMTXHandler
begin

section \<open>Requests in parallel (services/streams)\<close>

text \<open>
  \<open>net/http\<close> runs every handler in its own goroutine, and a handler takes the store's mutex once per
  store operation.  A request in flight is a task; a step of the system lets a request arrive or
  runs one critical section of one task.  The stream-key handlers have one section.  The webhooks
  have several: they look a key up, let the mutex go, and only then set the live flag.
\<close>

subsection \<open>Tasks\<close>

datatype api_call =
    CreateCall "bytes option"
  | GetCall
  | RotateCall "bytes option"
  | RevokeCall
  | ListCall "gostring list"

fun api_handler :: "api_call \<Rightarrow> handler" where
  "api_handler (CreateCall rnd) = newCreateStreamKeyHandler rnd"
| "api_handler GetCall = newGetStreamKeyHandler"
| "api_handler (RotateCall rnd) = newRotateStreamKeyHandler rnd"
| "api_handler RevokeCall = newRevokeStreamKeyHandler"
| "api_handler (ListCall order) = newListChannelsHandler order"

datatype task =
    ApiTask api_call request
  | AuthTask request
  | AuthMark gostring gostring
  | UnpublishTask request
  | UnpublishGet gostring
  | UnpublishMark gostring
  | Answered response

text \<open>The next critical section of a task, with the code up to the following one.\<close>

fun task_step :: "task \<Rightarrow> store \<Rightarrow> task \<times> store" where
  "task_step (ApiTask c r) s = (let (resp, s') = api_handler c r s in (Answered resp, s'))"
| "task_step (AuthTask r) s =
     (case decodeWebhook (rq_body r) of
        Inl err \<Rightarrow> (Answered (writeError StatusBadRequest (DecodeError err)), s)
      | Inr req \<Rightarrow>
          if wr_Action req \<noteq> ''publish'' then (Answered (writeHeader StatusOK), s)
          else case FindByKey s (presentedKey req) of
            None \<Rightarrow> (Answered (writeHeader StatusUnauthorized), s)
          | Some slug \<Rightarrow> (AuthMark (presentedKey req) slug, s))"
| "task_step (AuthMark key slug) s = (Answered (writeHeader StatusOK), snd (SetLive slug True s))"
| "task_step (UnpublishTask r) s =
     (case decodeWebhook (rq_body r) of
        Inl err \<Rightarrow> (Answered (writeError StatusBadRequest (DecodeError err)), s)
      | Inr req \<Rightarrow>
          (case FindByKey s (lastPathSegment (wr_Path req)) of
             Some slug \<Rightarrow> (UnpublishMark slug, s)
           | None \<Rightarrow> (UnpublishGet (lastPathSegment (wr_Path req)), s)))"
| "task_step (UnpublishGet segment) s =
     (case Get s segment of
        Some ch \<Rightarrow> (UnpublishMark (ch_Slug ch), s)
      | None \<Rightarrow> (Answered (writeHeader StatusOK), s))"
| "task_step (UnpublishMark slug) s = (Answered (writeHeader StatusOK), snd (SetLive slug False s))"
| "task_step (Answered resp) s = (Answered resp, s)"

text \<open>How many sections a task may still run.\<close>

fun sections_left :: "task \<Rightarrow> nat" where
  "sections_left (ApiTask c r) = 1"
| "sections_left (AuthTask r) = 2"
| "sections_left (AuthMark key slug) = 1"
| "sections_left (UnpublishTask r) = 3"
| "sections_left (UnpublishGet segment) = 2"
| "sections_left (UnpublishMark slug) = 1"
| "sections_left (Answered resp) = 0"

lemma task_step_progress: "sections_left t \<noteq> 0 \<Longrightarrow> sections_left (fst (task_step t s)) < sections_left t"
  by (cases t) (auto simp: Let_def split: sum.split option.split prod.split)

lemma sections_left_0: "sections_left t = 0 \<longleftrightarrow> (\<exists>resp. t = Answered resp)"
  by (cases t) auto

fun run_task :: "nat \<Rightarrow> task \<Rightarrow> store \<Rightarrow> task \<times> store" where
  "run_task 0 t s = (t, s)"
| "run_task (Suc n) t s = (let (t', s') = task_step t s in run_task n t' s')"

text \<open>Run without interruption, the sections of a webhook are its handler.\<close>

lemma run_auth_task:
  "run_task 2 (AuthTask r) s =
     (Answered (fst (newMediaMTXAuthHandler r s)), snd (newMediaMTXAuthHandler r s))"
  by (auto simp: numeral_2_eq_2 newMediaMTXAuthHandler_def split: sum.split option.split)

lemma run_unpublish_task:
  "run_task 3 (UnpublishTask r) s =
     (Answered (fst (newMediaMTXUnpublishHandler r s)), snd (newMediaMTXUnpublishHandler r s))"
  by (auto simp: numeral_3_eq_3 newMediaMTXUnpublishHandler_def resolveChannelFromPath_def Let_def
      split: sum.split option.split)

lemma run_api_task:
  "run_task 1 (ApiTask c r) s = (Answered (fst (api_handler c r s)), snd (api_handler c r s))"
  by (simp split: prod.split)

subsection \<open>The system\<close>

text \<open>
  The store, the tasks by request number, and a history of the keys that resolved in an
  authentication, each with its slug.
\<close>

record system =
  sy_store :: store
  sy_tasks :: "nat \<rightharpoonup> task"
  sy_resolved :: "(gostring \<times> gostring) list"

definition start_system :: "system \<Rightarrow> bool" where
  "start_system c \<longleftrightarrow> c = \<lparr>sy_store = newStore, sy_tasks = Map.empty, sy_resolved = []\<rparr>"

fun new_task :: "task \<Rightarrow> bool" where
  "new_task (ApiTask c r) = True"
| "new_task (AuthTask r) = True"
| "new_task (UnpublishTask r) = True"
| "new_task _ = False"

fun resolved_by :: "task \<Rightarrow> (gostring \<times> gostring) list" where
  "resolved_by (AuthMark key slug) = [(key, slug)]"
| "resolved_by _ = []"

fun is_auth_task :: "task \<Rightarrow> bool" where
  "is_auth_task (AuthTask r) = True"
| "is_auth_task _ = False"

inductive sys_step :: "system \<Rightarrow> system \<Rightarrow> bool" where
  arrive: "sy_tasks c i = None \<Longrightarrow> new_task t \<Longrightarrow> sys_step c (c\<lparr>sy_tasks := (sy_tasks c)(i \<mapsto> t)\<rparr>)"
| critical: "sy_tasks c i = Some t \<Longrightarrow> task_step t (sy_store c) = (t', s') \<Longrightarrow>
    sys_step c \<lparr>sy_store = s', sy_tasks = (sy_tasks c)(i \<mapsto> t'),
                sy_resolved = (if is_auth_task t then resolved_by t' else []) @ sy_resolved c\<rparr>"

inductive_cases sys_stepE: "sys_step c c'"

text \<open>
  Schedules as data: at each entry a request arrives under a free number, or the task of that number
  runs its next section; an entry that does not apply is skipped.
\<close>

fun run_schedule :: "(nat \<times> task option) list \<Rightarrow> system \<Rightarrow> system" where
  "run_schedule [] c = c"
| "run_schedule ((i, Some t) # es) c =
     run_schedule es (if sy_tasks c i = None \<and> new_task t
       then c\<lparr>sy_tasks := (sy_tasks c)(i \<mapsto> t)\<rparr> else c)"
| "run_schedule ((i, None) # es) c =
     run_schedule es
       (case sy_tasks c i of
          None \<Rightarrow> c
        | Some t \<Rightarrow>
            (let (t', s') = task_step t (sy_store c)
             in \<lparr>sy_store = s', sy_tasks = (sy_tasks c)(i \<mapsto> t'),
                 sy_resolved = (if is_auth_task t then resolved_by t' else []) @ sy_resolved c\<rparr>))"

lemma run_schedule_steps: "sys_step\<^sup>*\<^sup>* c (run_schedule es c)"
proof (induction es c rule: run_schedule.induct)
  case (2 i t es c)
  then show ?case
    by (cases "sy_tasks c i = None \<and> new_task t") (auto intro: arrive converse_rtranclp_into_rtranclp)
next
  case (3 i es c)
  show ?case
  proof (cases "sy_tasks c i")
    case None
    then show ?thesis using 3 by simp
  next
    case (Some t)
    obtain t' s' where "task_step t (sy_store c) = (t', s')" by fastforce
    with critical[OF Some this] Some 3 show ?thesis
      by (auto simp: Let_def intro: converse_rtranclp_into_rtranclp)
  qed
qed simp

definition start_state :: system where
  "start_state = \<lparr>sy_store = newStore, sy_tasks = Map.empty, sy_resolved = []\<rparr>"

lemma run_schedule_reach: "reach start_system sys_step (run_schedule es start_state)"
  by (rule reach_rtranclp[OF _ run_schedule_steps]) (simp add: reach_init start_system_def start_state_def)

subsection \<open>What holds in every interleaving\<close>

lemma api_handler_sound: "index_sound s \<Longrightarrow> index_sound (snd (api_handler c r s))"
  using index_sound_exec
  by (cases c) (auto simp: create_handler_state rotate_handler_state revoke_handler_state get_handler_state
      list_handler_state simp del: exec_op.simps)

lemma task_step_sound: "index_sound s \<Longrightarrow> index_sound (snd (task_step t s))"
  by (cases t) (auto simp: case_prod_beta intro: api_handler_sound SetLive_sound split: sum.split option.split)

text \<open>
  The system's invariant: the index is sound, and every live channel and every pending mark has a
  key in the history that resolved to it.
\<close>

definition sys_inv :: "system \<Rightarrow> bool" where
  "sys_inv c \<longleftrightarrow> index_sound (sy_store c) \<and>
     live_slugs (sy_store c) \<subseteq> snd ` set (sy_resolved c) \<and>
     (\<forall>i key slug. sy_tasks c i = Some (AuthMark key slug) \<longrightarrow> (key, slug) \<in> set (sy_resolved c))"

lemma live_slugs_SetLive: "live_slugs (snd (SetLive slug b s)) \<subseteq> live_slugs s \<union> (if b then {slug} else {})"
  by (auto simp: live_slugs_def SetLive_def split: option.splits if_splits)

lemma live_slugs_api: "live_slugs (snd (api_handler c r s)) \<subseteq> live_slugs s"
proof (cases c)
  case (CreateCall rnd)
  then show ?thesis
    by (auto simp: live_slugs_def newCreateStreamKeyHandler_def CreateKey_def Let_def
        split: option.splits if_splits sum.splits prod.splits)
next
  case (RotateCall rnd)
  then show ?thesis
    by (auto simp: live_slugs_def newRotateStreamKeyHandler_def RotateKey_def Let_def
        split: option.splits if_splits sum.splits prod.splits)
next
  case RevokeCall
  then show ?thesis
    by (auto simp: live_slugs_def newRevokeStreamKeyHandler_def RevokeKey_def Let_def
        split: option.splits if_splits sum.splits prod.splits)
qed (auto simp: get_handler_state list_handler_state)

lemma live_slugs_step:
  "live_slugs (snd (task_step t s)) \<subseteq>
     live_slugs s \<union> (case t of AuthMark key slug \<Rightarrow> {slug} | _ \<Rightarrow> {})"
proof (cases t)
  case (ApiTask c r)
  then show ?thesis using live_slugs_api[of c r s] by (simp add: case_prod_beta)
next
  case (AuthMark key slug)
  then show ?thesis using live_slugs_SetLive[of slug True s] by auto
next
  case (UnpublishMark slug)
  then show ?thesis using live_slugs_SetLive[of slug False s] by auto
qed (auto split: sum.split option.split)

text \<open>Only an authentication that has just resolved its key becomes a mark.\<close>

lemma task_step_AuthMark:
  "fst (task_step t s) = AuthMark key slug \<Longrightarrow> is_auth_task t \<and> FindByKey s key = Some slug"
  by (cases t) (auto simp: case_prod_beta split: sum.splits option.splits if_splits)

interpretation streams_sys: invariant_system start_system sys_step sys_inv
proof (unfold_locales, goal_cases)
  case (1 c)
  then show ?case
    using newStore_inv by (auto simp: start_system_def sys_inv_def live_slugs_def newStore_def store_inv_def)
next
  case (2 c c')
  from 2(2) show ?case
  proof cases
    case (arrive i t)
    then show ?thesis using 2(1) by (auto simp: sys_inv_def)
  next
    case (critical i t t' s')
    have s': "s' = snd (task_step t (sy_store c))" and t': "t' = fst (task_step t (sy_store c))"
      using critical(3) by simp_all
    have "live_slugs s' \<subseteq> snd ` set (sy_resolved c)"
    proof (cases "\<exists>key slug. t = AuthMark key slug")
      case True
      then obtain key slug where t: "t = AuthMark key slug" by blast
      then have "slug \<in> snd ` set (sy_resolved c)"
        using 2(1) critical(2) by (force simp: sys_inv_def)
      then show ?thesis
        using live_slugs_step[of t "sy_store c"] 2(1) t unfolding s' by (auto simp: sys_inv_def)
    next
      case False
      then have "live_slugs s' \<subseteq> live_slugs (sy_store c)"
        using live_slugs_step[of t "sy_store c"] unfolding s' by (cases t) auto
      then show ?thesis
        using 2(1) by (auto simp: sys_inv_def)
    qed
    moreover have "(key, slug) \<in> set (sy_resolved c')"
      if "sy_tasks c' j = Some (AuthMark key slug)" for j key slug
    proof (cases "j = i")
      case True
      then have "t' = AuthMark key slug" using that critical(1) by simp
      then show ?thesis
        using task_step_AuthMark[of t "sy_store c" key slug] critical(1) unfolding t'[symmetric] by simp
    next
      case False
      then show ?thesis using that 2(1) critical(1) by (simp add: sys_inv_def)
    qed
    ultimately show ?thesis
      using task_step_sound[of "sy_store c" t] 2(1) critical(1) s'
      unfolding sys_inv_def by simp blast
  qed
qed

subsection \<open>A mark that comes too late\<close>

text \<open>
  Between the lookup of a key and the mark, the channel may be revoked and created anew.  The old
  key no longer resolves, yet the publish is accepted and the new channel goes live.
\<close>

definition recreated :: "bytes option \<Rightarrow> gostring \<Rightarrow> store \<Rightarrow> store" where
  "recreated rnd slug s = snd (CreateKey rnd slug (snd (RevokeKey slug s)))"

lemma recreated_channel:
  assumes "channels s slug = Some rec"
  shows "channels (recreated (Some raw) slug s) slug =
    Some \<lparr>cr_slug = slug, cr_keyHash = hashKey (''sk_'' @ hex_EncodeToString raw), cr_live = False\<rparr>"
  using assms by (simp add: recreated_def RevokeKey_def CreateKey_def generateKey_def Let_def)

lemma recreated_old_key:
  assumes "index_sound s" "FindByKey s key = Some slug" "hashKey key \<noteq> hashKey (''sk_'' @ hex_EncodeToString raw)"
  shows "FindByKey (recreated (Some raw) slug s) key = None"
proof -
  obtain rec where "channels s slug = Some rec" "cr_keyHash rec = hashKey key"
    using index_soundD[OF assms(1) assms(2)[unfolded FindByKey_def]] .
  then show ?thesis
    using assms(3) by (simp add: recreated_def RevokeKey_def CreateKey_def generateKey_def Let_def FindByKey_def)
qed

end
