(* ===== verification/GoFloat.thy ===== *)
theory GoFloat
  imports GoTime
begin

section \<open>Packages strconv and time, as far as the services use them\<close>

text \<open>
  IEEE binary64 values with correct rounding, \<open>strconv.ParseFloat(s, 64)\<close>,
  \<open>strconv.FormatFloat(x, 'f', -1, 64)\<close> and \<open>time.ParseDuration\<close>, whose fractions go through
  float64 arithmetic.  All of it computes on natural numbers and integers: a finite value is a sign,
  a mantissa and a power of two.
\<close>

subsection \<open>Binary64 values\<close>

text \<open>\<open>FloatFin neg m e\<close> is \<open>m * 2 ^ e\<close> with the sign: \<open>m < 2 ^ 53\<close> and \<open>-1074 \<le> e \<le> 971\<close>, and \<open>2 ^ 52 \<le> m\<close> unless \<open>e = -1074\<close>.\<close>

datatype float64 = FloatFin bool nat int | FloatInf bool | FloatNaN

fun canonical_float :: "float64 \<Rightarrow> bool" where
  "canonical_float (FloatFin neg m e) =
     (m < 2 ^ 53 \<and> -1074 \<le> e \<and> e \<le> 971 \<and> (2 ^ 52 \<le> m \<or> e = -1074))"
| "canonical_float (FloatInf neg) = True"
| "canonical_float FloatNaN = True"

fun bit_len :: "nat \<Rightarrow> nat" where
  "bit_len n = (if n = 0 then 0 else Suc (bit_len (n div 2)))"

declare bit_len.simps [simp del]

text \<open>The quotient \<open>num / (den * 2 ^ e)\<close> rounded to the nearest integer, halves to even.\<close>

definition scaled :: "nat \<Rightarrow> nat \<Rightarrow> int \<Rightarrow> nat \<times> nat" where
  "scaled num den e = (if 0 \<le> e then (num, den * 2 ^ nat e) else (num * 2 ^ nat (- e), den))"

definition round_half_even :: "nat \<Rightarrow> nat \<Rightarrow> nat" where
  "round_half_even n d =
     (let q = n div d; r = n mod d
      in if d < 2 * r \<or> (2 * r = d \<and> odd q) then Suc q else q)"

text \<open>
  The exponent of the binade that holds \<open>num / den\<close>, at least that of the subnormals, then the
  rounded mantissa; a mantissa that rounds up to \<open>2 ^ 53\<close> moves to the next binade.
\<close>

definition binade :: "nat \<Rightarrow> nat \<Rightarrow> int" where
  "binade num den =
     (let e = int (bit_len num) - int (bit_len den) - 53;
          (n, d) = scaled num den e;
          e' = (if 2 ^ 53 \<le> n div d then e + 1 else e)
      in max e' (-1074))"

definition round_pos :: "nat \<Rightarrow> nat \<Rightarrow> nat \<times> int" where
  "round_pos num den =
     (let e = binade num den;
          (n, d) = scaled num den e;
          m = round_half_even n d
      in if m = 2 ^ 53 then (2 ^ 52, e + 1) else (m, e))"

text \<open>\<open>None\<close> is an overflow, the \<open>ErrRange\<close> of \<open>strconv\<close>.\<close>

definition to_float :: "bool \<Rightarrow> nat \<Rightarrow> nat \<Rightarrow> float64 option" where
  "to_float neg num den =
     (let (m, e) = round_pos num den in if 971 < e then None else Some (FloatFin neg m e))"

subsection \<open>strconv.ParseFloat\<close>

datatype num_error = ErrSyntax | ErrRange

definition is_dec_digit :: "char \<Rightarrow> bool" where
  "is_dec_digit c = byte_in 48 57 c"

definition digit_val :: "char \<Rightarrow> nat" where
  "digit_val c = of_char c - 48"

definition hex_char_val :: "char \<Rightarrow> nat option" where
  "hex_char_val c =
     (if is_dec_digit c then Some (digit_val c)
      else if byte_in 97 102 (lower_byte c) then Some (of_char (lower_byte c) - 87)
      else None)"

text \<open>\<open>underscoreOK\<close>: underscores only between digits or between the base prefix and a digit.\<close>

fun underscore_scan :: "bool \<Rightarrow> char \<Rightarrow> gostring \<Rightarrow> bool" where
  "underscore_scan hex i [] = (i \<noteq> CHR ''_'')"
| "underscore_scan hex i (c # cs) =
     (if is_dec_digit c \<or> (hex \<and> byte_in 97 102 (lower_byte c)) then underscore_scan hex CHR ''0'' cs
      else if c = CHR ''_'' then i = CHR ''0'' \<and> underscore_scan hex CHR ''_'' cs
      else i \<noteq> CHR ''_'' \<and> underscore_scan hex CHR ''!'' cs)"

definition drop_sign :: "gostring \<Rightarrow> bool \<times> gostring" where
  "drop_sign s =
     (case s of
        c # cs \<Rightarrow> if c = CHR ''+'' then (False, cs) else if c = CHR ''-'' then (True, cs) else (False, s)
      | [] \<Rightarrow> (False, []))"

definition underscoreOK :: "gostring \<Rightarrow> bool" where
  "underscoreOK s0 =
     (let (_, s) = drop_sign s0
      in case s of
           z # p # rest \<Rightarrow>
             if z = CHR ''0'' \<and> lower_byte p \<in> set ''box''
             then underscore_scan (lower_byte p = CHR ''x'') CHR ''0'' rest
             else underscore_scan False CHR ''^'' s
         | _ \<Rightarrow> underscore_scan False CHR ''^'' s)"

text \<open>
  The mantissa loop of \<open>readFloat\<close>: the value of all digits, the number of those after the point,
  whether a digit, a point and an underscore were seen, and the rest.
\<close>

record mantissa =
  mn_val :: nat
  mn_frac :: nat
  mn_digits :: bool
  mn_dot :: bool
  mn_under :: bool

fun read_mantissa :: "nat \<Rightarrow> gostring \<Rightarrow> mantissa \<Rightarrow> mantissa \<times> gostring" where
  "read_mantissa base [] mn = (mn, [])"
| "read_mantissa base (c # cs) mn =
     (if c = CHR ''_'' then read_mantissa base cs (mn\<lparr>mn_under := True\<rparr>)
      else if c = CHR ''.'' then
        (if mn_dot mn then (mn, c # cs) else read_mantissa base cs (mn\<lparr>mn_dot := True\<rparr>))
      else (case hex_char_val c of
              Some d \<Rightarrow>
                if d < base then
                  read_mantissa base cs
                    (mn\<lparr>mn_val := mn_val mn * base + d, mn_digits := True,
                        mn_frac := (if mn_dot mn then Suc (mn_frac mn) else mn_frac mn)\<rparr>)
                else (mn, c # cs)
            | None \<Rightarrow> (mn, c # cs)))"

text \<open>The digits of an exponent; they stop counting once the value has reached 10000.\<close>

fun read_exp :: "gostring \<Rightarrow> nat \<Rightarrow> bool \<Rightarrow> nat \<times> bool \<times> gostring" where
  "read_exp [] e us = (e, us, [])"
| "read_exp (c # cs) e us =
     (if c = CHR ''_'' then read_exp cs e True
      else if is_dec_digit c then read_exp cs (if e < 10000 then e * 10 + digit_val c else e) us
      else (e, us, c # cs))"

text \<open>The optional exponent after the mantissa: its value, or \<open>None\<close> if it is malformed.\<close>

definition read_exponent :: "char \<Rightarrow> bool \<Rightarrow> gostring \<Rightarrow> (int \<times> bool \<times> gostring) option" where
  "read_exponent marker required s =
     (case s of
        c # cs \<Rightarrow>
          if lower_byte c = marker then
            (let (neg, ds) = drop_sign cs
             in if ds = [] \<or> \<not> is_dec_digit (hd ds) then None
                else let (e, us, rest) = read_exp ds 0 False
                     in Some (if neg then - int e else int e, us, rest))
          else if required then None else Some (0, False, s)
      | [] \<Rightarrow> if required then None else Some (0, False, []))"

text \<open>\<open>special\<close>: the whole string spells an infinity or NaN, in any case.\<close>

definition special_float :: "gostring \<Rightarrow> float64 option" where
  "special_float s =
     (let (neg, t) = drop_sign s; u = ToLower t
      in if u = ''inf'' \<or> u = ''infinity'' then Some (FloatInf neg)
         else if ToLower s = ''nan'' then Some FloatNaN
         else None)"

definition float_value :: "bool \<Rightarrow> nat \<Rightarrow> nat \<Rightarrow> int \<Rightarrow> float64 option" where
  "float_value neg m base e =
     (if m = 0 then Some (FloatFin neg 0 (-1074))
      else if 0 \<le> e then to_float neg (m * base ^ nat e) 1
      else to_float neg m (base ^ nat (- e)))"

definition ParseFloat :: "gostring \<Rightarrow> num_error + float64" where
  "ParseFloat s =
     (case special_float s of
        Some x \<Rightarrow> Inr x
      | None \<Rightarrow>
          (let (neg, t) = drop_sign s;
               hex = (2 < length t \<and> hd t = CHR ''0'' \<and> lower_byte (t ! 1) = CHR ''x'');
               base = (if hex then 16 else 10);
               (mn, rest) = read_mantissa base (if hex then drop 2 t else t)
                  \<lparr>mn_val = 0, mn_frac = 0, mn_digits = False, mn_dot = False, mn_under = False\<rparr>
           in if \<not> mn_digits mn then Inl ErrSyntax
              else (case read_exponent (if hex then CHR ''p'' else CHR ''e'') hex rest of
                      None \<Rightarrow> Inl ErrSyntax
                    | Some (e, us, rest') \<Rightarrow>
                        if rest' \<noteq> [] \<or> ((mn_under mn \<or> us) \<and> \<not> underscoreOK s) then Inl ErrSyntax
                        else (case (if hex then float_value neg (mn_val mn) 2 (e - 4 * int (mn_frac mn))
                                    else float_value neg (mn_val mn) 10 (e - int (mn_frac mn))) of
                                None \<Rightarrow> Inl ErrRange
                              | Some x \<Rightarrow> Inr x))))"

subsection \<open>strconv.FormatFloat\<close>

text \<open>
  The shortest decimal that still rounds to \<open>m * 2 ^ e\<close>.  With the value and the two ends of its
  rounding interval as fractions \<open>x\<close>, \<open>lo\<close>, \<open>hi\<close> over \<open>den\<close>, look at ever smaller powers of ten
  for a multiple inside the interval: the value cut at that digit, or one more, whichever is nearer
  if both are (ties to the even digit).  The ends belong to the interval if the mantissa is even.
  The last argument counts the digits still to try; below \<open>low\<close> the cut is exact.
\<close>

fun shortest_from :: "bool \<Rightarrow> nat \<Rightarrow> nat \<Rightarrow> nat \<Rightarrow> nat \<Rightarrow> int \<Rightarrow> nat \<Rightarrow> nat \<times> int" where
  "shortest_from incl lo x hi den low d =
     (let p = low + int d;
          (s, t) = (if 0 \<le> p then (1, den * 10 ^ nat p) else (10 ^ nat (- p), den));
          k = x * s div t;
          down = (lo * s < k * t \<or> (incl \<and> k * t = lo * s));
          up = (Suc k * t < hi * s \<or> (incl \<and> Suc k * t = hi * s));
          half_up = (Suc (2 * k) * t < 2 * (x * s) \<or> (Suc (2 * k) * t = 2 * (x * s) \<and> odd k))
      in if down \<and> up then (if half_up then Suc k else k, p)
         else if down then (k, p)
         else if up then (Suc k, p)
         else case d of 0 \<Rightarrow> (k, p) | Suc d' \<Rightarrow> shortest_from incl lo x hi den low d')"

declare shortest_from.simps [simp del]

definition shortest_decimal :: "nat \<Rightarrow> int \<Rightarrow> nat \<times> int" where
  "shortest_decimal m e =
     (let (n, den) = (if 2 \<le> e then (2 ^ nat (e - 2), 1) else (1, 2 ^ nat (2 - e)));
          x = 4 * m * n; hi = (4 * m + 2) * n;
          lo = (if m = 2 ^ 52 \<and> -1074 < e then 4 * m - 1 else 4 * m - 2) * n;
          low = min 0 e
      in shortest_from (even m) lo x hi den low (nat (int (length (dec_digits (hi div den))) - low)))"

definition format_fixed :: "nat \<Rightarrow> int \<Rightarrow> gostring" where
  "format_fixed k p =
     (if 0 \<le> p then dec_digits (k * 10 ^ nat p)
      else
        let q = nat (- p);
            frac = TrimRight (pad_digits q (k mod 10 ^ q)) ''0''
        in dec_digits (k div 10 ^ q) @ (if frac = [] then [] else CHR ''.'' # frac))"

text \<open>\<open>strconv.FormatFloat(x, 'f', -1, 64)\<close>\<close>

definition FormatFloat :: "float64 \<Rightarrow> gostring" where
  "FormatFloat f =
     (case f of
        FloatNaN \<Rightarrow> ''NaN''
      | FloatInf neg \<Rightarrow> if neg then ''-Inf'' else ''+Inf''
      | FloatFin neg m e \<Rightarrow>
          (if neg then ''-'' else []) @
          (if m = 0 then ''0'' else let (k, p) = shortest_decimal m e in format_fixed k p))"

subsection \<open>time.ParseDuration\<close>

text \<open>The units in nanoseconds; the two micro signs are U+00B5 and U+03BC.\<close>

definition unitMap :: "(gostring \<times> nat) list" where
  "unitMap =
     [(''ns'', 1), (''us'', 1000), ([CHR 0xC2, CHR 0xB5, CHR ''s''], 1000),
      ([CHR 0xCE, CHR 0xBC, CHR ''s''], 1000), (''ms'', 1000000), (''s'', 1000000000),
      (''m'', 60000000000), (''h'', 3600000000000)]"

text \<open>\<open>leadingInt\<close>: \<open>None\<close> is its overflow error.\<close>

fun leadingInt :: "gostring \<Rightarrow> nat \<Rightarrow> (nat \<times> gostring) option" where
  "leadingInt [] x = Some (x, [])"
| "leadingInt (c # cs) x =
     (if \<not> is_dec_digit c then Some (x, c # cs)
      else if 2 ^ 63 div 10 < x then None
      else let y = x * 10 + digit_val c in if 2 ^ 63 < y then None else leadingInt cs y)"

text \<open>
  Positive float64 arithmetic as \<open>ParseDuration\<close> does it: \<open>(m, e)\<close> is \<open>m * 2 ^ e\<close>, \<open>None\<close> is
  infinity.
\<close>

type_synonym pos_float = "(nat \<times> int) option"

definition fit_float :: "nat \<times> int \<Rightarrow> pos_float" where
  "fit_float x = (if 971 < snd x then None else Some x)"

definition float_of_nat :: "nat \<Rightarrow> pos_float" where
  "float_of_nat n = fit_float (round_pos n 1)"

definition round_scaled :: "nat \<Rightarrow> nat \<Rightarrow> int \<Rightarrow> pos_float" where
  "round_scaled num den e =
     (if num = 0 then Some (0, 0)
      else fit_float (if 0 \<le> e then round_pos (num * 2 ^ nat e) den else round_pos num (den * 2 ^ nat (- e))))"

definition float_mul :: "pos_float \<Rightarrow> pos_float \<Rightarrow> pos_float" where
  "float_mul x y =
     (case (x, y) of (Some (a, i), Some (b, j)) \<Rightarrow> round_scaled (a * b) 1 (i + j) | _ \<Rightarrow> None)"

text \<open>Division by a positive value; a finite value divided by infinity is zero.\<close>

definition float_div :: "nat \<times> int \<Rightarrow> pos_float \<Rightarrow> pos_float" where
  "float_div x y =
     (case y of Some (b, j) \<Rightarrow> round_scaled (fst x) b (snd x - j) | None \<Rightarrow> Some (0, 0))"

definition float_trunc :: "pos_float \<Rightarrow> nat" where
  "float_trunc x =
     (case x of Some (m, e) \<Rightarrow> if 0 \<le> e then m * 2 ^ nat e else m div 2 ^ nat (- e) | None \<Rightarrow> 0)"

text \<open>\<open>leadingFraction\<close>: digits past the precision of an int64 are read and ignored.\<close>

fun leadingFraction :: "gostring \<Rightarrow> nat \<Rightarrow> pos_float \<Rightarrow> bool \<Rightarrow> nat \<times> pos_float \<times> gostring" where
  "leadingFraction [] x scale overflow = (x, scale, [])"
| "leadingFraction (c # cs) x scale overflow =
     (if \<not> is_dec_digit c then (x, scale, c # cs)
      else if overflow then leadingFraction cs x scale True
      else if (2 ^ 63 - 1) div 10 < x then leadingFraction cs x scale True
      else let y = x * 10 + digit_val c in
        if 2 ^ 63 < y then leadingFraction cs x scale True
        else leadingFraction cs y (float_mul scale (float_of_nat 10)) False)"

definition unit_text :: "gostring \<Rightarrow> gostring" where
  "unit_text s = takeWhile (\<lambda>c. \<not> (c = CHR ''.'' \<or> is_dec_digit c)) s"

text \<open>
  One number with its unit: the nanoseconds it stands for and the rest of the string.  The factor
  \<open>float64(f) * (float64(unit) / scale)\<close> is rounded after each operation.
\<close>

definition duration_item :: "gostring \<Rightarrow> (nat \<times> gostring) option" where
  "duration_item s =
     (if s = [] \<or> \<not> (hd s = CHR ''.'' \<or> is_dec_digit (hd s)) then None
      else case leadingInt s 0 of
        None \<Rightarrow> None
      | Some (v, s1) \<Rightarrow>
          (let pre = (length s1 \<noteq> length s);
               dot = (s1 \<noteq> [] \<and> hd s1 = CHR ''.'');
               (f, scale, s2) =
                 (if dot then leadingFraction (tl s1) 0 (Some (1, 0)) False else (0, Some (1, 0), s1));
               post = (dot \<and> length s2 \<noteq> length (tl s1));
               u = unit_text s2
           in if (\<not> pre \<and> \<not> post) \<or> u = [] then None
              else case map_of unitMap u of
                None \<Rightarrow> None
              | Some unit \<Rightarrow>
                  if 2 ^ 63 div unit < v then None
                  else let w = v * unit +
                         (if 0 < f then float_trunc (float_mul (float_of_nat f) (float_div (unit, 0) scale)) else 0)
                       in if 2 ^ 63 < w then None else Some (w, drop (length u) s2)))"

lemma leadingInt_length: "leadingInt s x = Some (v, t) \<Longrightarrow> length t \<le> length s"
  by (induction s arbitrary: x) (fastforce simp: Let_def split: if_splits)+

lemma leadingFraction_length: "leadingFraction s x sc ov = (v, sc', t) \<Longrightarrow> length t \<le> length s"
  by (induction s arbitrary: x sc ov) (fastforce simp: Let_def split: if_splits)+

lemma duration_item_length:
  assumes "duration_item s = Some (v, t)"
  shows "length t < length s"
proof -
  obtain w s1 where 1: "leadingInt s 0 = Some (w, s1)"
    using assms by (auto simp: duration_item_def split: if_splits option.splits)
  show ?thesis
  proof (cases "s1 \<noteq> [] \<and> hd s1 = CHR ''.''")
    case True
    obtain f scale s2 where 2: "leadingFraction (tl s1) 0 (Some (1, 0)) False = (f, scale, s2)"
      by (metis prod_cases3)
    have "unit_text s2 \<noteq> []" "t = drop (length (unit_text s2)) s2"
      using assms 1 2 True by (auto simp: duration_item_def Let_def split: if_splits option.splits)
    moreover from this have "s2 \<noteq> []" by (auto simp: unit_text_def)
    ultimately show ?thesis
      using leadingInt_length[OF 1] leadingFraction_length[OF 2] by (cases s1) auto
  next
    case False
    then have "unit_text s1 \<noteq> []" "t = drop (length (unit_text s1)) s1"
      using assms 1 by (auto simp: duration_item_def Let_def split: if_splits option.splits)
    moreover from this have "s1 \<noteq> []" by (auto simp: unit_text_def)
    ultimately show ?thesis
      using leadingInt_length[OF 1] by (cases s1; cases "unit_text s1") auto
  qed
qed

text \<open>The loop over items; the sum is a uint64, checked against \<open>2 ^ 63\<close> after each addition.\<close>

function duration_sum :: "gostring \<Rightarrow> nat \<Rightarrow> nat option" where
  "duration_sum s d =
     (if s = [] then Some d
      else case duration_item s of
        None \<Rightarrow> None
      | Some (v, t) \<Rightarrow>
          (let d' = (d + v) mod 2 ^ 64 in if 2 ^ 63 < d' then None else duration_sum t d'))"
  by pat_completeness auto
termination
  by (relation "measure (\<lambda>(s, d). length s)") (auto dest: duration_item_length)

declare duration_sum.simps [simp del]

text \<open>\<open>None\<close> is an error; the result is in nanoseconds.\<close>

definition ParseDuration :: "gostring \<Rightarrow> int option" where
  "ParseDuration s0 =
     (let (neg, s) = drop_sign s0
      in if s = ''0'' then Some 0
         else if s = [] then None
         else case duration_sum s 0 of
           None \<Rightarrow> None
         | Some d \<Rightarrow> if neg then Some (- int d) else if 2 ^ 63 - 1 < d then None else Some (int d))"

lemma duration_sum_bound: "duration_sum s d = Some n \<Longrightarrow> d \<le> 2 ^ 63 \<Longrightarrow> n \<le> 2 ^ 63"
proof (induction s d rule: duration_sum.induct)
  case (1 s d)
  show ?case
  proof (cases "s = []")
    case True
    have "duration_sum [] d = Some d" by (simp add: duration_sum.simps[of "[]" d])
    then show ?thesis using 1(2,3) True by simp
  next
    case False
    then obtain v t where "duration_item s = Some (v, t)"
      using 1(2) by (auto simp: duration_sum.simps[of s d] split: option.splits)
    then show ?thesis
      using 1 False by (auto simp: duration_sum.simps[of s d] Let_def split: if_splits)
  qed
qed

text \<open>Every accepted duration is an int64.\<close>

lemma ParseDuration_int64: "ParseDuration s = Some d \<Longrightarrow> - (2 ^ 63) \<le> d \<and> d < 2 ^ 63"
  by (auto simp: ParseDuration_def Let_def split: if_splits option.splits prod.splits dest!: duration_sum_bound)

end
