(* ===== verification/VodRecorder.thy ===== *)
theory VodRecorder
  imports GoFloat S3Client
begin

section \<open>The segment uploader (services/vod-recorder)\<close>

text \<open>
  The process MediaMTX starts for each finished recording segment: its configuration and the segment
  from environment variables (\<open>env.go\<close>), the object it writes (\<open>uploader.go\<close>), and the run of
  \<open>main\<close> over a world of local files and bucket objects.  The file system may refuse to open or to
  remove a file and the S3 client may refuse a put: those answers are parameters.
\<close>

subsection \<open>env.go\<close>

text \<open>Thirty minutes, in nanoseconds.\<close>

definition defaultUploadTimeout :: int where
  "defaultUploadTimeout = 30 * 60 * 1000000000"

record config =
  cf_Endpoint :: gostring
  cf_Bucket :: gostring
  cf_AccessKey :: gostring
  cf_SecretKey :: gostring
  cf_UsePathStyle :: bool
  cf_UploadTimeout :: int

datatype env_error =
    MissingVar gostring
  | BadTimeout gostring
  | BadPath gostring
  | BadDuration gostring num_error

text \<open>
  The loop over the required variables ranges over a map: which of several missing variables the
  error names depends on the visiting order, the first argument.
\<close>

definition required_vars :: "config \<Rightarrow> gostring \<rightharpoonup> gostring" where
  "required_vars cfg =
     [''S3_ENDPOINT'' \<mapsto> cf_Endpoint cfg, ''S3_BUCKET'' \<mapsto> cf_Bucket cfg,
      ''S3_ACCESS_KEY'' \<mapsto> cf_AccessKey cfg, ''S3_SECRET_KEY'' \<mapsto> cf_SecretKey cfg]"

definition required_names :: "gostring list" where
  "required_names = [''S3_ENDPOINT'', ''S3_BUCKET'', ''S3_ACCESS_KEY'', ''S3_SECRET_KEY'']"

fun first_missing :: "gostring list \<Rightarrow> (gostring \<rightharpoonup> gostring) \<Rightarrow> gostring option" where
  "first_missing [] vars = None"
| "first_missing (name # names) vars =
     (if vars name = Some [] then Some name else first_missing names vars)"

definition loadConfig :: "gostring list \<Rightarrow> (gostring \<Rightarrow> gostring) \<Rightarrow> env_error + config" where
  "loadConfig order getenv =
     (let cfg = \<lparr>cf_Endpoint = getenv ''S3_ENDPOINT'', cf_Bucket = getenv ''S3_BUCKET'',
                 cf_AccessKey = getenv ''S3_ACCESS_KEY'', cf_SecretKey = getenv ''S3_SECRET_KEY'',
                 cf_UsePathStyle = (getenv ''S3_USE_PATH_STYLE'' \<noteq> ''false''),
                 cf_UploadTimeout = defaultUploadTimeout\<rparr>
      in case first_missing order (required_vars cfg) of
           Some name \<Rightarrow> Inl (MissingVar name)
         | None \<Rightarrow>
             (let raw = getenv ''S3_UPLOAD_TIMEOUT'' in
              if raw \<noteq> [] then
                (case ParseDuration raw of
                   None \<Rightarrow> Inl (BadTimeout raw)
                 | Some d \<Rightarrow> Inr (cfg\<lparr>cf_UploadTimeout := d\<rparr>))
              else Inr cfg))"

record segment =
  sg_Path :: gostring
  sg_LocalPath :: gostring
  sg_Duration :: float64

definition vodContainsPathTraversal :: "gostring \<Rightarrow> bool" where
  "vodContainsPathTraversal s = ContainsAny s [CHR ''/'', CHR 0x5C]"

definition loadSegment :: "(gostring \<Rightarrow> gostring) \<Rightarrow> env_error + segment" where
  "loadSegment getenv =
     (let path = getenv ''MTX_PATH'' in
      if path = [] then Inl (MissingVar ''MTX_PATH'')
      else if vodContainsPathTraversal path then Inl (BadPath path)
      else
        let localPath = getenv ''MTX_SEGMENT_PATH'' in
        if localPath = [] then Inl (MissingVar ''MTX_SEGMENT_PATH'')
        else
          let durationStr = getenv ''MTX_SEGMENT_DURATION'' in
          case ParseFloat durationStr of
            Inl err \<Rightarrow> Inl (BadDuration durationStr err)
          | Inr duration \<Rightarrow> Inr \<lparr>sg_Path = path, sg_LocalPath = localPath, sg_Duration = duration\<rparr>)"

subsection \<open>uploader.go\<close>

text \<open>The recorder has its own \<open>staticCredentials\<close>, of the same shape.\<close>

definition vodRetrieve :: "staticCredentials \<Rightarrow> unit \<Rightarrow> gostring + aws_Credentials" where
  "vodRetrieve c ctx = Inr c"

definition newS3Client :: "config \<Rightarrow> s3_Options" where
  "newS3Client cfg =
     s3_options vodRetrieve (cf_Endpoint cfg) (cf_UsePathStyle cfg) (cf_AccessKey cfg) (cf_SecretKey cfg)"

definition objectKey :: "segment \<Rightarrow> gostring" where
  "objectKey seg = path_Join [''recordings'', sg_Path seg, filepath_Base (sg_LocalPath seg)]"

definition contentType :: "gostring \<Rightarrow> gostring" where
  "contentType localPath =
     (let ext = ToLower (filepath_Ext localPath) in
      if ext = ''.mp4'' then ''video/mp4''
      else if ext = ''.ts'' then ''video/mp2t''
      else ''application/octet-stream'')"

text \<open>The fields of \<open>PutObjectInput\<close> the code sets, and the stored object.\<close>

record put_input =
  pi_Bucket :: gostring
  pi_Key :: gostring
  pi_Body :: bytes
  pi_ContentType :: gostring
  pi_Metadata :: "gostring \<rightharpoonup> gostring"

record stored_object =
  so_Body :: bytes
  so_ContentType :: gostring
  so_Metadata :: "gostring \<rightharpoonup> gostring"

text \<open>
  The world of one run: local files, and objects by bucket and key.  \<open>open_file\<close> and \<open>remove_file\<close>
  answer with an error or let the call through; \<open>put_object\<close> is the answer of the storage service
  to that client under that deadline (in nanoseconds), with the objects after the call.
\<close>

record world =
  files :: "gostring \<rightharpoonup> bytes"
  objects :: "gostring \<times> gostring \<rightharpoonup> stored_object"

record environment =
  open_file :: "gostring \<Rightarrow> gostring option"
  remove_file :: "gostring \<Rightarrow> gostring option"
  put_object :: "s3_Options \<Rightarrow> int \<Rightarrow> put_input \<Rightarrow> (gostring \<times> gostring \<rightharpoonup> stored_object)
     \<Rightarrow> gostring option \<times> (gostring \<times> gostring \<rightharpoonup> stored_object)"

datatype upload_error =
    OpenError gostring gostring
  | UploadError gostring gostring gostring

definition upload_input :: "gostring \<Rightarrow> segment \<Rightarrow> bytes \<Rightarrow> put_input" where
  "upload_input bucket seg body =
     \<lparr>pi_Bucket = bucket, pi_Key = objectKey seg, pi_Body = body,
      pi_ContentType = contentType (sg_LocalPath seg),
      pi_Metadata = [''duration-seconds'' \<mapsto> FormatFloat (sg_Duration seg)]\<rparr>"

text \<open>\<open>os.Open\<close>: the error of the file system, or the \<open>PathError\<close> of a file that does not exist.\<close>

definition os_Open :: "environment \<Rightarrow> gostring \<Rightarrow> world \<Rightarrow> gostring + bytes" where
  "os_Open env path w =
     (case open_file env path of
        Some err \<Rightarrow> Inl err
      | None \<Rightarrow>
          (case files w path of
             None \<Rightarrow> Inl (''open '' @ path @ '': no such file or directory'')
           | Some body \<Rightarrow> Inr body))"

definition uploadSegment ::
  "environment \<Rightarrow> int \<Rightarrow> s3_Options \<Rightarrow> gostring \<Rightarrow> segment \<Rightarrow> world \<Rightarrow> upload_error option \<times> world" where
  "uploadSegment env timeout client bucket seg w =
     (case os_Open env (sg_LocalPath seg) w of
        Inl err \<Rightarrow> (Some (OpenError (sg_LocalPath seg) err), w)
      | Inr f \<Rightarrow>
          (let (res, objs) = put_object env client timeout (upload_input bucket seg f) (objects w)
           in case res of
                Some err \<Rightarrow> (Some (UploadError bucket (objectKey seg) err), w\<lparr>objects := objs\<rparr>)
              | None \<Rightarrow> (None, w\<lparr>objects := objs\<rparr>)))"

subsection \<open>main.go\<close>

text \<open>How the process ends: \<open>log.Fatalf\<close> exits with status 1, otherwise it returns.\<close>

datatype fatal_error = EnvError env_error | SegmentError upload_error

datatype outcome =
    Fatal fatal_error
  | Uploaded "gostring option"

definition os_Remove :: "environment \<Rightarrow> gostring \<Rightarrow> world \<Rightarrow> gostring option \<times> world" where
  "os_Remove env path w =
     (case remove_file env path of
        Some err \<Rightarrow> (Some err, w)
      | None \<Rightarrow>
          (case files w path of
             None \<Rightarrow> (Some (''remove '' @ path @ '': no such file or directory''), w)
           | Some _ \<Rightarrow> (None, w\<lparr>files := (files w)(path := None)\<rparr>)))"

definition vod_main ::
  "environment \<Rightarrow> gostring list \<Rightarrow> (gostring \<Rightarrow> gostring) \<Rightarrow> world \<Rightarrow> outcome \<times> world" where
  "vod_main env order getenv w =
     (case loadConfig order getenv of
        Inl err \<Rightarrow> (Fatal (EnvError err), w)
      | Inr cfg \<Rightarrow>
          (case loadSegment getenv of
             Inl err \<Rightarrow> (Fatal (EnvError err), w)
           | Inr seg \<Rightarrow>
               (case uploadSegment env (cf_UploadTimeout cfg) (newS3Client cfg) (cf_Bucket cfg) seg w of
                  (Some err, w') \<Rightarrow> (Fatal (SegmentError err), w')
                | (None, w') \<Rightarrow>
                    (let (res, w'') = os_Remove env (sg_LocalPath seg) w'
                     in (Uploaded res, w'')))))"

subsection \<open>Loading the environment\<close>

lemma first_missing_None_iff:
  "first_missing names vars = None \<longleftrightarrow> (\<forall>name\<in>set names. vars name \<noteq> Some [])"
  by (induction names) auto

lemma first_missing_Some:
  "first_missing names vars = Some name \<Longrightarrow> name \<in> set names \<and> vars name = Some []"
  by (induction names) (auto split: if_splits)

text \<open>The orders a range over the four required variables may take.\<close>

definition required_order :: "gostring list \<Rightarrow> bool" where
  "required_order order \<longleftrightarrow> distinct order \<and> set order = set required_names"

lemma required_vars_lookup [simp]:
  "required_vars cfg ''S3_ENDPOINT'' = Some (cf_Endpoint cfg)"
  "required_vars cfg ''S3_BUCKET'' = Some (cf_Bucket cfg)"
  "required_vars cfg ''S3_ACCESS_KEY'' = Some (cf_AccessKey cfg)"
  "required_vars cfg ''S3_SECRET_KEY'' = Some (cf_SecretKey cfg)"
  by (simp_all add: required_vars_def)

lemma no_missing_iff:
  assumes "required_order order"
  shows "first_missing order (required_vars cfg) = None \<longleftrightarrow>
    cf_Endpoint cfg \<noteq> [] \<and> cf_Bucket cfg \<noteq> [] \<and> cf_AccessKey cfg \<noteq> [] \<and> cf_SecretKey cfg \<noteq> []"
  using assms by (simp add: first_missing_None_iff required_order_def required_names_def)

lemma missing_Some:
  assumes "required_order order" "first_missing order (required_vars cfg) = Some name"
  shows "name \<in> set required_names \<and> required_vars cfg name = Some []"
  using first_missing_Some[OF assms(2)] assms(1) by (simp add: required_order_def)

text \<open>The configuration the environment describes, with this upload timeout.\<close>

definition env_config :: "(gostring \<Rightarrow> gostring) \<Rightarrow> int \<Rightarrow> config" where
  "env_config getenv timeout =
     \<lparr>cf_Endpoint = getenv ''S3_ENDPOINT'', cf_Bucket = getenv ''S3_BUCKET'',
      cf_AccessKey = getenv ''S3_ACCESS_KEY'', cf_SecretKey = getenv ''S3_SECRET_KEY'',
      cf_UsePathStyle = (getenv ''S3_USE_PATH_STYLE'' \<noteq> ''false''), cf_UploadTimeout = timeout\<rparr>"

lemma loadConfig_eq:
  "loadConfig order getenv =
     (case first_missing order (required_vars (env_config getenv defaultUploadTimeout)) of
        Some name \<Rightarrow> Inl (MissingVar name)
      | None \<Rightarrow>
          if getenv ''S3_UPLOAD_TIMEOUT'' = [] then Inr (env_config getenv defaultUploadTimeout)
          else case ParseDuration (getenv ''S3_UPLOAD_TIMEOUT'') of
            None \<Rightarrow> Inl (BadTimeout (getenv ''S3_UPLOAD_TIMEOUT''))
          | Some d \<Rightarrow> Inr (env_config getenv d))"
  unfolding loadConfig_def Let_def env_config_def[symmetric]
  by (simp add: env_config_def split: option.split)

definition env_complete :: "(gostring \<Rightarrow> gostring) \<Rightarrow> bool" where
  "env_complete getenv = list_all (\<lambda>name. getenv name \<noteq> []) required_names"

definition env_timeout :: "(gostring \<Rightarrow> gostring) \<Rightarrow> int option" where
  "env_timeout getenv =
     (if getenv ''S3_UPLOAD_TIMEOUT'' = [] then Some defaultUploadTimeout
      else ParseDuration (getenv ''S3_UPLOAD_TIMEOUT''))"

lemma no_missing_env:
  "required_order order \<Longrightarrow>
     first_missing order (required_vars (env_config getenv timeout)) = None \<longleftrightarrow> env_complete getenv"
  by (simp add: no_missing_iff env_config_def env_complete_def required_names_def)

lemma loadConfig_complete:
  "required_order order \<Longrightarrow> env_complete getenv \<Longrightarrow>
     loadConfig order getenv =
       (case env_timeout getenv of
          None \<Rightarrow> Inl (BadTimeout (getenv ''S3_UPLOAD_TIMEOUT''))
        | Some d \<Rightarrow> Inr (env_config getenv d))"
  using no_missing_env[of order getenv defaultUploadTimeout]
  by (simp add: loadConfig_eq env_timeout_def)

lemma loadConfig_incomplete:
  assumes "required_order order" "\<not> env_complete getenv"
  shows "\<exists>name\<in>set required_names. getenv name = [] \<and> loadConfig order getenv = Inl (MissingVar name)"
proof -
  obtain name where "first_missing order (required_vars (env_config getenv defaultUploadTimeout)) = Some name"
    using assms no_missing_env by blast
  moreover from this have "name \<in> set required_names"
    "required_vars (env_config getenv defaultUploadTimeout) name = Some []"
    using missing_Some[OF assms(1)] by blast+
  ultimately show ?thesis
    by (intro bexI[of _ name]) (auto simp: loadConfig_eq required_names_def env_config_def)
qed

lemma loadConfig_Inr_iff:
  assumes "required_order order"
  shows "loadConfig order getenv = Inr cfg \<longleftrightarrow>
    env_complete getenv \<and> (\<exists>d. env_timeout getenv = Some d \<and> cfg = env_config getenv d)"
proof (cases "env_complete getenv")
  case True
  then show ?thesis by (auto simp: loadConfig_complete[OF assms] split: option.splits)
next
  case False
  then show ?thesis using loadConfig_incomplete[OF assms] by fastforce
qed

lemma loadSegment_Inr_iff:
  "loadSegment getenv = Inr seg \<longleftrightarrow>
     sg_Path seg = getenv ''MTX_PATH'' \<and> sg_LocalPath seg = getenv ''MTX_SEGMENT_PATH'' \<and>
     sg_Path seg \<noteq> [] \<and> CHR ''/'' \<notin> set (sg_Path seg) \<and> CHR 0x5C \<notin> set (sg_Path seg) \<and>
     sg_LocalPath seg \<noteq> [] \<and> ParseFloat (getenv ''MTX_SEGMENT_DURATION'') = Inr (sg_Duration seg)"
  by (cases seg) (auto simp: loadSegment_def Let_def vodContainsPathTraversal_def ContainsAny_iff split: sum.splits)

subsection \<open>The upload and the removal\<close>

text \<open>
  What S3 documents of a put that succeeds: the object is stored as given and no other object
  changes.
\<close>

definition durable_puts :: "environment \<Rightarrow> bool" where
  "durable_puts env \<longleftrightarrow>
     (\<forall>client timeout inp objs objs'.
        put_object env client timeout inp objs = (None, objs') \<longrightarrow>
        objs' = objs((pi_Bucket inp, pi_Key inp) \<mapsto>
          \<lparr>so_Body = pi_Body inp, so_ContentType = pi_ContentType inp, so_Metadata = pi_Metadata inp\<rparr>))"

definition stored :: "segment \<Rightarrow> bytes \<Rightarrow> stored_object" where
  "stored seg body =
     \<lparr>so_Body = body, so_ContentType = contentType (sg_LocalPath seg),
      so_Metadata = [''duration-seconds'' \<mapsto> FormatFloat (sg_Duration seg)]\<rparr>"

lemma os_Open_Inr: "os_Open env path w = Inr body \<Longrightarrow> files w path = Some body"
  by (auto simp: os_Open_def split: option.splits)

lemma os_Remove_cases:
  "snd (os_Remove env path w) = w \<or>
   (fst (os_Remove env path w) = None \<and> snd (os_Remove env path w) = w\<lparr>files := (files w)(path := None)\<rparr>)"
  by (auto simp: os_Remove_def split: option.splits)

lemma uploadSegment_files: "files (snd (uploadSegment env timeout client bucket seg w)) = files w"
  by (auto simp: uploadSegment_def split: sum.splits prod.splits option.splits)

lemma uploadSegment_stored:
  assumes "durable_puts env" "uploadSegment env timeout client bucket seg w = (None, w')"
  shows "\<exists>body. files w (sg_LocalPath seg) = Some body \<and>
    objects w' = (objects w)((bucket, objectKey seg) \<mapsto> stored seg body)"
proof -
  obtain body where open_ok: "os_Open env (sg_LocalPath seg) w = Inr body"
    using assms(2) by (auto simp: uploadSegment_def split: sum.splits)
  obtain objs where put: "put_object env client timeout (upload_input bucket seg body) (objects w) = (None, objs)"
    and "w' = w\<lparr>objects := objs\<rparr>"
    using assms(2) open_ok by (auto simp: uploadSegment_def split: prod.splits option.splits)
  moreover have "objs = (objects w)((bucket, objectKey seg) \<mapsto> stored seg body)"
    using assms(1)[unfolded durable_puts_def, rule_format, OF put] by (simp add: upload_input_def stored_def)
  ultimately show ?thesis
    using os_Open_Inr[OF open_ok] by auto
qed

text \<open>Every run that does not end in a successful upload leaves the local files alone.\<close>

lemma vod_main_fatal: "vod_main env order getenv w = (Fatal err, w') \<Longrightarrow> files w' = files w"
  using uploadSegment_files
  by (auto simp: vod_main_def split: sum.splits prod.splits option.splits) (metis snd_conv)

lemma vod_main_uploaded:
  assumes "vod_main env order getenv w = (Uploaded res, w')"
  obtains cfg seg w1 where "loadConfig order getenv = Inr cfg" "loadSegment getenv = Inr seg"
    "uploadSegment env (cf_UploadTimeout cfg) (newS3Client cfg) (cf_Bucket cfg) seg w = (None, w1)"
    "os_Remove env (sg_LocalPath seg) w1 = (res, w')"
  using assms by (auto simp: vod_main_def Let_def split: sum.splits prod.splits option.splits)

lemma vod_main_objects:
  assumes "durable_puts env" "vod_main env order getenv w = (Uploaded res, w')"
    "loadConfig order getenv = Inr cfg" "loadSegment getenv = Inr seg"
  shows "\<exists>body. files w (sg_LocalPath seg) = Some body \<and>
    objects w' = (objects w)((cf_Bucket cfg, objectKey seg) \<mapsto> stored seg body) \<and>
    (files w' = files w \<or> res = None \<and> files w' = (files w)(sg_LocalPath seg := None))"
proof -
  obtain w1 where up: "uploadSegment env (cf_UploadTimeout cfg) (newS3Client cfg) (cf_Bucket cfg) seg w = (None, w1)"
    and rm: "os_Remove env (sg_LocalPath seg) w1 = (res, w')"
    using assms(2-4) by (elim vod_main_uploaded) simp
  have "files w1 = files w"
    using uploadSegment_files up by (metis snd_conv)
  then show ?thesis
    using uploadSegment_stored[OF assms(1) up] os_Remove_cases[of env "sg_LocalPath seg" w1] rm by auto
qed

end
