(* ===== verification/VodNamespace.thy ===== *)
theory VodNamespace
  imports VodRecorder RecordingsHandler
begin

section \<open>One bucket, two services: who sees which recording\<close>

text \<open>
  The uploader writes \<open>recordings/<path>/<file>\<close> and the streams service lists \<open>recordings/<slug>/\<close>.
  The contract between them is a locale of key schemes, interpreted on \<open>objectKey\<close> and \<open>listPrefix\<close>;
  runs of the uploader over a bucket then determine what a listing returns.
\<close>

subsection \<open>Key schemes\<close>

locale vod_key_scheme =
  fixes ok :: "'seg \<Rightarrow> bool"
    and owner :: "'seg \<Rightarrow> gostring"
    and file_name :: "'seg \<Rightarrow> gostring"
    and key_of :: "'seg \<Rightarrow> gostring"
    and channel :: "gostring \<Rightarrow> bool"
    and prefix_of :: "gostring \<Rightarrow> gostring"
  assumes own: "ok x \<Longrightarrow> prefix (prefix_of (owner x)) (key_of x)"
    and foreign: "ok x \<Longrightarrow> channel c \<Longrightarrow> prefix (prefix_of c) (key_of x) \<Longrightarrow> owner x = c"
    and key_inj: "ok x \<Longrightarrow> ok y \<Longrightarrow> key_of x = key_of y \<Longrightarrow> owner x = owner y \<and> file_name x = file_name y"
    and key_same: "owner x = owner y \<Longrightarrow> file_name x = file_name y \<Longrightarrow> key_of x = key_of y"
begin

lemma listed_iff: "ok x \<Longrightarrow> channel c \<Longrightarrow> prefix (prefix_of c) (key_of x) \<longleftrightarrow> owner x = c"
  using own foreign by blast

text \<open>Among keys of this scheme, listing by a channel's prefix selects that channel's.\<close>

lemma listed_keys:
  assumes "\<And>x. x \<in> X \<Longrightarrow> ok x" "channel c"
  shows "{k \<in> key_of ` X. prefix (prefix_of c) k} = key_of ` {x \<in> X. owner x = c}"
  using assms listed_iff by blast

text \<open>One object replaces another exactly when both are the same file of the same channel.\<close>

lemma key_eq_iff: "ok x \<Longrightarrow> ok y \<Longrightarrow> key_of x = key_of y \<longleftrightarrow> owner x = owner y \<and> file_name x = file_name y"
  using key_inj key_same by blast

end

definition plain_segment :: "segment \<Rightarrow> bool" where
  "plain_segment seg \<longleftrightarrow> plain_elem (sg_Path seg) \<and> plain_elem (filepath_Base (sg_LocalPath seg))"

lemma plain_recordings: "plain_elem ''recordings''"
  by (simp add: plain_elem_def)

lemma objectKey_plain:
  assumes "plain_segment seg"
  shows "objectKey seg = ''recordings/'' @ sg_Path seg @ ''/'' @ filepath_Base (sg_LocalPath seg)"
  using path_Join_plain[of "[''recordings'', sg_Path seg, filepath_Base (sg_LocalPath seg)]"] assms plain_recordings
  by (auto simp: objectKey_def plain_segment_def)

lemma listPrefix_plain: "plain_elem slug \<Longrightarrow> listPrefix slug = ''recordings/'' @ slug @ ''/''"
  using path_Join_plain[of "[''recordings'', slug]"] plain_recordings
  by (auto simp: listPrefix_def)

text \<open>Two strings without a slash, each followed by one: a common start makes them equal.\<close>

lemma prefix_slash_eq:
  assumes "prefix (a @ [c]) (b @ c # rest)" "c \<notin> set a" "c \<notin> set b"
  shows "a = b"
  using assms by (induction a arbitrary: b) (case_tac b; auto)+

interpretation vod: vod_key_scheme plain_segment sg_Path "\<lambda>seg. filepath_Base (sg_LocalPath seg)"
  objectKey plain_elem listPrefix
proof (unfold_locales, goal_cases)
  case (1 seg)
  then show ?case by (simp add: objectKey_plain listPrefix_plain plain_segment_def)
next
  case (2 seg c)
  then have "prefix (c @ ''/'') (sg_Path seg @ CHR ''/'' # filepath_Base (sg_LocalPath seg))"
    by (simp add: objectKey_plain listPrefix_plain plain_segment_def)
  then show ?case
    using prefix_slash_eq 2(1,2) by (fastforce simp: plain_segment_def plain_elem_def)
next
  case (3 x y)
  then have eq: "sg_Path x @ CHR ''/'' # filepath_Base (sg_LocalPath x) =
      sg_Path y @ CHR ''/'' # filepath_Base (sg_LocalPath y)"
    by (simp add: objectKey_plain)
  then have "prefix (sg_Path x @ ''/'') (sg_Path y @ CHR ''/'' # filepath_Base (sg_LocalPath y))"
    by (metis append.assoc append_Cons append_Nil prefixI)
  then have "sg_Path x = sg_Path y"
    using prefix_slash_eq 3(1,2) by (fastforce simp: plain_segment_def plain_elem_def)
  then show ?case using eq by simp
qed (simp add: objectKey_def)

subsection \<open>Segments the checks let through\<close>

text \<open>A path of \<open>..\<close> passes both checks, and its object leaves the \<open>recordings/\<close> tree.\<close>

lemma objectKey_dotdot:
  assumes "sg_Path seg = ''..''" "plain_elem (filepath_Base (sg_LocalPath seg))"
  shows "objectKey seg = filepath_Base (sg_LocalPath seg)"
proof -
  let ?b = "filepath_Base (sg_LocalPath seg)"
  have b: "CHR ''/'' \<notin> set ?b" "?b \<noteq> []" "?b \<noteq> ''.''" "?b \<noteq> ''..''"
    using assms(2) by (auto simp: plain_elem_def)
  have "Split (Join [''recordings'', ''..'', ?b] CHR ''/'') CHR ''/'' = [''recordings'', ''..'', ?b]"
    by (rule Split_Join) (use b in auto)
  then show ?thesis
    using assms(1) b by (simp add: objectKey_def path_Join_def path_Clean_def)
qed

text \<open>A path of \<open>.\<close> puts the object directly under \<open>recordings/\<close>.\<close>

lemma objectKey_dot:
  assumes "sg_Path seg = ''.''" "plain_elem (filepath_Base (sg_LocalPath seg))"
  shows "objectKey seg = ''recordings/'' @ filepath_Base (sg_LocalPath seg)"
proof -
  let ?b = "filepath_Base (sg_LocalPath seg)"
  have b: "CHR ''/'' \<notin> set ?b" "?b \<noteq> []" "?b \<noteq> ''.''" "?b \<noteq> ''..''"
    using assms(2) by (auto simp: plain_elem_def)
  have "Split (Join [''recordings'', ''.'', ?b] CHR ''/'') CHR ''/'' = [''recordings'', ''.'', ?b]"
    by (rule Split_Join) (use b in auto)
  then show ?thesis
    using assms(1) b by (simp add: objectKey_def path_Join_def path_Clean_def)
qed

lemma listPrefix_dot: "listPrefix ''.'' = ''recordings/''"
  by (simp add: listPrefix_def path_Join_def path_Clean_def)

text \<open>What \<open>loadSegment\<close> accepts is plain unless the path or the file name is made of dots.\<close>

definition dots :: "gostring \<Rightarrow> bool" where
  "dots s \<longleftrightarrow> s = ''.'' \<or> s = ''..''"

lemma loadSegment_plain:
  assumes "loadSegment getenv = Inr seg" "\<not> dots (sg_Path seg)"
    "\<not> dots (filepath_Base (sg_LocalPath seg))" "filepath_Base (sg_LocalPath seg) \<noteq> ''/''"
  shows "plain_segment seg"
proof -
  have "sg_Path seg \<noteq> []" "CHR ''/'' \<notin> set (sg_Path seg)"
    using assms(1) unfolding loadSegment_Inr_iff by blast+
  then show ?thesis
    using assms(2-4) filepath_Base_not_Nil filepath_Base_no_slash
    by (simp add: plain_segment_def plain_elem_def dots_def)
qed

subsection \<open>Runs of the uploader\<close>

text \<open>One process per finished segment, each with its own environment variables.\<close>

fun vod_runs ::
  "environment \<Rightarrow> gostring list \<Rightarrow> (gostring \<Rightarrow> gostring) list \<Rightarrow> world \<Rightarrow> outcome list \<times> world" where
  "vod_runs env order [] w = ([], w)"
| "vod_runs env order (g # gs) w =
     (let (out, w') = vod_main env order g w;
          (outs, w'') = vod_runs env order gs w'
      in (out # outs, w''))"

text \<open>
  S3 writes are atomic: a put that fails has stored the whole object or nothing.
\<close>

definition atomic_puts :: "environment \<Rightarrow> bool" where
  "atomic_puts env \<longleftrightarrow>
     (\<forall>client timeout inp objs err objs'.
        put_object env client timeout inp objs = (Some err, objs') \<longrightarrow>
        objs' = objs \<or>
        objs' = objs((pi_Bucket inp, pi_Key inp) \<mapsto>
          \<lparr>so_Body = pi_Body inp, so_ContentType = pi_ContentType inp, so_Metadata = pi_Metadata inp\<rparr>))"

definition keys_in :: "gostring \<Rightarrow> world \<Rightarrow> gostring set" where
  "keys_in bucket w = {k. (bucket, k) \<in> dom (objects w)}"

lemma put_object_cases:
  assumes "durable_puts env" "atomic_puts env"
    and put: "put_object env client timeout (upload_input bucket seg body) objs = (r, objs')"
  shows "objs' = objs \<and> r \<noteq> None \<or> objs' = objs((bucket, objectKey seg) \<mapsto> stored seg body)"
proof (cases r)
  case None
  then show ?thesis
    using assms(1)[unfolded durable_puts_def, rule_format, OF put[unfolded None]]
    by (simp add: upload_input_def stored_def)
next
  case (Some err)
  then show ?thesis
    using assms(2)[unfolded atomic_puts_def, rule_format, OF put[unfolded Some]]
    by (simp add: upload_input_def stored_def)
qed

lemma uploadSegment_keys:
  assumes "durable_puts env" "atomic_puts env"
    "uploadSegment env timeout client bucket seg w = (res, w')"
  shows "keys_in b w \<subseteq> keys_in b w' \<and>
    keys_in b w' \<subseteq> keys_in b w \<union> (if b = bucket then {objectKey seg} else {}) \<and>
    (res = None \<longrightarrow> objectKey seg \<in> keys_in bucket w')"
proof (cases "os_Open env (sg_LocalPath seg) w")
  case (Inl err)
  then show ?thesis using assms(3) by (auto simp: uploadSegment_def)
next
  case (Inr body)
  obtain r objs where put: "put_object env client timeout (upload_input bucket seg body) (objects w) = (r, objs)"
    by fastforce
  then have w': "w' = w\<lparr>objects := objs\<rparr>" and res: "res = None \<longrightarrow> r = None"
    using assms(3) Inr by (auto simp: uploadSegment_def split: option.splits)
  note put_object_cases[OF assms(1,2) put]
  then show ?thesis using w' res by (auto simp: keys_in_def)
qed

lemma loadConfig_bucket: "loadConfig order getenv = Inr cfg \<Longrightarrow> cf_Bucket cfg = getenv ''S3_BUCKET''"
  by (auto simp: loadConfig_eq env_config_def split: option.splits if_splits)

text \<open>A run of \<open>main\<close> adds at most the key of its segment, and adds it if it reports an upload.\<close>

lemma vod_main_keys:
  assumes "durable_puts env" "atomic_puts env" "vod_main env order g w = (out, w')"
  shows "keys_in b w \<subseteq> keys_in b w' \<and>
    (\<forall>k \<in> keys_in b w' - keys_in b w.
       g ''S3_BUCKET'' = b \<and> (\<exists>seg. loadSegment g = Inr seg \<and> k = objectKey seg)) \<and>
    (\<forall>seg res. out = Uploaded res \<longrightarrow> loadSegment g = Inr seg \<longrightarrow>
       objectKey seg \<in> keys_in (g ''S3_BUCKET'') w')"
proof (cases "loadConfig order g")
  case (Inl err)
  then show ?thesis using assms(3) by (auto simp: vod_main_def)
next
  case (Inr cfg)
  note cfg = this
  have bucket: "cf_Bucket cfg = g ''S3_BUCKET''" by (rule loadConfig_bucket[OF cfg])
  show ?thesis
  proof (cases "loadSegment g")
    case (Inl err)
    then show ?thesis using assms(3) cfg by (auto simp: vod_main_def)
  next
    case (Inr seg)
    obtain res w1 where up:
      "uploadSegment env (cf_UploadTimeout cfg) (newS3Client cfg) (cf_Bucket cfg) seg w = (res, w1)"
      by fastforce
    have "keys_in b' w' = keys_in b' w1" for b'
      using assms(3) cfg Inr up os_Remove_cases[of env "sg_LocalPath seg" w1]
      by (auto simp: vod_main_def keys_in_def Let_def split: option.splits prod.splits)
    moreover have "out = Uploaded r \<Longrightarrow> res = None" for r
      using assms(3) cfg Inr up by (auto simp: vod_main_def split: option.splits)
    ultimately show ?thesis
      using uploadSegment_keys[OF assms(1,2) up, of b] uploadSegment_keys[OF assms(1,2) up, of "g ''S3_BUCKET''"]
        Inr bucket by (auto split: if_splits)
  qed
qed

lemma os_Open_Remove_frame: "p \<noteq> path \<Longrightarrow> files (snd (os_Remove env path w)) p = files w p"
  by (simp add: os_Remove_def split: option.split)

lemma uploadSegment_frame:
  assumes "durable_puts env" "atomic_puts env"
    "uploadSegment env timeout client bucket seg w = (res, w')" "(b, k) \<noteq> (bucket, objectKey seg)"
  shows "objects w' (b, k) = objects w (b, k)"
proof (cases "os_Open env (sg_LocalPath seg) w")
  case (Inl err)
  then show ?thesis using assms(3) by (auto simp: uploadSegment_def)
next
  case (Inr body)
  obtain r objs where put: "put_object env client timeout (upload_input bucket seg body) (objects w) = (r, objs)"
    by fastforce
  have "objects w' = objs"
    using assms(3) Inr put by (auto simp: uploadSegment_def split: option.splits)
  then show ?thesis
    using put_object_cases[OF assms(1,2) put] assms(4) by auto
qed

text \<open>A run touches its segment's file and its segment's object.\<close>

lemma vod_main_frame:
  assumes "durable_puts env" "atomic_puts env" "vod_main env order g w = (out, w')"
  shows "(\<forall>path. path \<noteq> g ''MTX_SEGMENT_PATH'' \<longrightarrow> files w' path = files w path) \<and>
    (\<forall>bucket key. (\<forall>seg. loadSegment g = Inr seg \<longrightarrow> bucket = g ''S3_BUCKET'' \<longrightarrow> key \<noteq> objectKey seg) \<longrightarrow>
       objects w' (bucket, key) = objects w (bucket, key))"
proof (cases "loadConfig order g")
  case (Inl err)
  then show ?thesis using assms(3) by (auto simp: vod_main_def)
next
  case (Inr cfg)
  note cfg = this
  have bucket: "cf_Bucket cfg = g ''S3_BUCKET''" by (rule loadConfig_bucket[OF cfg])
  show ?thesis
  proof (cases "loadSegment g")
    case (Inl err)
    then show ?thesis using assms(3) cfg by (auto simp: vod_main_def)
  next
    case (Inr seg)
    obtain res w1 where up:
      "uploadSegment env (cf_UploadTimeout cfg) (newS3Client cfg) (cf_Bucket cfg) seg w = (res, w1)"
      by fastforce
    have local: "sg_LocalPath seg = g ''MTX_SEGMENT_PATH''" using Inr unfolding loadSegment_Inr_iff by blast
    have w': "w' = w1 \<or> w' = snd (os_Remove env (sg_LocalPath seg) w1)"
      using assms(3) cfg Inr up by (auto simp: vod_main_def Let_def split: option.splits prod.splits)
    have "files w1 = files w"
      using uploadSegment_files[of env "cf_UploadTimeout cfg" "newS3Client cfg" "cf_Bucket cfg" seg w] up by simp
    moreover have "objects w' = objects w1"
      using w' os_Remove_cases[of env "sg_LocalPath seg" w1] by auto
    ultimately show ?thesis
      using w' os_Open_Remove_frame[of _ "sg_LocalPath seg" env w1] uploadSegment_frame[OF assms(1,2) up] Inr bucket local
      by (metis prod.inject)
  qed
qed

lemma vod_runs_keys:
  assumes "durable_puts env" "atomic_puts env" "vod_runs env order gs w = (outs, w')"
  shows "keys_in b w \<subseteq> keys_in b w' \<and>
    (\<forall>k \<in> keys_in b w' - keys_in b w.
       \<exists>g \<in> set gs. g ''S3_BUCKET'' = b \<and> (\<exists>seg. loadSegment g = Inr seg \<and> k = objectKey seg)) \<and>
    (\<forall>(g, out) \<in> set (zip gs outs). \<forall>seg res. out = Uploaded res \<longrightarrow> loadSegment g = Inr seg \<longrightarrow>
       g ''S3_BUCKET'' = b \<longrightarrow> objectKey seg \<in> keys_in b w')"
  using assms(3)
proof (induction gs arbitrary: w outs)
  case Nil
  then show ?case by simp
next
  case (Cons g gs)
  obtain out w1 where m: "vod_main env order g w = (out, w1)" by fastforce
  obtain outs' where r: "vod_runs env order gs w1 = (outs', w')" and outs: "outs = out # outs'"
    using Cons.prems m by (auto split: prod.splits)
  note ih = Cons.IH[OF r]
  note mk = vod_main_keys[OF assms(1,2) m, of b]
  have "keys_in b w \<subseteq> keys_in b w'" using ih mk by blast
  moreover have "\<exists>g' \<in> set (g # gs). g' ''S3_BUCKET'' = b \<and> (\<exists>seg. loadSegment g' = Inr seg \<and> k = objectKey seg)"
    if "k \<in> keys_in b w' - keys_in b w" for k
    using that ih mk by (cases "k \<in> keys_in b w1") auto
  moreover have "objectKey seg \<in> keys_in b w'"
    if "(g', out') \<in> set (zip (g # gs) outs)" "out' = Uploaded res" "loadSegment g' = Inr seg" "g' ''S3_BUCKET'' = b"
    for g' out' seg res
    using that ih mk outs by auto
  ultimately show ?case by blast
qed

subsection \<open>What a listing returns\<close>

text \<open>
  The documented answer of \<open>ListObjectsV2\<close>: over all pages, every key of the bucket with the prefix,
  once, in byte order.
\<close>

definition honest_listing :: "s3_sdk \<Rightarrow> world \<Rightarrow> bool" where
  "honest_listing sdk w \<longleftrightarrow>
     (\<forall>client bucket p. \<exists>pages.
        yields_pages (sdk_ListObjectsV2 sdk client bucket p) 0 pages \<and>
        map obj_Key (concat pages) =
          map Some (sorted_list_of_set {k \<in> keys_in bucket w. prefix p k}))"

lemma ListRecordings_honest:
  assumes "honest_listing sdk w"
  shows "\<exists>objs. ListRecordings sdk s slug = Some (Inr objs) \<and>
    map ro_Key objs = sorted_list_of_set {k \<in> keys_in (sr_bucket s) w. prefix (listPrefix slug) k}"
proof -
  obtain pages where pages:
    "yields_pages (sdk_ListObjectsV2 sdk (sr_client s) (sr_bucket s) (listPrefix slug)) 0 pages"
    "map obj_Key (concat pages) =
      map Some (sorted_list_of_set {k \<in> keys_in (sr_bucket s) w. prefix (listPrefix slug) k})"
    using assms unfolding honest_listing_def by metis
  have "map ro_Key (map to_recording (concat pages)) = map (case_option [] (\<lambda>x. x)) (map obj_Key (concat pages))"
    by (simp add: to_recording_def)
  also have "\<dots> = sorted_list_of_set {k \<in> keys_in (sr_bucket s) w. prefix (listPrefix slug) k}"
    unfolding pages(2) by (simp add: comp_def)
  finally show ?thesis
    using list_pages_yields[OF pages(1)] by (simp add: ListRecordings_def)
qed

text \<open>Keys written by plain segments: the listing of a channel is the sorted keys of its segments.\<close>

lemma listing_of_segments:
  assumes "keys_in bucket w = objectKey ` segs" "\<And>seg. seg \<in> segs \<Longrightarrow> plain_segment seg" "plain_elem slug"
  shows "{k \<in> keys_in bucket w. prefix (listPrefix slug) k} = objectKey ` {seg \<in> segs. sg_Path seg = slug}"
  unfolding assms(1) by (rule vod.listed_keys) (use assms(2,3) in auto)

end
