(* ===== verification/GoFloatRounding.thy ===== *)
theory GoFloatRounding
  imports GoFloat Complex_Main
begin

section \<open>What rounding to a float64 returns\<close>

text \<open>
  \<open>round_pos num den\<close> is characterised by the value \<open>num / den\<close> alone: any value in the rounding
  interval of a canonical mantissa and exponent rounds to them.  Values are real numbers here.
\<close>

subsection \<open>Scaling and binades\<close>

lemma powi2_add: "(2::real) powi (a + b) = 2 powi a * 2 powi b"
  by (simp add: power_int_add)

lemma powi2_Suc: "(2::real) powi (a + 1) = 2 * 2 powi a"
  by (simp add: power_int_add)

lemma powi2_pred: "(2::real) powi a = 2 * 2 powi (a - 1)"
  using powi2_Suc[of "a - 1"] by simp

lemma powi2_pos: "0 < (2::real) powi a"
  by simp

lemma powi2_mono: "a \<le> b \<Longrightarrow> (2::real) powi a \<le> 2 powi b"
  by (simp add: power_int_increasing)

lemma scaled_real:
  assumes "scaled num den e = (n, d)" "0 < den"
  shows "0 < d" "real n / real d = real num / real den / 2 powi e"
proof -
  show "0 < d" using assms by (auto simp: scaled_def split: if_splits)
  show "real n / real d = real num / real den / 2 powi e"
  proof (cases "0 \<le> e")
    case True
    then have "2 powi e = (2::real) ^ nat e" by (simp add: power_int_def)
    then show ?thesis using True assms(1) by (auto simp: scaled_def)
  next
    case False
    then have "2 powi e = 1 / (2::real) ^ nat (- e)" by (simp add: power_int_def inverse_eq_divide power_one_over)
    then show ?thesis using False assms(1) by (auto simp: scaled_def)
  qed
qed

lemma bit_len_bounds: "0 < n \<Longrightarrow> 0 < bit_len n \<and> 2 ^ (bit_len n - 1) \<le> n \<and> n < 2 ^ bit_len n"
proof (induction n rule: bit_len.induct)
  case (1 n)
  show ?case
  proof (cases "n div 2 = 0")
    case True
    then have "n = 1" using 1(2) by linarith
    then show ?thesis by (simp add: bit_len.simps[of "Suc 0"] bit_len.simps[of 0])
  next
    case False
    then have ih: "0 < bit_len (n div 2)" "2 ^ (bit_len (n div 2) - 1) \<le> n div 2" "n div 2 < 2 ^ bit_len (n div 2)"
      using 1 by auto
    have "bit_len n = Suc (bit_len (n div 2))" using 1(2) by (simp add: bit_len.simps[of n])
    moreover have pow: "(2::nat) ^ bit_len (n div 2) = 2 * 2 ^ (bit_len (n div 2) - 1)"
      using ih(1) by (metis Suc_diff_1 power_Suc)
    have div: "2 * (n div 2) \<le> n" "n < 2 * (n div 2) + 2" by simp_all
    have "2 ^ bit_len (n div 2) \<le> n" using div(1) ih(2) pow by linarith
    moreover have "n < 2 * 2 ^ bit_len (n div 2)" using div(2) ih(3) by linarith
    ultimately show ?thesis by simp
  qed
qed

lemma div_real: "0 < d \<Longrightarrow> k \<le> n div d \<longleftrightarrow> real k \<le> real n / real d"
  by (simp add: less_eq_div_iff_mult_less_eq pos_le_divide_eq flip: of_nat_mult)

text \<open>The binade of a positive value, and that it is the only one.\<close>

definition in_binade :: "real \<Rightarrow> int \<Rightarrow> bool" where
  "in_binade v e \<longleftrightarrow> -1074 \<le> e \<and> v < 2 ^ 53 * 2 powi e \<and> (e = -1074 \<or> 2 ^ 52 * 2 powi e \<le> v)"

lemma in_binade_unique:
  assumes "in_binade v e" "in_binade v f"
  shows "e = f"
proof -
  have False if "in_binade v a" "in_binade v b" "a < b" for a b :: int
  proof -
    have "2 ^ 52 * 2 powi b \<le> v" "v < 2 ^ 53 * 2 powi a" using that by (auto simp: in_binade_def)
    moreover have "(2::real) powi (a + 1) \<le> 2 powi b" using that(3) by (intro powi2_mono) simp
    ultimately show False by (simp add: powi2_Suc)
  qed
  then show ?thesis using assms by (metis linorder_neqE)
qed

lemma binade_in_binade:
  assumes "0 < num" "0 < den"
  shows "in_binade (real num / real den) (binade num den)"
proof -
  let ?v = "real num / real den"
  define e where "e = int (bit_len num) - int (bit_len den) - 53"
  obtain n d where nd: "scaled num den e = (n, d)" by fastforce
  note num = bit_len_bounds[OF assms(1)] and den = bit_len_bounds[OF assms(2)]
  have low: "2 ^ 52 * 2 powi e \<le> ?v"
  proof -
    have "52 + e = int (bit_len num - 1) - int (bit_len den)" using num by (simp add: e_def of_nat_diff)
    then have "2 ^ 52 * (2::real) powi e = 2 powi (int (bit_len num - 1) - int (bit_len den))"
      using powi2_add[of 52 e] by simp
    also have "\<dots> = 2 ^ (bit_len num - 1) / 2 ^ bit_len den" by (simp add: power_int_diff)
    also have "\<dots> \<le> real num / real den"
    proof (rule frac_le)
      show "2 ^ (bit_len num - 1) \<le> real num" using num by (metis of_nat_le_iff of_nat_numeral of_nat_power)
      show "real den \<le> 2 ^ bit_len den" using den by (metis less_imp_le of_nat_le_iff of_nat_numeral of_nat_power)
    qed (use assms in simp_all)
    finally show ?thesis .
  qed
  have high: "?v < 2 ^ 54 * 2 powi e"
  proof -
    have "real num / real den < 2 ^ bit_len num / 2 ^ (bit_len den - 1)"
    proof (rule frac_less)
      show "real num < 2 ^ bit_len num" using num by (metis of_nat_less_iff of_nat_numeral of_nat_power)
      show "2 ^ (bit_len den - 1) \<le> real den" using den by (metis of_nat_le_iff of_nat_numeral of_nat_power)
    qed simp_all
    also have "\<dots> = 2 powi (int (bit_len num) - int (bit_len den - 1))" by (simp add: power_int_diff)
    also have "int (bit_len num) - int (bit_len den - 1) = 54 + e" using den by (simp add: e_def of_nat_diff)
    also have "2 powi (54 + e) = 2 ^ 54 * (2::real) powi e" using powi2_add[of 54 e] by simp
    finally show ?thesis .
  qed
  have big: "2 ^ 53 \<le> n div d \<longleftrightarrow> 2 ^ 53 * 2 powi e \<le> ?v"
    using div_real[OF scaled_real(1)[OF nd assms(2)], of "2 ^ 53" n]
    by (simp only: scaled_real(2)[OF nd assms(2)] pos_le_divide_eq[OF powi2_pos] of_nat_power of_nat_numeral)
  define e' where "e' = (if 2 ^ 53 \<le> n div d then e + 1 else e)"
  have e': "2 ^ 52 * 2 powi e' \<le> ?v \<and> ?v < 2 ^ 53 * 2 powi e'"
    using low high big by (auto simp: e'_def powi2_Suc)
  have "binade num den = max e' (-1074)"
    by (simp add: binade_def Let_def e'_def flip: e_def) (simp add: nd)
  moreover have "?v < 2 ^ 53 * 2 powi (-1074)" if "e' \<le> -1074"
  proof -
    have "?v < 2 ^ 53 * 2 powi e'" using e' by blast
    also have "\<dots> \<le> 2 ^ 53 * 2 powi (-1074)" using that by (intro mult_left_mono powi2_mono) simp_all
    finally show ?thesis .
  qed
  ultimately show ?thesis
    using e' by (auto simp: in_binade_def max_def)
qed

subsection \<open>Rounding to the nearest integer\<close>

definition rounds_to :: "real \<Rightarrow> nat \<Rightarrow> bool" where
  "rounds_to r m \<longleftrightarrow> \<bar>r - real m\<bar> < 1 / 2 \<or> \<bar>r - real m\<bar> = 1 / 2 \<and> even m"

lemma round_half_even_rounds:
  assumes "0 < d"
  shows "rounds_to (real n / real d) (round_half_even n d)"
proof -
  let ?q = "n div d" and ?r = "n mod d"
  have n: "real n = real ?q * real d + real ?r"
    by (metis div_mult_mod_eq of_nat_add of_nat_mult)
  have diff: "real n / real d - real ?q = real ?r / real d"
    using assms by (simp add: n field_simps)
  have r: "real ?r < real d" using assms by simp
  consider "d < 2 * ?r" | "2 * ?r = d" | "2 * ?r < d" by linarith
  then show ?thesis
  proof cases
    case 1
    have q: "round_half_even n d = Suc ?q" using 1 by (simp add: round_half_even_def Let_def)
    have "1 / 2 < real ?r / real d" "real ?r / real d < 1" using 1 assms r by (simp_all add: field_simps)
    then have "\<bar>real n / real d - real (Suc ?q)\<bar> < 1 / 2" using diff by linarith
    then show ?thesis unfolding q rounds_to_def ..
  next
    case 2
    then have half: "real ?r / real d = 1 / 2" using assms by (simp add: field_simps)
    have q: "round_half_even n d = (if odd ?q then Suc ?q else ?q)" using 2 by (simp add: round_half_even_def Let_def)
    have "\<bar>real n / real d - real ?q\<bar> = 1 / 2" "\<bar>real n / real d - real (Suc ?q)\<bar> = 1 / 2"
      using diff half by linarith+
    moreover have "even (round_half_even n d)" by (simp add: q)
    ultimately show ?thesis unfolding rounds_to_def q by (metis (full_types))
  next
    case 3
    have q: "round_half_even n d = ?q" using 3 by (simp add: round_half_even_def Let_def)
    have "0 \<le> real ?r / real d" "real ?r / real d < 1 / 2" using 3 assms by (simp_all add: field_simps)
    then have "\<bar>real n / real d - real ?q\<bar> < 1 / 2" using diff by linarith
    then show ?thesis unfolding q rounds_to_def ..
  qed
qed

lemma rounds_to_unique:
  assumes "rounds_to r m" "rounds_to r k"
  shows "m = k"
proof -
  have "\<bar>r - real m\<bar> \<le> 1 / 2" "\<bar>r - real k\<bar> \<le> 1 / 2" using assms by (auto simp only: rounds_to_def)
  then have dist: "\<bar>real m - real k\<bar> \<le> 1" by linarith
  show ?thesis
  proof (rule ccontr)
    assume "m \<noteq> k"
    then have "\<bar>real m - real k\<bar> = 1" using dist by linarith
    then have "\<bar>r - real m\<bar> = 1 / 2 \<and> \<bar>r - real k\<bar> = 1 / 2" using assms unfolding rounds_to_def by linarith
    then have "even m" "even k" using assms by (auto simp: rounds_to_def)
    moreover have "m = Suc k \<or> k = Suc m" using \<open>\<bar>real m - real k\<bar> = 1\<close> by linarith
    ultimately show False by auto
  qed
qed

subsection \<open>The rounding interval of a float64\<close>

text \<open>
  The values that round to \<open>m * 2 ^ e\<close>: up to half a unit above and below, except below a power of
  two, where the units are half as large.  The ends belong to it if the mantissa is even.
\<close>

definition lower_gap :: "nat \<Rightarrow> int \<Rightarrow> real" where
  "lower_gap m e = (if m = 2 ^ 52 \<and> -1074 < e then 1 / 4 else 1 / 2)"

definition in_interval :: "nat \<Rightarrow> int \<Rightarrow> real \<Rightarrow> bool" where
  "in_interval m e v \<longleftrightarrow>
     (let lo = (real m - lower_gap m e) * 2 powi e; hi = (real m + 1 / 2) * 2 powi e
      in lo < v \<and> v < hi \<or> even m \<and> (v = lo \<or> v = hi))"

lemma in_interval_bounds:
  assumes "in_interval m e v"
  shows "(real m - lower_gap m e) * 2 powi e \<le> v" "v \<le> (real m + 1 / 2) * 2 powi e"
proof -
  have "(real m - lower_gap m e) * 2 powi e \<le> (real m + 1 / 2) * 2 powi e"
    by (intro mult_right_mono) (simp_all add: lower_gap_def)
  then show "(real m - lower_gap m e) * 2 powi e \<le> v" "v \<le> (real m + 1 / 2) * 2 powi e"
    using assms by (auto simp: in_interval_def Let_def)
qed

lemma round_pos_eq:
  assumes "0 < num" "0 < den" "in_binade (real num / real den) e" "rounds_to (real num / real den / 2 powi e) m"
  shows "round_pos num den = (if m = 2 ^ 53 then (2 ^ 52, e + 1) else (m, e))"
proof -
  have e: "binade num den = e"
    using in_binade_unique[OF binade_in_binade[OF assms(1,2)] assms(3)] .
  obtain n d where nd: "scaled num den e = (n, d)" by fastforce
  have "round_half_even n d = m"
    using rounds_to_unique[OF round_half_even_rounds[OF scaled_real(1)[OF nd assms(2)]], of n m]
      scaled_real(2)[OF nd assms(2)] assms(4) by simp
  then show ?thesis by (simp add: round_pos_def Let_def e nd)
qed

lemma round_pos_interval:
  assumes canon: "m < 2 ^ 53" "-1074 \<le> e" "2 ^ 52 \<le> m \<or> e = -1074" and m: "0 < m"
    and "0 < num" "0 < den" "in_interval m e (real num / real den)"
  shows "round_pos num den = (m, e)"
proof -
  let ?v = "real num / real den"
  let ?r = "?v / 2 powi e"
  note bounds = in_interval_bounds[OF assms(7)]
  have pos: "(0::real) < 2 powi e" by simp
  have v: "?v = ?r * 2 powi e" by simp
  have rlow: "real m - lower_gap m e \<le> ?r" and rhigh: "?r \<le> real m + 1 / 2"
    using bounds by (simp_all only: pos_le_divide_eq[OF pos] pos_divide_le_eq[OF pos])
  have ends: "?r = real m - lower_gap m e \<or> ?r = real m + 1 / 2 \<Longrightarrow> even m"
  proof -
    assume "?r = real m - lower_gap m e \<or> ?r = real m + 1 / 2"
    then have "?v = (real m - lower_gap m e) * 2 powi e \<or> ?v = (real m + 1 / 2) * 2 powi e"
      using v by metis
    then show "even m" using assms(7) by (auto simp: in_interval_def Let_def)
  qed
  have m53: "real m \<le> 2 ^ 53 - 1" using canon(1) by simp
  have high: "?v < 2 ^ 53 * 2 powi e"
  proof -
    have "?r < 2 ^ 53" using rhigh m53 by linarith
    then show ?thesis by (simp only: pos_divide_less_eq[OF pos])
  qed
  show ?thesis
  proof (cases "e = -1074 \<or> 2 ^ 52 * 2 powi e \<le> ?v")
    case True
    have "in_binade ?v e" using True high canon(2) by (simp add: in_binade_def)
    moreover have "rounds_to ?r m"
    proof -
      have gap: "lower_gap m e \<le> 1 / 2" by (simp add: lower_gap_def)
      then have "real m - 1 / 2 \<le> ?r" using rlow by linarith
      moreover have "even m" if "?r = real m - 1 / 2"
      proof -
        have "?r = real m - lower_gap m e" using that gap rlow by linarith
        then show ?thesis using ends by blast
      qed
      ultimately show ?thesis using ends rhigh unfolding rounds_to_def by argo
    qed
    ultimately show ?thesis using round_pos_eq[OF assms(5,6)] canon(1) by simp
  next
    case False
    then have e: "-1074 < e" and "?v < 2 ^ 52 * 2 powi e" using canon(2) by auto
    then have small: "?r < 2 ^ 52" by (simp only: pos_divide_less_eq[OF pos])
    have "\<not> 2 ^ 52 < m"
    proof
      assume "2 ^ 52 < m"
      then have "2 ^ 52 + 1 \<le> real m" by simp
      moreover have "lower_gap m e \<le> 1 / 2" by (simp add: lower_gap_def)
      ultimately show False using small rlow by linarith
    qed
    then have m52: "m = 2 ^ 52" using canon(3) e by simp
    have r: "?v / 2 powi (e - 1) = 2 * ?r" using powi2_pred[of e] by simp
    have "real m - lower_gap m e = 2 ^ 52 - 1 / 4" using e by (simp add: m52 lower_gap_def)
    moreover have two: "(2::real) ^ 53 = 2 * 2 ^ 52" by simp
    ultimately have rl: "2 ^ 53 - 1 / 2 \<le> 2 * ?r" using rlow by linarith
    have "in_binade ?v (e - 1)"
    proof -
      have pos': "(0::real) < 2 powi (e - 1)" by simp
      have "?v / 2 powi (e - 1) < 2 ^ 53" unfolding r using small two by linarith
      then have "?v < 2 ^ 53 * 2 powi (e - 1)" by (simp only: pos_divide_less_eq[OF pos'])
      moreover have "2 ^ 52 \<le> ?v / 2 powi (e - 1)" unfolding r using rl two by simp
      then have "2 ^ 52 * 2 powi (e - 1) \<le> ?v" by (simp only: pos_le_divide_eq[OF pos'])
      ultimately show ?thesis using e by (simp add: in_binade_def)
    qed
    moreover have "rounds_to (?v / 2 powi (e - 1)) (2 ^ 53)"
    proof -
      have "\<bar>2 * ?r - 2 ^ 53\<bar> \<le> 1 / 2" using rl small two by linarith
      then have "\<bar>2 * ?r - real (2 ^ 53)\<bar> < 1 / 2 \<or> \<bar>2 * ?r - real (2 ^ 53)\<bar> = 1 / 2"
        unfolding of_nat_power of_nat_numeral by (rule le_less[THEN iffD1])
      moreover have "even ((2::nat) ^ 53)" by simp
      ultimately show ?thesis unfolding r rounds_to_def by blast
    qed
    ultimately show ?thesis using round_pos_eq[OF assms(5,6)] by (simp add: m52)
  qed
qed

end
