(* ===== verification/GoFloatRoundtrip.thy ===== *)
theory GoFloatRoundtrip
  imports GoFloatRounding
begin

section \<open>Formatting and parsing a float64\<close>

text \<open>
  \<open>FormatFloat\<close> picks a short decimal inside the rounding interval of the value, and \<open>ParseFloat\<close>
  reads digits exactly before it rounds: so what was formatted parses back to the same float64.
\<close>

subsection \<open>Every parsed value is canonical\<close>

lemma rounds_to_bounds:
  assumes "rounds_to r m"
  shows "r < real k \<Longrightarrow> m \<le> k" "real k \<le> r \<Longrightarrow> k \<le> m"
proof -
  have r: "\<bar>r - real m\<bar> \<le> 1 / 2" using assms by (auto simp only: rounds_to_def)
  show "m \<le> k" if "r < real k"
  proof -
    have "real m < real k + 1" using that r by linarith
    then show ?thesis by linarith
  qed
  show "k \<le> m" if "real k \<le> r"
  proof -
    have "real k < real m + 1" using that r by linarith
    then show ?thesis by linarith
  qed
qed

lemma round_pos_canonical:
  assumes "0 < num" "0 < den" "round_pos num den = (m, e)"
  shows "m < 2 ^ 53 \<and> -1074 \<le> e \<and> (2 ^ 52 \<le> m \<or> e = -1074)"
proof -
  let ?v = "real num / real den" and ?e = "binade num den"
  obtain n d where nd: "scaled num den ?e = (n, d)" by fastforce
  let ?k = "round_half_even n d"
  note in_bin = binade_in_binade[OF assms(1,2), unfolded in_binade_def]
  have rounds: "rounds_to (?v / 2 powi ?e) ?k"
    using round_half_even_rounds[OF scaled_real(1)[OF nd assms(2)], of n] scaled_real(2)[OF nd assms(2)] by simp
  have pos: "(0::real) < 2 powi ?e" by simp
  have "?v / 2 powi ?e < real (2 ^ 53)"
    unfolding of_nat_power of_nat_numeral pos_divide_less_eq[OF pos] using in_bin by blast
  then have up: "?k \<le> 2 ^ 53" by (rule rounds_to_bounds(1)[OF rounds])
  have down: "?e = -1074 \<or> 2 ^ 52 \<le> ?k"
  proof (cases "?e = -1074")
    case False
    then have "real (2 ^ 52) \<le> ?v / 2 powi ?e"
      unfolding of_nat_power of_nat_numeral pos_le_divide_eq[OF pos] using in_bin by blast
    then show ?thesis using rounds_to_bounds(2)[OF rounds] by blast
  qed simp
  have "(m, e) = (if ?k = 2 ^ 53 then (2 ^ 52, ?e + 1) else (?k, ?e))"
    using assms(3) by (simp add: round_pos_def Let_def nd)
  then show ?thesis using up down in_bin by (auto split: if_splits)
qed

lemma float_value_canonical:
  assumes "float_value neg m base e = Some f" "0 < base"
  shows "canonical_float f"
proof (cases "m = 0")
  case True
  then show ?thesis using assms(1) by (auto simp: float_value_def)
next
  case False
  obtain num den where nd: "to_float neg num den = Some f" "0 < num" "0 < den"
    using assms False by (auto simp: float_value_def split: if_splits)
  obtain k i where "round_pos num den = (k, i)" by fastforce
  then show ?thesis
    using nd round_pos_canonical[OF nd(2,3)] by (auto simp: to_float_def Let_def split: if_splits)
qed

lemma ParseFloat_canonical: "ParseFloat s = Inr f \<Longrightarrow> canonical_float f"
  by (auto simp: ParseFloat_def special_float_def Let_def
      split: option.splits prod.splits if_splits dest: float_value_canonical)

subsection \<open>The shortest decimal is in the interval\<close>

definition dec_scale :: "int \<Rightarrow> nat \<Rightarrow> nat \<times> nat" where
  "dec_scale p den = (if 0 \<le> p then (1, den * 10 ^ nat p) else (10 ^ nat (- p), den))"

lemma dec_scale_real:
  assumes "dec_scale p den = (s, t)" "0 < den"
  shows "0 < s" "0 < t" "real t = real s * real den * 10 powi p"
proof -
  show "0 < s" "0 < t" using assms by (auto simp: dec_scale_def split: if_splits)
  show "real t = real s * real den * 10 powi p"
  proof (cases "0 \<le> p")
    case True
    then show ?thesis using assms(1) by (auto simp: dec_scale_def power_int_def)
  next
    case False
    then show ?thesis using assms(1) by (auto simp: dec_scale_def power_int_def simp flip: power_mult_distrib)
  qed
qed

lemma dec_scale_cmp:
  assumes "dec_scale p den = (s, t)" "0 < den"
  shows "a * s < k * t \<longleftrightarrow> real a / real den < real k * 10 powi p"
    "k * t < a * s \<longleftrightarrow> real k * 10 powi p < real a / real den"
    "k * t = a * s \<longleftrightarrow> real k * 10 powi p = real a / real den"
proof -
  note sc = dec_scale_real[OF assms]
  have den: "0 < real den" using assms(2) by simp
  have s: "0 < real s" using sc(1) by simp
  have kt: "real (k * t) = real s * (real k * 10 powi p * real den)" using sc(3) by simp
  have as: "real (a * s) = real s * real a" by simp
  show "a * s < k * t \<longleftrightarrow> real a / real den < real k * 10 powi p"
    unfolding pos_divide_less_eq[OF den] of_nat_less_iff[where 'a = real, symmetric] kt as
    using s by (simp only: mult_less_cancel_left_pos)
  show "k * t < a * s \<longleftrightarrow> real k * 10 powi p < real a / real den"
    unfolding pos_less_divide_eq[OF den] of_nat_less_iff[where 'a = real, symmetric] kt as
    using s by (simp only: mult_less_cancel_left_pos)
  show "k * t = a * s \<longleftrightarrow> real k * 10 powi p = real a / real den"
    unfolding of_nat_eq_iff[where 'a = real, symmetric] kt as
    using s den by (auto simp: eq_divide_eq)
qed

definition between :: "bool \<Rightarrow> real \<Rightarrow> real \<Rightarrow> real \<Rightarrow> bool" where
  "between incl lo hi v \<longleftrightarrow> lo < v \<and> v < hi \<or> incl \<and> (v = lo \<or> v = hi)"

text \<open>One digit position: the cut and the cut plus one, where the code accepts them, are in the interval.\<close>

lemma cut_between:
  assumes "dec_scale p den = (s, t)" "0 < den" "lo < x" "x < hi"
  defines "k \<equiv> x * s div t"
  shows "lo * s < k * t \<or> incl \<and> k * t = lo * s \<Longrightarrow>
      between incl (real lo / real den) (real hi / real den) (real k * 10 powi p)"
    "Suc k * t < hi * s \<or> incl \<and> Suc k * t = hi * s \<Longrightarrow>
      between incl (real lo / real den) (real hi / real den) (real (Suc k) * 10 powi p)"
proof -
  note sc = dec_scale_real[OF assms(1,2)]
  have "x * s < hi * s" "lo * s < x * s" using assms(3,4) sc(1) by simp_all
  moreover have "k * t \<le> x * s" by (simp add: k_def)
  moreover have "x * s < Suc k * t" using dividend_less_div_times[OF sc(2), of "x * s"] by (simp add: k_def)
  ultimately have ends: "k * t < hi * s" "lo * s < Suc k * t" by linarith+
  note cmp = dec_scale_cmp[OF assms(1,2)]
  show "between incl (real lo / real den) (real hi / real den) (real k * 10 powi p)"
    if "lo * s < k * t \<or> incl \<and> k * t = lo * s"
    using that ends(1) unfolding cmp between_def by blast
  show "between incl (real lo / real den) (real hi / real den) (real (Suc k) * 10 powi p)"
    if "Suc k * t < hi * s \<or> incl \<and> Suc k * t = hi * s"
    using that ends(2) unfolding cmp between_def by blast
qed

lemma shortest_from_step:
  assumes "dec_scale (low + int d) den = (s, t)"
  shows "shortest_from incl lo x hi den low d =
    (let k = x * s div t;
         down = (lo * s < k * t \<or> (incl \<and> k * t = lo * s));
         up = (Suc k * t < hi * s \<or> (incl \<and> Suc k * t = hi * s));
         half_up = (Suc (2 * k) * t < 2 * (x * s) \<or> (Suc (2 * k) * t = 2 * (x * s) \<and> odd k))
     in if down \<and> up then (if half_up then Suc k else k, low + int d)
        else if down then (k, low + int d)
        else if up then (Suc k, low + int d)
        else case d of 0 \<Rightarrow> (k, low + int d) | Suc d' \<Rightarrow> shortest_from incl lo x hi den low d')"
  unfolding shortest_from.simps[of incl lo x hi den low d] assms[unfolded dec_scale_def] Let_def by simp

lemma shortest_from_between:
  assumes den: "0 < den" and ends: "lo < x" "x < hi"
    and exact: "\<And>s t. dec_scale low den = (s, t) \<Longrightarrow> x * s div t * t = x * s"
    and "shortest_from incl lo x hi den low d = (k, p)"
  shows "between incl (real lo / real den) (real hi / real den) (real k * 10 powi p) \<and> low \<le> p"
  using assms(5)
proof (induction d)
  case 0
  obtain s t where st: "dec_scale low den = (s, t)" by fastforce
  have "lo * s < x * s div t * t"
    using exact[OF st] ends(1) dec_scale_real(1)[OF st den] by simp
  then show ?case
    using 0 cut_between[OF st den ends, of incl] shortest_from_step[of low 0 den s t incl lo x hi] st
    by (auto simp: Let_def split: if_splits)
next
  case (Suc d)
  obtain s t where st: "dec_scale (low + int (Suc d)) den = (s, t)" by fastforce
  show ?case
    using Suc cut_between[OF st den ends, of incl] shortest_from_step[OF st, of incl lo x hi]
    by (auto simp: Let_def split: if_splits)
qed

lemma shortest_decimal_in_interval:
  assumes "0 < m" "shortest_decimal m e = (k, p)"
  shows "in_interval m e (real k * 10 powi p) \<and> min 0 e \<le> p"
proof -
  define n where "n = (if 2 \<le> e then 2 ^ nat (e - 2) else (1::nat))"
  define den where "den = (if 2 \<le> e then 1 else 2 ^ nat (2 - e) :: nat)"
  define x where "x = 4 * m * n"
  define hi where "hi = (4 * m + 2) * n"
  define lo where "lo = (if m = 2 ^ 52 \<and> -1074 < e then 4 * m - 1 else 4 * m - 2) * n"
  have n: "0 < n" and den: "0 < den" by (simp_all add: n_def den_def)
  have unit: "real n / real den = 2 powi e / 4"
  proof (cases "2 \<le> e")
    case True
    then show ?thesis using power_int_diff[of "2::real" e 2] by (simp add: n_def den_def power_int_def nat_diff_distrib)
  next
    case False
    have "2 powi e = (2::real) powi 2 / 2 powi (2 - e)" using power_int_diff[of "2::real" 2 "2 - e"] by simp
    then show ?thesis using False by (simp add: n_def den_def power_int_def)
  qed
  have his: "real hi / real den = (real m + 1 / 2) * 2 powi e"
  proof -
    have "real hi / real den = (4 * real m + 2) * (real n / real den)" using den by (simp add: hi_def field_simps)
    also have "\<dots> = (real m + 1 / 2) * 2 powi e" unfolding unit by (simp add: algebra_simps)
    finally show ?thesis .
  qed
  have los: "real lo / real den = (real m - lower_gap m e) * 2 powi e"
  proof -
    have "real lo / real den = (4 * (real m - lower_gap m e)) * (real n / real den)"
      using assms(1) by (auto simp: lo_def lower_gap_def of_nat_diff)
    also have "\<dots> = (real m - lower_gap m e) * 2 powi e" unfolding unit by (simp add: algebra_simps)
    finally show ?thesis .
  qed
  have ends: "lo < x" "x < hi"
    using assms(1) n by (simp_all add: lo_def x_def hi_def)
  have exact: "x * s div t * t = x * s" if "dec_scale (min 0 e) den = (s, t)" for s t
  proof -
    have "t dvd x * s"
    proof (cases "2 \<le> e")
      case True
      then show ?thesis using that by (auto simp: dec_scale_def den_def)
    next
      case False
      show ?thesis
      proof (cases "0 \<le> e")
        case True
        then have "e = 0 \<or> e = 1" using False by linarith
        then show ?thesis using that by (auto simp: dec_scale_def den_def x_def n_def)
      next
        case neg: False
        have "t = 2 ^ nat (2 - e)" "s = 10 ^ nat (- e)" using that neg by (auto simp: dec_scale_def den_def min_def)
        moreover have "nat (2 - e) = 2 + nat (- e)" using neg by linarith
        moreover have "(10::nat) ^ nat (- e) = 2 ^ nat (- e) * 5 ^ nat (- e)" by (simp flip: power_mult_distrib)
        moreover have "x = 4 * m" using neg by (simp add: x_def n_def)
        ultimately have "x * s = t * (m * 5 ^ nat (- e))" by (simp add: power_add)
        then show ?thesis by simp
      qed
    qed
    then show ?thesis by simp
  qed
  have "shortest_decimal m e =
      shortest_from (even m) lo x hi den (min 0 e) (nat (int (length (dec_digits (hi div den))) - min 0 e))"
    by (simp add: shortest_decimal_def Let_def lo_def x_def hi_def n_def den_def)
  then have "between (even m) (real lo / real den) (real hi / real den) (real k * 10 powi p) \<and> min 0 e \<le> p"
    using shortest_from_between[OF den ends exact] assms(2) by metis
  then show ?thesis
    unfolding his los between_def in_interval_def Let_def .
qed

subsection \<open>Digits\<close>

definition digits_val :: "gostring \<Rightarrow> nat" where
  "digits_val ds = foldl (\<lambda>a c. a * 10 + digit_val c) 0 ds"

lemma foldl_digits: "foldl (\<lambda>a c. a * 10 + digit_val c) a ds = a * 10 ^ length ds + digits_val ds"
proof (induction ds arbitrary: a)
  case (Cons c ds)
  show ?case
    unfolding digits_val_def using Cons[of "a * 10 + digit_val c"] Cons[of "digit_val c"]
    by (simp add: algebra_simps)
qed (simp add: digits_val_def)

lemma digits_val_append: "digits_val (s @ t) = digits_val s * 10 ^ length t + digits_val t"
  using foldl_digits[of "digits_val s" t] by (simp add: digits_val_def)

lemma digits_val_simps [simp]: "digits_val [] = 0" "digits_val [c] = digit_val c"
  by (simp_all add: digits_val_def)

definition all_digits :: "gostring \<Rightarrow> bool" where
  "all_digits s \<longleftrightarrow> (\<forall>c \<in> set s. is_dec_digit c)"

lemma hex_digit_dec:
  assumes "n < 10"
  shows "is_dec_digit (hex_digit n)" "digit_val (hex_digit n) = n"
proof -
  have "list_all (\<lambda>n. is_dec_digit (hex_digit n) \<and> digit_val (hex_digit n) = n) [0, 1, 2, 3, 4, 5, 6, 7, 8, 9]"
    by (simp add: hex_digit_def is_dec_digit_def digit_val_def byte_in_def)
  moreover have "n \<in> set [0, 1, 2, 3, 4, 5, 6, 7, 8, 9]" using assms by auto
  ultimately show "is_dec_digit (hex_digit n)" "digit_val (hex_digit n) = n"
    unfolding list_all_iff by blast+
qed

lemma dec_digits_facts: "all_digits (dec_digits n) \<and> digits_val (dec_digits n) = n \<and> dec_digits n \<noteq> []"
proof (induction n rule: dec_digits.induct)
  case (1 n)
  show ?case
  proof (cases "n < 10")
    case True
    then show ?thesis using hex_digit_dec[of n] by (simp add: dec_digits.simps[of n] all_digits_def)
  next
    case False
    then have "all_digits (dec_digits (n div 10))" "digits_val (dec_digits (n div 10)) = n div 10"
      using 1 by auto
    then show ?thesis
      using False hex_digit_dec[of "n mod 10"]
      by (auto simp: dec_digits.simps[of n] digits_val_append all_digits_def)
  qed
qed

lemma length_dec_digits: "n < 10 ^ w \<Longrightarrow> 0 < w \<Longrightarrow> length (dec_digits n) \<le> w"
proof (induction n arbitrary: w rule: dec_digits.induct)
  case (1 n)
  show ?case
  proof (cases "n < 10")
    case True
    then show ?thesis using 1(3) by (simp add: dec_digits.simps[of n])
  next
    case False
    obtain v where w: "w = Suc v" using 1(3) by (cases w) auto
    have "n div 10 < 10 ^ v" using 1(2) by (simp add: w)
    moreover have "0 < v" using 1(2) False by (cases v) (auto simp: w)
    ultimately show ?thesis using 1(1)[OF False, of v] False by (simp add: dec_digits.simps[of n] w)
  qed
qed

lemma zero_digit: "is_dec_digit CHR ''0''" "digit_val CHR ''0'' = 0"
  by (simp_all add: is_dec_digit_def digit_val_def byte_in_def)

lemma digits_val_zeros: "digits_val (replicate j CHR ''0'') = 0"
proof (induction j)
  case (Suc j)
  then show ?case using digits_val_append[of "replicate j CHR ''0''" "''0''"]
    by (simp add: replicate_append_same zero_digit)
qed simp

lemma pad_digits_facts:
  assumes "n < 10 ^ w" "0 < w"
  shows "all_digits (pad_digits w n)" "digits_val (pad_digits w n) = n" "length (pad_digits w n) = w"
  using dec_digits_facts[of n] length_dec_digits[OF assms] zero_digit
  by (auto simp: pad_digits_def Let_def all_digits_def digits_val_append digits_val_zeros)

text \<open>Cutting zeros at the end of a fraction keeps its value.\<close>

lemma TrimRight_zeros:
  shows "\<exists>j. s = TrimRight s ''0'' @ replicate j CHR ''0''"
proof -
  have "s = rev (dropWhile (\<lambda>c. c = CHR ''0'') (rev s)) @ rev (takeWhile (\<lambda>c. c = CHR ''0'') (rev s))"
    by (metis rev_append rev_rev_ident takeWhile_dropWhile_id)
  moreover obtain j where "takeWhile (\<lambda>c. c = CHR ''0'') (rev s) = replicate j CHR ''0''"
  proof -
    let ?z = "takeWhile (\<lambda>c. c = CHR ''0'') (rev s)"
    have "replicate (length ?z) CHR ''0'' = ?z"
      by (rule replicate_length_same) (auto dest: set_takeWhileD)
    from that[OF this[symmetric]] show thesis .
  qed
  moreover have "TrimRight s ''0'' = rev (dropWhile (\<lambda>c. c = CHR ''0'') (rev s))"
    by (simp add: TrimRight_def)
  ultimately show ?thesis by (intro exI[of _ j]) simp
qed

lemma format_fixed_shape:
  obtains ip fp where "format_fixed k p = ip @ (if fp = [] then [] else CHR ''.'' # fp)" "all_digits ip"
    "all_digits fp" "ip \<noteq> []" "real (digits_val (ip @ fp)) / 10 ^ length fp = real k * 10 powi p"
proof (cases "0 \<le> p")
  case True
  let ?ip = "dec_digits (k * 10 ^ nat p)"
  have "real (digits_val (?ip @ [])) / 10 ^ length ([]::gostring) = real k * 10 powi p"
    using True dec_digits_facts[of "k * 10 ^ nat p"] by (simp add: power_int_def)
  then show thesis
    using that[of ?ip "[]"] True dec_digits_facts[of "k * 10 ^ nat p"] by (simp add: format_fixed_def all_digits_def)
next
  case False
  define q where "q = nat (- p)"
  have q: "0 < q" using False by (simp add: q_def)
  define pad where "pad = pad_digits q (k mod 10 ^ q)"
  define ip where "ip = dec_digits (k div 10 ^ q)"
  define fp where "fp = TrimRight pad ''0''"
  note pad = pad_digits_facts[of "k mod 10 ^ q" q, OF _ q, folded pad_def, simplified]
  obtain j where j: "pad = fp @ replicate j CHR ''0''" using TrimRight_zeros[of pad] unfolding fp_def by blast
  have len: "length fp + j = q" using pad(3) by (simp add: j)
  have fv: "digits_val fp * 10 ^ j = k mod 10 ^ q"
    using pad(2) by (simp add: j digits_val_append digits_val_zeros)
  have "digits_val (ip @ fp) * 10 ^ j = k div 10 ^ q * (10 ^ length fp * 10 ^ j) + k mod 10 ^ q"
    using dec_digits_facts[of "k div 10 ^ q"] fv by (simp add: digits_val_append ip_def algebra_simps)
  also have "10 ^ length fp * 10 ^ j = (10::nat) ^ q" by (simp add: len flip: power_add)
  finally have "digits_val (ip @ fp) * 10 ^ j = k" by (simp only: div_mult_mod_eq)
  then have k: "real (digits_val (ip @ fp)) * 10 ^ j = real k" by (metis of_nat_mult of_nat_numeral of_nat_power)
  have "10 powi p = 1 / (10::real) ^ q" using False by (simp add: power_int_def q_def power_one_over inverse_eq_divide)
  also have "(10::real) ^ q = 10 ^ length fp * 10 ^ j" by (simp add: len flip: power_add)
  finally have "real k * 10 powi p = real (digits_val (ip @ fp)) / 10 ^ length fp" by (simp flip: k)
  moreover have "format_fixed k p = ip @ (if fp = [] then [] else CHR ''.'' # fp)"
    using False by (simp add: format_fixed_def Let_def ip_def fp_def pad_def q_def)
  moreover have "all_digits fp" using pad(1) unfolding j all_digits_def by simp
  ultimately show thesis
    using that[of ip fp] dec_digits_facts[of "k div 10 ^ q"] by (simp add: ip_def)
qed

subsection \<open>Parsing what was formatted\<close>

lemma digit_char:
  assumes "is_dec_digit c"
  shows "c = hex_digit (digit_val c)" "digit_val c < 10"
proof -
  have "48 \<le> (of_char c :: nat)" "(of_char c :: nat) \<le> 57"
    using assms by (simp_all add: is_dec_digit_def byte_in_def)
  then have c: "digit_val c < 10" "of_char c = digit_val c + 48"
    unfolding digit_val_def by linarith+
  have "of_char (hex_digit (digit_val c)) = digit_val (hex_digit (digit_val c)) + 48"
    using hex_digit_dec(1)[OF c(1)] by (simp add: is_dec_digit_def digit_val_def byte_in_def)
  then have "of_char (hex_digit (digit_val c)) = (of_char c :: nat)"
    using hex_digit_dec(2)[OF c(1)] c(2) by simp
  then show "c = hex_digit (digit_val c)" by (metis char_of_char)
  show "digit_val c < 10" by (rule c(1))
qed

lemma digit_is_plain:
  assumes "is_dec_digit c"
  shows "lower_byte c = c" "c \<notin> set ''_.+-inx''" "hex_char_val c = Some (digit_val c)"
proof -
  have "list_all (\<lambda>n. lower_byte (hex_digit n) = hex_digit n \<and> hex_digit n \<notin> set ''_.+-inx'') [0, 1, 2, 3, 4, 5, 6, 7, 8, 9]"
    by (simp add: hex_digit_def lower_byte_def)
  moreover have "digit_val c \<in> set [0, 1, 2, 3, 4, 5, 6, 7, 8, 9]" using digit_char(2)[OF assms] by auto
  ultimately show "lower_byte c = c" "c \<notin> set ''_.+-inx''"
    unfolding list_all_iff by (metis digit_char(1)[OF assms])+
  show "hex_char_val c = Some (digit_val c)" using assms by (simp add: hex_char_val_def)
qed

lemma read_mantissa_digits:
  "all_digits ds \<Longrightarrow> read_mantissa 10 (ds @ rest) mn =
     read_mantissa 10 rest (mn\<lparr>mn_val := mn_val mn * 10 ^ length ds + digits_val ds,
       mn_digits := mn_digits mn \<or> ds \<noteq> [], mn_frac := mn_frac mn + (if mn_dot mn then length ds else 0)\<rparr>)"
proof (induction ds arbitrary: mn)
  case (Cons c ds)
  have c: "is_dec_digit c" "all_digits ds" using Cons.prems by (simp_all add: all_digits_def)
  have "digits_val (c # ds) = digit_val c * 10 ^ length ds + digits_val ds"
    using digits_val_append[of "[c]" ds] by simp
  then show ?case
    using digit_is_plain[OF c(1)] digit_char(2)[OF c(1)]
    by (simp add: Cons.IH[OF c(2)] algebra_simps)
qed simp

definition fixed_text :: "gostring \<Rightarrow> gostring \<Rightarrow> gostring" where
  "fixed_text ip fp = ip @ (if fp = [] then [] else CHR ''.'' # fp)"

definition new_mantissa :: mantissa where
  "new_mantissa = \<lparr>mn_val = 0, mn_frac = 0, mn_digits = False, mn_dot = False, mn_under = False\<rparr>"

lemma read_mantissa_fixed:
  assumes "all_digits ip" "all_digits fp" "ip \<noteq> []"
  shows "\<exists>mn. read_mantissa 10 (fixed_text ip fp) new_mantissa = (mn, []) \<and>
    mn_val mn = digits_val (ip @ fp) \<and> mn_frac mn = length fp \<and> mn_digits mn \<and> \<not> mn_under mn"
proof (cases "fp = []")
  case True
  then show ?thesis
    using read_mantissa_digits[OF assms(1), of "[]" new_mantissa] assms(3) by (simp add: fixed_text_def new_mantissa_def)
next
  case False
  then show ?thesis
    using read_mantissa_digits[OF assms(1), of "CHR ''.'' # fp" new_mantissa] assms(3)
      read_mantissa_digits[OF assms(2), of "[]"]
    by (simp add: fixed_text_def new_mantissa_def digits_val_append)
qed

lemma fixed_text_chars:
  assumes "all_digits ip" "all_digits fp" "c \<in> set (fixed_text ip fp)"
  shows "lower_byte c = c \<and> c \<notin> set ''_+-inx''"
proof -
  have "is_dec_digit c \<or> c = CHR ''.''"
    using assms by (auto simp: fixed_text_def all_digits_def split: if_splits)
  then show ?thesis
  proof
    assume "is_dec_digit c"
    then show ?thesis using digit_is_plain[of c] by simp
  next
    assume "c = CHR ''.''"
    then show ?thesis by (simp add: lower_byte_def)
  qed
qed

definition sign_text :: "bool \<Rightarrow> gostring" where
  "sign_text neg = (if neg then ''-'' else [])"

lemma drop_sign_text:
  assumes "t \<noteq> []" "hd t \<notin> set ''+-''"
  shows "drop_sign (sign_text neg @ t) = (neg, t)"
  using assms by (cases t) (auto simp: drop_sign_def sign_text_def)

lemma ParseFloat_fixed:
  assumes "all_digits ip" "all_digits fp" "ip \<noteq> []"
  shows "ParseFloat (sign_text neg @ fixed_text ip fp) =
    (case float_value neg (digits_val (ip @ fp)) 10 (- int (length fp)) of None \<Rightarrow> Inl ErrRange | Some x \<Rightarrow> Inr x)"
proof -
  let ?t = "fixed_text ip fp"
  note chars = fixed_text_chars[OF assms(1,2)]
  have t: "?t \<noteq> []" using assms(3) by (simp add: fixed_text_def)
  then have hd: "lower_byte (hd ?t) = hd ?t" "hd ?t \<notin> set ''_+-inx''" using chars hd_in_set by blast+
  have sign: "drop_sign (sign_text neg @ ?t) = (neg, ?t)" by (rule drop_sign_text[OF t]) (use hd in simp)
  have low: "hd (ToLower ?t) = hd ?t" using t hd by (simp add: ToLower_def hd_map)
  have "ToLower ?t \<notin> {''inf'', ''infinity''}" using low hd(2) by auto
  moreover have "ToLower (sign_text neg @ ?t) \<noteq> ''nan''"
  proof (cases neg)
    case True
    then show ?thesis by (simp add: sign_text_def ToLower_def lower_byte_def)
  next
    case False
    then show ?thesis using low hd(2) by (auto simp: sign_text_def)
  qed
  ultimately have special: "special_float (sign_text neg @ ?t) = None"
    by (simp add: special_float_def sign Let_def)
  have "lower_byte (?t ! 1) \<noteq> CHR ''x''" if "2 < length ?t"
    using chars[of "?t ! 1"] that by auto
  then have hex: "\<not> (2 < length ?t \<and> hd ?t = CHR ''0'' \<and> lower_byte (?t ! 1) = CHR ''x'')" by blast
  obtain mn where mn: "read_mantissa 10 ?t new_mantissa = (mn, [])" "mn_val mn = digits_val (ip @ fp)"
    "mn_frac mn = length fp" "mn_digits mn" "\<not> mn_under mn"
    using read_mantissa_fixed[OF assms] by blast
  show ?thesis
    unfolding ParseFloat_def special sign Let_def option.case prod.case if_not_P[OF hex]
    by (simp add: mn[unfolded new_mantissa_def] read_exponent_def) (use hex in auto)
qed

subsection \<open>The round trip\<close>

lemma to_float_interval:
  assumes "canonical_float (FloatFin neg m e)" "0 < m" "0 < num" "0 < den" "in_interval m e (real num / real den)"
  shows "to_float neg num den = Some (FloatFin neg m e)"
proof -
  have "round_pos num den = (m, e)"
    by (rule round_pos_interval) (use assms in auto)
  then show ?thesis using assms(1) by (simp add: to_float_def)
qed

lemma interval_pos: "0 < m \<Longrightarrow> in_interval m e v \<Longrightarrow> 0 < v"
proof -
  assume "0 < m" "in_interval m e v"
  moreover from this have "0 < (real m - lower_gap m e) * 2 powi e"
    by (intro mult_pos_pos) (auto simp: lower_gap_def)
  ultimately show "0 < v" using in_interval_bounds(1)[of m e v] by linarith
qed

lemma ParseFloat_FormatFloat:
  assumes "canonical_float f"
  shows "ParseFloat (FormatFloat f) = Inr f"
proof (cases f)
  case (FloatInf neg)
  then show ?thesis
    by (cases neg) (simp_all add: FormatFloat_def ParseFloat_def special_float_def drop_sign_def ToLower_def lower_byte_def)
next
  case FloatNaN
  then show ?thesis
    by (simp add: FormatFloat_def ParseFloat_def special_float_def drop_sign_def ToLower_def lower_byte_def)
next
  case (FloatFin neg m e)
  show ?thesis
  proof (cases "m = 0")
    case True
    have "all_digits ''0''" "all_digits []" by (simp_all add: all_digits_def zero_digit)
    then show ?thesis
      using ParseFloat_fixed[of "''0''" "[]" neg] assms True FloatFin
      by (auto simp: FormatFloat_def sign_text_def fixed_text_def zero_digit float_value_def)
  next
    case False
    obtain k p where kp: "shortest_decimal m e = (k, p)" by fastforce
    obtain ip fp where shape: "format_fixed k p = fixed_text ip fp" "all_digits ip" "all_digits fp" "ip \<noteq> []"
      and val: "real (digits_val (ip @ fp)) / 10 ^ length fp = real k * 10 powi p"
      using format_fixed_shape[of k p] unfolding fixed_text_def by metis
    have "in_interval m e (real k * 10 powi p)" using shortest_decimal_in_interval[of m e k p] False kp by simp
    then have int: "in_interval m e (real (digits_val (ip @ fp)) / real (10 ^ length fp))" using val by simp
    have "0 < real (digits_val (ip @ fp)) / real (10 ^ length fp)"
      by (rule interval_pos[OF _ int]) (use False in simp)
    then have pos: "0 < digits_val (ip @ fp)" by (simp add: zero_less_divide_iff)
    have "to_float neg (digits_val (ip @ fp)) (10 ^ length fp) = Some (FloatFin neg m e)"
      by (rule to_float_interval) (use assms FloatFin False pos int in simp_all)
    then have "float_value neg (digits_val (ip @ fp)) 10 (- int (length fp)) = Some (FloatFin neg m e)"
      using pos by (cases "fp = []") (simp_all add: float_value_def)
    then show ?thesis
      using ParseFloat_fixed[OF shape(2-4), of neg] False
      by (simp add: FloatFin FormatFloat_def kp shape(1) sign_text_def)
  qed
qed

end
