(* ===== verification/VodProperties.thy ===== *)
theory VodProperties
  imports VodNamespace GoFloatRoundtrip
begin

section \<open>Properties of the recorder and of the recordings listing\<close>

text \<open>
  What the uploader does with its environment, its file and its object, and how the streams service
  answers for the bucket.  The witnesses run on a small environment whose storage accepts every put.
\<close>

subsection \<open>A concrete environment\<close>

definition demo_env :: environment where
  "demo_env = \<lparr>open_file = (\<lambda>p. None), remove_file = (\<lambda>p. None),
     put_object = (\<lambda>client timeout inp objs. (None, objs((pi_Bucket inp, pi_Key inp) \<mapsto>
       \<lparr>so_Body = pi_Body inp, so_ContentType = pi_ContentType inp, so_Metadata = pi_Metadata inp\<rparr>)))\<rparr>"

definition demo_vars :: "gostring \<Rightarrow> gostring \<Rightarrow> gostring" where
  "demo_vars path name =
     (case map_of
        [(''S3_ENDPOINT'', ''e''), (''S3_BUCKET'', ''b''), (''S3_ACCESS_KEY'', ''a''), (''S3_SECRET_KEY'', ''s''),
         (''MTX_PATH'', path), (''MTX_SEGMENT_PATH'', ''/d/1.mp4''), (''MTX_SEGMENT_DURATION'', ''2'')] name of
        Some v \<Rightarrow> v | None \<Rightarrow> [])"

lemma demo_env_durable: "durable_puts demo_env" and demo_env_atomic: "atomic_puts demo_env"
  by (simp_all add: durable_puts_def atomic_puts_def demo_env_def)

lemma required_names_order: "required_order required_names"
  by (simp add: required_order_def required_names_def)

lemma parse_two: "ParseFloat ''2'' = Inr (FloatFin False 4503599627370496 (- 51))"
  by (simp add: ParseFloat_def special_float_def drop_sign_def ToLower_def lower_byte_def hex_char_val_def is_dec_digit_def
      digit_val_def byte_in_def read_exponent_def float_value_def to_float_def round_pos_def binade_def scaled_def
      round_half_even_def bit_len.simps Let_def)

lemma demo_config: "loadConfig required_names (demo_vars path) = Inr (env_config (demo_vars path) defaultUploadTimeout)"
proof -
  have "env_complete (demo_vars path)" by (simp add: env_complete_def required_names_def demo_vars_def)
  moreover have "env_timeout (demo_vars path) = Some defaultUploadTimeout" by (simp add: env_timeout_def demo_vars_def)
  ultimately show ?thesis by (simp add: loadConfig_complete[OF required_names_order])
qed

definition demo_segment :: "gostring \<Rightarrow> segment" where
  "demo_segment path =
     \<lparr>sg_Path = path, sg_LocalPath = ''/d/1.mp4'', sg_Duration = FloatFin False 4503599627370496 (- 51)\<rparr>"

lemma demo_load:
  "path \<noteq> [] \<Longrightarrow> CHR ''/'' \<notin> set path \<Longrightarrow> CHR 0x5C \<notin> set path \<Longrightarrow>
     loadSegment (demo_vars path) = Inr (demo_segment path)"
  by (simp add: loadSegment_def vodContainsPathTraversal_def ContainsAny_iff demo_vars_def demo_segment_def parse_two Let_def)

lemma demo_base: "filepath_Base ''/d/1.mp4'' = ''1.mp4''"
  by (simp add: filepath_Base_def TrimRight_def)

definition demo_world :: world where
  "demo_world = \<lparr>files = [''/d/1.mp4'' \<mapsto> ''data''], objects = Map.empty\<rparr>"

lemma demo_run:
  assumes "path \<noteq> []" "CHR ''/'' \<notin> set path" "CHR 0x5C \<notin> set path"
  shows "vod_main demo_env required_names (demo_vars path) demo_world =
    (Uploaded None,
     \<lparr>files = Map.empty, objects = [(''b'', objectKey (demo_segment path)) \<mapsto> stored (demo_segment path) ''data'']\<rparr>)"
  by (simp add: vod_main_def demo_config demo_load[OF assms] uploadSegment_def os_Open_def os_Remove_def demo_env_def
      demo_world_def env_config_def demo_vars_def upload_input_def stored_def Let_def demo_segment_def)

subsection \<open>The environment of the recorder\<close>

text \<open>
  C18: Whatever the order in which the required variables are visited, the configuration is accepted
  exactly if all four are set and the timeout, if given, parses; and an error names a variable that
  is missing, or the timeout.
\<close>

theorem loadConfig_any_order:
  assumes "required_order order"
  shows "if env_complete getenv
    then loadConfig order getenv =
      (case env_timeout getenv of
         None \<Rightarrow> Inl (BadTimeout (getenv ''S3_UPLOAD_TIMEOUT''))
       | Some d \<Rightarrow> Inr (env_config getenv d))
    else \<exists>name \<in> set required_names. getenv name = [] \<and> loadConfig order getenv = Inl (MissingVar name)"
  using loadConfig_complete[OF assms] loadConfig_incomplete[OF assms] by simp

theorem loadConfig_any_order_witness:
  "\<exists>name \<in> set required_names. loadConfig (rev required_names) (\<lambda>x. []) = Inl (MissingVar name)"
proof -
  have "required_order (rev required_names)"
    using required_names_order by (simp add: required_order_def)
  from loadConfig_any_order[OF this, of "\<lambda>x. []"] show ?thesis
    by (simp add: env_complete_def required_names_def)
qed

subsection \<open>One run of the recorder\<close>

text \<open>
  C19: The duration is not lost: after a run that reports an upload, the object's
  \<open>duration-seconds\<close> metadata parses to exactly the float64 that the environment's duration parses to.
\<close>

theorem duration_survives_upload:
  assumes "durable_puts env" "vod_main env order getenv w = (Uploaded res, w')"
  shows "\<exists>cfg seg obj text. loadConfig order getenv = Inr cfg \<and> loadSegment getenv = Inr seg \<and>
    objects w' (cf_Bucket cfg, objectKey seg) = Some obj \<and> so_Metadata obj ''duration-seconds'' = Some text \<and>
    ParseFloat text = Inr (sg_Duration seg) \<and> ParseFloat (getenv ''MTX_SEGMENT_DURATION'') = Inr (sg_Duration seg)"
proof -
  obtain cfg seg where load: "loadConfig order getenv = Inr cfg" "loadSegment getenv = Inr seg"
    using assms(2) by (blast elim: vod_main_uploaded)
  obtain body where "objects w' = (objects w)((cf_Bucket cfg, objectKey seg) \<mapsto> stored seg body)"
    using vod_main_objects[OF assms load] by blast
  then have "objects w' (cf_Bucket cfg, objectKey seg) = Some (stored seg body)" by simp
  moreover have parsed: "ParseFloat (getenv ''MTX_SEGMENT_DURATION'') = Inr (sg_Duration seg)"
    using load(2) unfolding loadSegment_Inr_iff by blast
  moreover have "so_Metadata (stored seg body) ''duration-seconds'' = Some (FormatFloat (sg_Duration seg))"
    by (simp add: stored_def)
  ultimately show ?thesis
    using load ParseFloat_FormatFloat[OF ParseFloat_canonical[OF parsed]] by blast
qed

theorem duration_survives_upload_witness:
  "\<exists>obj text. objects (snd (vod_main demo_env required_names (demo_vars ''alice'') demo_world))
       (''b'', objectKey (demo_segment ''alice'')) = Some obj \<and>
     so_Metadata obj ''duration-seconds'' = Some text \<and> ParseFloat text = Inr (FloatFin False 4503599627370496 (- 51))"
  using duration_survives_upload[OF demo_env_durable, of required_names "demo_vars ''alice''" demo_world None]
  by (auto simp: demo_run demo_config demo_load env_config_def demo_vars_def)
     (auto simp: demo_segment_def)

text \<open>
  C20: No recording is lost: if a file is gone after a run, the run reported an upload, the file is
  the segment's, and its contents are stored under the segment's key with its content type and
  duration.
\<close>

theorem file_removed_only_after_upload:
  assumes "durable_puts env" "vod_main env order getenv w = (out, w')"
    and "files w path = Some body" "files w' path \<noteq> Some body"
  shows "\<exists>cfg seg. out = Uploaded None \<and> loadConfig order getenv = Inr cfg \<and> loadSegment getenv = Inr seg \<and>
    sg_LocalPath seg = path \<and> objects w' (cf_Bucket cfg, objectKey seg) = Some (stored seg body)"
proof (cases out)
  case (Fatal err)
  then have "files w' = files w" using vod_main_fatal assms(2) by blast
  then show ?thesis using assms(3,4) by simp
next
  case (Uploaded res)
  obtain cfg seg where load: "loadConfig order getenv = Inr cfg" "loadSegment getenv = Inr seg"
    using assms(2) Uploaded by (blast elim: vod_main_uploaded)
  obtain body' where "files w (sg_LocalPath seg) = Some body'"
    "objects w' = (objects w)((cf_Bucket cfg, objectKey seg) \<mapsto> stored seg body')"
    "files w' = files w \<or> res = None \<and> files w' = (files w)(sg_LocalPath seg := None)"
    using vod_main_objects[OF assms(1) assms(2)[unfolded Uploaded] load] by blast
  with assms(3,4) Uploaded load show ?thesis
    by (intro exI[of _ cfg] exI[of _ seg]) (auto split: if_splits)
qed

theorem file_removed_only_after_upload_witness:
  "\<exists>cfg seg. Uploaded None = Uploaded None \<and> loadConfig required_names (demo_vars ''alice'') = Inr cfg \<and>
     loadSegment (demo_vars ''alice'') = Inr seg \<and> sg_LocalPath seg = ''/d/1.mp4'' \<and>
     objects (snd (vod_main demo_env required_names (demo_vars ''alice'') demo_world)) (cf_Bucket cfg, objectKey seg) =
       Some (stored seg ''data'')"
proof (rule file_removed_only_after_upload[OF demo_env_durable])
  show "vod_main demo_env required_names (demo_vars ''alice'') demo_world =
      (Uploaded None, snd (vod_main demo_env required_names (demo_vars ''alice'') demo_world))"
    by (simp add: demo_run)
qed (simp_all add: demo_world_def demo_run[unfolded demo_world_def])

text \<open>
  C21: A run touches nothing else: whatever its outcome, only the segment's own file may be gone and
  only the object under the segment's key in the configured bucket may differ.
\<close>

theorem run_touches_only_its_segment:
  assumes "durable_puts env" "atomic_puts env" "vod_main env order getenv w = (out, w')"
  shows "(\<forall>path. path \<noteq> getenv ''MTX_SEGMENT_PATH'' \<longrightarrow> files w' path = files w path) \<and>
    (\<forall>bucket key. (\<forall>seg. loadSegment getenv = Inr seg \<longrightarrow> bucket = getenv ''S3_BUCKET'' \<longrightarrow> key \<noteq> objectKey seg) \<longrightarrow>
       objects w' (bucket, key) = objects w (bucket, key))"
  by (rule vod_main_frame[OF assms])

theorem run_touches_only_its_segment_witness:
  "files (snd (vod_main demo_env required_names (demo_vars ''alice'') demo_world)) ''other'' = files demo_world ''other''"
  using run_touches_only_its_segment[OF demo_env_durable demo_env_atomic surjective_pairing,
      where order = required_names and getenv = "demo_vars ''alice''" and w = demo_world]
  by (simp add: demo_vars_def)

subsection \<open>Where objects go\<close>

text \<open>
  C22: Objects of different channels are apart: for channel and file names that are plain path
  elements, a listing by a channel's prefix matches a segment's key exactly if the segment is that
  channel's, and two segments share a key exactly if channel and file name agree.
\<close>

theorem object_keys_separate_channels:
  assumes "plain_segment x" "plain_segment y" "plain_elem slug"
  shows "(prefix (listPrefix slug) (objectKey x) \<longleftrightarrow> sg_Path x = slug) \<and>
    (objectKey x = objectKey y \<longleftrightarrow>
       sg_Path x = sg_Path y \<and> filepath_Base (sg_LocalPath x) = filepath_Base (sg_LocalPath y))"
  using vod.listed_iff[OF assms(1,3)] vod.key_eq_iff[OF assms(1,2)] by blast

lemma demo_plain: "plain_segment (demo_segment ''alice'')"
  by (simp add: plain_segment_def demo_segment_def demo_base plain_elem_def)

theorem object_keys_separate_channels_witness:
  "\<not> prefix (listPrefix ''al'') (objectKey (demo_segment ''alice''))"
  using object_keys_separate_channels[OF demo_plain demo_plain, of "''al''"]
  by (simp add: plain_elem_def demo_segment_def)

text \<open>
  C23: The path \<open>..\<close> passes the traversal check, and its recordings are stored outside
  \<open>recordings/\<close>, at the top of the bucket.
\<close>

theorem dotdot_path_escapes_recordings:
  assumes "getenv ''MTX_PATH'' = ''..''" "loadSegment getenv = Inr seg"
    and "plain_elem (filepath_Base (sg_LocalPath seg))"
  shows "\<not> vodContainsPathTraversal (sg_Path seg) \<and> objectKey seg = filepath_Base (sg_LocalPath seg) \<and>
    \<not> prefix ''recordings/'' (objectKey seg)"
proof -
  have path: "sg_Path seg = ''..''" using assms(1,2) by (simp add: loadSegment_Inr_iff)
  have "CHR ''/'' \<notin> set (filepath_Base (sg_LocalPath seg))"
    using assms(3) by (simp add: plain_elem_def)
  then have "\<not> prefix ''recordings/'' (filepath_Base (sg_LocalPath seg))"
    using set_mono_prefix by fastforce
  then show ?thesis
    using objectKey_dotdot[OF path assms(3)] path by (simp add: vodContainsPathTraversal_def ContainsAny_iff)
qed

theorem dotdot_path_escapes_recordings_witness:
  "objectKey (demo_segment ''..'') = ''1.mp4''"
  using dotdot_path_escapes_recordings[of "demo_vars ''..''" "demo_segment ''..''"] demo_load[of "''..''"]
  by (simp add: demo_vars_def demo_segment_def demo_base plain_elem_def)

subsection \<open>The listing\<close>

definition demo_pages :: "s3_object list list \<Rightarrow> paginator" where
  "demo_pages ps = \<lparr>pg_HasMorePages = (\<lambda>i. i < length ps), pg_NextPage = (\<lambda>i. Inr (ps ! i))\<rparr>"

definition demo_sdk :: "s3_object list list \<Rightarrow> s3_sdk" where
  "demo_sdk ps = \<lparr>sdk_ListObjectsV2 = (\<lambda>c b p. demo_pages ps), sdk_PresignGetObject = (\<lambda>c b k t. Inr k)\<rparr>"

definition demo_object :: "gostring \<Rightarrow> s3_object" where
  "demo_object key = \<lparr>obj_Key = Some key, obj_Size = Some 1, obj_LastModified = None\<rparr>"

definition demo_recordings :: s3Recordings where
  "demo_recordings = \<lparr>sr_client = s3_options Retrieve ''e'' True ''a'' ''s'', sr_bucket = ''b''\<rparr>"

text \<open>
  C24: If the paginator ends or fails at some call, the listing returns: a success holds the objects
  of all pages in order, and a failure carries bucket, prefix and the error of a page that was asked for.
\<close>

theorem ListRecordings_total:
  assumes "let pg = sdk_ListObjectsV2 sdk (sr_client s) (sr_bucket s) (listPrefix slug)
    in \<not> pg_HasMorePages pg n \<or> (\<exists>err. pg_NextPage pg n = Inl err)"
  shows "let pg = sdk_ListObjectsV2 sdk (sr_client s) (sr_bucket s) (listPrefix slug)
    in (\<exists>pages. yields_pages pg 0 pages \<and>
          ListRecordings sdk s slug = Some (Inr (map to_recording (concat pages)))) \<or>
       (\<exists>i err. pg_HasMorePages pg i \<and> pg_NextPage pg i = Inl err \<and>
          ListRecordings sdk s slug = Some (Inl (ListError (sr_bucket s) (listPrefix slug) err)))"
proof -
  define pg where "pg = sdk_ListObjectsV2 sdk (sr_client s) (sr_bucket s) (listPrefix slug)"
  obtain res where "list_pages pg 0 [] = Some res" "pages_result pg 0 [] res"
    using list_pages_total[of pg 0 n "[]"] assms by (auto simp: pg_def Let_def)
  then show ?thesis
    unfolding pg_def[symmetric] by (cases res) (auto simp: ListRecordings_def pages_result_def Let_def pg_def)
qed

theorem ListRecordings_total_witness:
  "\<exists>res. ListRecordings (demo_sdk [[demo_object ''x''], [demo_object ''y'']]) demo_recordings ''alice'' = Some res"
  using ListRecordings_total[of "demo_sdk [[demo_object ''x''], [demo_object ''y'']]" demo_recordings "''alice''" 2]
  by (auto simp: demo_sdk_def demo_pages_def Let_def)

lemma presign_all_cases:
  "(\<exists>x \<in> set objs. \<exists>err. api_PresignGet api (ro_Key x) recordingURLExpiry = Inl err) \<and>
     (\<exists>err. presign_all api objs = Inl err) \<or>
   \<not> (\<exists>x \<in> set objs. \<exists>err. api_PresignGet api (ro_Key x) recordingURLExpiry = Inl err) \<and>
     presign_all api objs =
       Inr (map (\<lambda>x. \<lparr>rec_Key = ro_Key x, rec_URL = projr (api_PresignGet api (ro_Key x) recordingURLExpiry),
        rec_RecordedAt = ro_LastModified x, rec_SizeBytes = ro_SizeBytes x\<rparr>) objs)"
proof (cases "\<exists>x \<in> set objs. \<exists>err. api_PresignGet api (ro_Key x) recordingURLExpiry = Inl err")
  case True
  then show ?thesis using presign_all_Inl_iff[of api objs] by simp
next
  case False
  then show ?thesis by (induction objs) (auto split: sum.split)
qed

text \<open>
  The listing handler on every branch: 503 without storage, 400 for a slug with a slash or
  backslash, 502 if listing or any presigning fails, else 200 with every listed object, in order,
  each with the URL presigned for its own key.
\<close>

lemma recordings_handler_cases:
  "newListRecordingsHandler api0 r =
     (case api0 of
        None \<Rightarrow> Some (writeError StatusServiceUnavailable ErrRecordingsNotConfigured)
      | Some api \<Rightarrow>
          if set (rq_slug r) \<inter> {CHR ''/'', CHR 0x5C} \<noteq> {}
          then Some (writeError StatusBadRequest (InvalidSlug (rq_slug r)))
          else case api_ListRecordings api (rq_slug r) of
            None \<Rightarrow> None
          | Some (Inl err) \<Rightarrow> Some (writeError StatusBadGateway (StorageError err))
          | Some (Inr objs) \<Rightarrow>
              if \<exists>x \<in> set objs. \<exists>err. api_PresignGet api (ro_Key x) recordingURLExpiry = Inl err
              then Some (writeError StatusBadGateway (StorageError (projl (presign_all api objs))))
              else Some (writeBody StatusOK (recordings_body (map (\<lambda>x.
                \<lparr>rec_Key = ro_Key x, rec_URL = projr (api_PresignGet api (ro_Key x) recordingURLExpiry),
                 rec_RecordedAt = ro_LastModified x, rec_SizeBytes = ro_SizeBytes x\<rparr>) objs))))"
proof (cases api0)
  case (Some api)
  consider "api_ListRecordings api (rq_slug r) = None"
    | err where "api_ListRecordings api (rq_slug r) = Some (Inl err)"
    | objs where "api_ListRecordings api (rq_slug r) = Some (Inr objs)"
    by (metis not_None_eq sum.exhaust)
  then show ?thesis
  proof cases
    case (3 objs)
    then show ?thesis
      using presign_all_cases[of objs api]
      by (elim disjE conjE exE; auto simp: Some newListRecordingsHandler_def containsPathTraversal_def ContainsAny_iff Let_def)
  qed (simp_all add: Some newListRecordingsHandler_def containsPathTraversal_def ContainsAny_iff Let_def)
qed (simp add: newListRecordingsHandler_def)

end
