(* ===== verification/VodService.thy ===== *)
theory VodService
  imports StreamsMain VodProperties
begin

section \<open>The recorder and the listing endpoint together\<close>

text \<open>
  Runs of the recorder fill a bucket, and \<open>GET /channels/<slug>/recordings\<close> of the streams service
  answers for it: what was uploaded is listed, under its own channel only, and the slug \<open>.\<close> lists
  every channel.
\<close>

subsection \<open>The endpoint over an honest bucket\<close>

lemma presign_all_ok:
  assumes "\<forall>key. \<exists>url. api_PresignGet api key recordingURLExpiry = Inr url"
  shows "\<exists>recs. presign_all api objs = Inr recs \<and> map rec_Key recs = map ro_Key objs"
proof (cases "presign_all api objs")
  case (Inl err)
  then have "\<exists>x \<in> set objs. \<exists>e. api_PresignGet api (ro_Key x) recordingURLExpiry = Inl e"
    using presign_all_Inl_iff[of api objs] by blast
  then show ?thesis using assms by (metis Inl_Inr_False)
next
  case (Inr recs)
  then show ?thesis using presign_all_Inr by blast
qed

definition presigns :: "s3_sdk \<Rightarrow> s3Recordings \<Rightarrow> bool" where
  "presigns sdk s \<longleftrightarrow> (\<forall>key. \<exists>url. PresignGet sdk s key recordingURLExpiry = Inr url)"

lemma recordings_endpoint:
  assumes "honest_listing sdk w" "presigns sdk s"
    and "hr_path hr = channel_url enc ''recordings''" "hr_method hr = ''GET''" "plain_elem enc"
    and "CHR ''/'' \<notin> set (pathUnescape enc)" "CHR 0x5C \<notin> set (pathUnescape enc)"
  shows "\<exists>recs. serve (streams_routes v k (Some (s3_api sdk s))) inp hr st =
      (HandlerReply (writeBody StatusOK (recordings_body recs)), st) \<and>
    map rec_Key recs =
      sorted_list_of_set {key \<in> keys_in (sr_bucket s) w. prefix (listPrefix (pathUnescape enc)) key}"
proof -
  let ?slug = "pathUnescape enc"
  obtain objs where objs: "ListRecordings sdk s ?slug = Some (Inr objs)"
    "map ro_Key objs = sorted_list_of_set {key \<in> keys_in (sr_bucket s) w. prefix (listPrefix ?slug) key}"
    using ListRecordings_honest[OF assms(1)] by metis
  obtain recs where recs: "presign_all (s3_api sdk s) objs = Inr recs" "map rec_Key recs = map ro_Key objs"
    using presign_all_ok[of "s3_api sdk s"] assms(2) unfolding presigns_def s3_api_def by auto
  have "newListRecordingsHandler (Some (s3_api sdk s)) (with_slug hr ?slug) =
      Some (writeBody StatusOK (recordings_body recs))"
    using objs(1) recs(1) assms(6,7)
    by (simp add: newListRecordingsHandler_def with_slug_def containsPathTraversal_def ContainsAny_iff s3_api_def Let_def)
  moreover have "?slug \<noteq> ''/''" using assms(6) by auto
  ultimately show ?thesis
    using serve_recordings[OF assms(3-5), of v k "Some (s3_api sdk s)" inp st] recs(2) objs(2) by auto
qed

lemma vod_runs_finite:
  assumes "durable_puts env" "atomic_puts env" "vod_runs env order gs w = (outs, w')" "finite (keys_in b w)"
  shows "finite (keys_in b w')"
proof -
  let ?new = "{objectKey seg | seg g. g \<in> set gs \<and> loadSegment g = Inr seg}"
  have "?new \<subseteq> (\<lambda>g. objectKey (projr (loadSegment g))) ` set gs" by force
  then have "finite ?new" by (rule finite_subset) simp
  moreover have "keys_in b w' \<subseteq> keys_in b w \<union> ?new"
    using vod_runs_keys[OF assms(1-3), of b] by blast
  ultimately show ?thesis using assms(4) by (meson finite_UnI finite_subset)
qed

subsection \<open>From upload to listing\<close>

text \<open>
  C27: After any runs of the recorder into an empty bucket, the recordings endpoint of a channel
  answers 200 with a sorted list without repetitions that holds the object of every segment of that
  channel whose run reported an upload, and nothing but objects of segments of that channel.
\<close>

theorem uploaded_segments_are_listed:
  assumes "durable_puts env" "atomic_puts env"
    and "vod_runs env order gs w = (outs, w')" "keys_in (sr_bucket s) w = {}"
    and "\<And>g seg. g \<in> set gs \<Longrightarrow> loadSegment g = Inr seg \<Longrightarrow> plain_segment seg"
    and "honest_listing sdk w'" "presigns sdk s"
    and "hr_path hr = channel_url enc ''recordings''" "hr_method hr = ''GET''" "plain_elem enc"
    and "plain_elem (pathUnescape enc)" "CHR 0x5C \<notin> set (pathUnescape enc)"
  shows "\<exists>recs. serve (streams_routes v k (Some (s3_api sdk s))) inp hr st =
      (HandlerReply (writeBody StatusOK (recordings_body recs)), st) \<and>
    sorted (map rec_Key recs) \<and> distinct (map rec_Key recs) \<and>
    (\<forall>(g, out) \<in> set (zip gs outs). \<forall>seg res.
       out = Uploaded res \<and> loadSegment g = Inr seg \<and> g ''S3_BUCKET'' = sr_bucket s \<and> sg_Path seg = pathUnescape enc \<longrightarrow>
       objectKey seg \<in> set (map rec_Key recs)) \<and>
    (\<forall>key \<in> set (map rec_Key recs). \<exists>g \<in> set gs. \<exists>seg.
       g ''S3_BUCKET'' = sr_bucket s \<and> loadSegment g = Inr seg \<and> sg_Path seg = pathUnescape enc \<and> key = objectKey seg)"
proof -
  let ?b = "sr_bucket s" and ?slug = "pathUnescape enc"
  let ?listed = "{key \<in> keys_in ?b w'. prefix (listPrefix ?slug) key}"
  have slash: "CHR ''/'' \<notin> set ?slug" using assms(11) by (simp add: plain_elem_def)
  from recordings_endpoint[OF assms(6-10) slash assms(12)] obtain recs where
    recs: "serve (streams_routes v k (Some (s3_api sdk s))) inp hr st =
      (HandlerReply (writeBody StatusOK (recordings_body recs)), st)"
    and keys: "map rec_Key recs = sorted_list_of_set ?listed"
    by blast
  have "finite ?listed" using vod_runs_finite[OF assms(1-3), of ?b] assms(4) by simp
  then have set: "set (map rec_Key recs) = ?listed" by (simp only: keys set_sorted_list_of_set)
  note runs = vod_runs_keys[OF assms(1-3), of ?b, unfolded assms(4)]
  have own: "\<exists>g \<in> set gs. \<exists>seg. g ''S3_BUCKET'' = ?b \<and> loadSegment g = Inr seg \<and> sg_Path seg = ?slug \<and> key = objectKey seg"
    if listed: "key \<in> ?listed" for key
  proof -
    from listed have "key \<in> keys_in ?b w' - {}" by simp
    then obtain g seg where g: "g \<in> set gs" "g ''S3_BUCKET'' = ?b" "loadSegment g = Inr seg" "key = objectKey seg"
      using runs by blast
    then have "sg_Path seg = ?slug"
      using vod.listed_iff[OF assms(5)[OF g(1,3)] assms(11)] listed by blast
    then show ?thesis using g by blast
  qed
  have there: "objectKey seg \<in> ?listed"
    if "(g, out) \<in> set (zip gs outs)" "out = Uploaded res" "loadSegment g = Inr seg" "g ''S3_BUCKET'' = ?b" "sg_Path seg = ?slug"
    for g out seg res
    using runs that vod.own[OF assms(5)[OF set_zip_leftD[OF that(1)] that(3)]] by auto
  show ?thesis
    by (rule exI[of _ recs]) (use recs own there in \<open>auto simp: set simp del: set_map, simp_all add: keys\<close>)
qed

text \<open>A service over the storage of \<open>demo_env\<close>: one page with all keys, and presigned URLs.\<close>

definition one_page_sdk :: "world \<Rightarrow> s3_sdk" where
  "one_page_sdk w =
     \<lparr>sdk_ListObjectsV2 = (\<lambda>client bucket p. demo_pages
        [map demo_object (sorted_list_of_set {k \<in> keys_in bucket w. prefix p k})]),
      sdk_PresignGetObject = (\<lambda>client bucket key expires. Inr key)\<rparr>"

lemma one_page_honest: "honest_listing (one_page_sdk w) w"
  unfolding honest_listing_def
proof (intro allI)
  fix client :: s3_Options and bucket p
  let ?keys = "sorted_list_of_set {k \<in> keys_in bucket w. prefix p k}"
  show "\<exists>pages. yields_pages (sdk_ListObjectsV2 (one_page_sdk w) client bucket p) 0 pages \<and>
      map obj_Key (concat pages) = map Some ?keys"
    by (rule exI[of _ "[map demo_object ?keys]"])
       (simp add: one_page_sdk_def demo_pages_def demo_object_def)
qed

lemma one_page_presigns: "presigns (one_page_sdk w) s"
  by (simp add: presigns_def PresignGet_def one_page_sdk_def)

definition get_recordings :: "gostring \<Rightarrow> http_request" where
  "get_recordings enc =
     \<lparr>hr_method = ''GET'', hr_path = channel_url enc ''recordings'', hr_authorization = [], hr_body = []\<rparr>"

definition demo_inputs :: inputs where
  "demo_inputs = \<lparr>in_random = None, in_order = []\<rparr>"

theorem uploaded_segments_are_listed_witness:
  "\<exists>recs. serve (streams_routes ''dev'' [] (Some (s3_api
        (one_page_sdk (snd (vod_runs demo_env required_names [demo_vars ''alice''] demo_world))) demo_recordings)))
      demo_inputs (get_recordings ''alice'') newStore =
      (HandlerReply (writeBody StatusOK (recordings_body recs)), newStore) \<and>
    ''recordings/alice/1.mp4'' \<in> set (map rec_Key recs)"
proof -
  have run: "vod_runs demo_env required_names [demo_vars ''alice''] demo_world =
      ([Uploaded None], snd (vod_runs demo_env required_names [demo_vars ''alice''] demo_world))"
    by (simp add: demo_run)
  have load: "loadSegment (demo_vars ''alice'') = Inr (demo_segment ''alice'')" by (simp add: demo_load)
  have key: "objectKey (demo_segment ''alice'') = ''recordings/alice/1.mp4''"
    using objectKey_plain[OF demo_plain] by (simp add: demo_segment_def demo_base)
  have slug: "pathUnescape ''alice'' = ''alice''" by (rule pathUnescape_plain) simp
  note listed = uploaded_segments_are_listed[OF demo_env_durable demo_env_atomic run _ _ one_page_honest one_page_presigns,
      where s = demo_recordings and hr = "get_recordings ''alice''" and enc = "''alice''" and v = "''dev''" and k = "[]"
      and inp = demo_inputs and st = newStore]
  show ?thesis
    using listed load demo_plain
    by (fastforce simp: keys_in_def demo_world_def get_recordings_def plain_elem_def slug key[unfolded demo_segment_def]
        demo_segment_def demo_vars_def demo_recordings_def)
qed

text \<open>
  C28: The slug \<open>.\<close>, which a client sends as \<open>%2e\<close>, passes the traversal check of the endpoint and
  lists every recording of every channel.
\<close>

theorem dot_slug_lists_all_channels:
  assumes "honest_listing sdk w" "presigns sdk s"
    and "hr_path hr = channel_url ''%2e'' ''recordings''" "hr_method hr = ''GET''"
  shows "\<exists>recs. serve (streams_routes v k (Some (s3_api sdk s))) inp hr st =
      (HandlerReply (writeBody StatusOK (recordings_body recs)), st) \<and>
    map rec_Key recs = sorted_list_of_set {key \<in> keys_in (sr_bucket s) w. prefix ''recordings/'' key}"
proof -
  have "of_char (CHR ''.'') = (46::nat)" by simp
  then have "char_of (46::nat) = CHR ''.''" by (metis char_of_char)
  then have dot: "pathUnescape ''%2e'' = ''.''"
    by (simp add: pathUnescape_def unhex_def)
  show ?thesis
    using recordings_endpoint[OF assms, of v k inp st] by (simp add: plain_elem_def dot listPrefix_dot)
qed

definition bobs_world :: world where
  "bobs_world = \<lparr>files = Map.empty, objects = [(''b'', ''recordings/bob/2.mp4'') \<mapsto> stored (demo_segment ''bob'') []]\<rparr>"

theorem dot_slug_lists_all_channels_witness:
  "\<exists>recs. serve (streams_routes ''dev'' [] (Some (s3_api (one_page_sdk bobs_world) demo_recordings))) demo_inputs (get_recordings ''%2e'') newStore =
      (HandlerReply (writeBody StatusOK (recordings_body recs)), newStore) \<and>
    map rec_Key recs = [''recordings/bob/2.mp4'']"
proof -
  have "keys_in ''b'' bobs_world = {''recordings/bob/2.mp4''}"
    by (simp add: keys_in_def bobs_world_def)
  moreover have "prefix ''recordings/'' ''recordings/bob/2.mp4''" by simp
  ultimately have one: "{key \<in> keys_in ''b'' bobs_world. prefix ''recordings/'' key} = {''recordings/bob/2.mp4''}" by blast
  have bucket: "sr_bucket demo_recordings = ''b''" by (simp add: demo_recordings_def)
  have hr: "hr_path (get_recordings ''%2e'') = channel_url ''%2e'' ''recordings''" "hr_method (get_recordings ''%2e'') = ''GET''"
    by (simp_all add: get_recordings_def)
  show ?thesis
    using dot_slug_lists_all_channels[OF one_page_honest[of bobs_world] one_page_presigns[of bobs_world demo_recordings] hr,
        of "''dev''" "[]" demo_inputs newStore]
    unfolding bucket one by simp
qed

subsection \<open>A key on another channel's path\<close>

lemma uploaded_key:
  assumes "durable_puts env" "vod_main env order getenv w = (Uploaded res, w')" "loadSegment getenv = Inr seg"
  shows "objectKey seg \<in> keys_in (getenv ''S3_BUCKET'') w'"
proof -
  obtain cfg where cfg: "loadConfig order getenv = Inr cfg" using vod_main_uploaded[OF assms(2)] .
  have "cf_Bucket cfg = getenv ''S3_BUCKET''" using loadConfig_bucket[OF cfg] .
  then show ?thesis
    using vod_main_objects[OF assms(1,2) cfg assms(3)] by (auto simp: keys_in_def)
qed

lemma listed_object:
  assumes "honest_listing sdk w" "presigns sdk s" "finite (keys_in (sr_bucket s) w)"
    and "hr_path hr = channel_url enc ''recordings''" "hr_method hr = ''GET''" "plain_elem enc"
    and "plain_elem (pathUnescape enc)" "CHR 0x5C \<notin> set (pathUnescape enc)"
    and "objectKey seg \<in> keys_in (sr_bucket s) w" "plain_segment seg"
  shows "\<exists>recs. serve (streams_routes v k (Some (s3_api sdk s))) inp hr st =
      (HandlerReply (writeBody StatusOK (recordings_body recs)), st) \<and>
    (objectKey seg \<in> set (map rec_Key recs) \<longleftrightarrow> sg_Path seg = pathUnescape enc)"
proof -
  have slash: "CHR ''/'' \<notin> set (pathUnescape enc)" using assms(7) by (simp add: plain_elem_def)
  from recordings_endpoint[OF assms(1,2,4-6) slash assms(8), of v k inp st] obtain recs where
    recs: "serve (streams_routes v k (Some (s3_api sdk s))) inp hr st =
      (HandlerReply (writeBody StatusOK (recordings_body recs)), st)"
    and keys: "map rec_Key recs =
      sorted_list_of_set {key \<in> keys_in (sr_bucket s) w. prefix (listPrefix (pathUnescape enc)) key}"
    by blast
  have "objectKey seg \<in> set (map rec_Key recs) \<longleftrightarrow> sg_Path seg = pathUnescape enc"
    unfolding keys using assms(3,9) vod.listed_iff[OF assms(10,7)] by simp
  then show ?thesis using recs by blast
qed

text \<open>
  C29: A valid key does not bind a publisher to its channel: presented in
  the password field it is accepted on the path of any other channel; then the key's own channel goes
  live, while what is recorded on that path is listed for the other channel and not for its own.
\<close>

theorem foreign_key_records_under_path:
  assumes "index_sound s" "FindByKey s key = Some own" "key \<noteq> []" "other \<noteq> own"
    and "decodeWebhook (rq_body r) = Inr \<lparr>wr_Action = ''publish'', wr_Path = other, wr_Password = key\<rparr>"
    and "durable_puts env" "vod_main env order getenv w = (Uploaded res, w')" "getenv ''MTX_PATH'' = other"
    and "loadSegment getenv = Inr seg" "plain_segment seg" "plain_elem own" "CHR 0x5C \<notin> set own"
    and "getenv ''S3_BUCKET'' = sr_bucket sr" "honest_listing sdk w'" "presigns sdk sr" "finite (keys_in (sr_bucket sr) w')"
    and "hr_path hr = channel_url enc ''recordings''" "hr_method hr = ''GET''" "plain_elem enc"
    and "pathUnescape enc \<in> {own, other}"
  shows "fst (newMediaMTXAuthHandler r s) = writeHeader StatusOK \<and>
    live_slugs (snd (newMediaMTXAuthHandler r s)) = insert own (live_slugs s) \<and>
    (\<exists>recs. serve (streams_routes v k (Some (s3_api sdk sr))) inp hr st =
       (HandlerReply (writeBody StatusOK (recordings_body recs)), st) \<and>
       (objectKey seg \<in> set (map rec_Key recs) \<longleftrightarrow> pathUnescape enc = other))"
proof (intro conjI)
  let ?req = "\<lparr>wr_Action = ''publish'', wr_Path = other, wr_Password = key\<rparr>"
  have auth: "newMediaMTXAuthHandler r s = (writeHeader StatusOK, snd (SetLive own True s))"
    using auth_publish[OF assms(5)] assms(2,3) by (simp add: presentedKey_def)
  have "channels s own \<noteq> None" using assms(1,2) by (auto simp: FindByKey_def elim: index_soundD)
  then show "fst (newMediaMTXAuthHandler r s) = writeHeader StatusOK"
    "live_slugs (snd (newMediaMTXAuthHandler r s)) = insert own (live_slugs s)"
    unfolding auth using live_slugs_set[of own True s] by (simp_all del: not_None_eq)
  have path: "sg_Path seg = other" using assms(8,9) by (simp add: loadSegment_Inr_iff)
  have slash: "CHR 0x5C \<notin> set other"
    using assms(9) path by (auto simp: loadSegment_Inr_iff vodContainsPathTraversal_def ContainsAny_iff)
  have elem: "plain_elem (pathUnescape enc)" "CHR 0x5C \<notin> set (pathUnescape enc)"
    using assms(10-12,20) path slash by (auto simp: plain_segment_def)
  have "objectKey seg \<in> keys_in (sr_bucket sr) w'"
    using uploaded_key[OF assms(6,7,9)] assms(13) by simp
  from listed_object[OF assms(14-19) elem this assms(10), of v k inp st]
  show "\<exists>recs. serve (streams_routes v k (Some (s3_api sdk sr))) inp hr st =
       (HandlerReply (writeBody StatusOK (recordings_body recs)), st) \<and>
       (objectKey seg \<in> set (map rec_Key recs) \<longleftrightarrow> pathUnescape enc = other)"
    unfolding path by metis
qed

definition bobs_key_on_alice :: request where
  "bobs_key_on_alice = \<lparr>rq_authorization = [], rq_slug = [], rq_body = json_encode (webhook_json
     \<lparr>wr_Action = ''publish'', wr_Path = ''alice'', wr_Password = ''sk_''\<rparr>) @ []\<rparr>"

theorem foreign_key_records_under_path_witness:
  "let st = run_ops [CreateOp (Some []) ''bob''] newStore;
       w = snd (vod_main demo_env required_names (demo_vars ''alice'') demo_world)
   in live_slugs (snd (newMediaMTXAuthHandler bobs_key_on_alice st)) = insert ''bob'' (live_slugs st) \<and>
     (\<exists>recs. serve (streams_routes ''dev'' [] (Some (s3_api (one_page_sdk w) demo_recordings))) demo_inputs
         (get_recordings ''alice'') st = (HandlerReply (writeBody StatusOK (recordings_body recs)), st) \<and>
       ''recordings/alice/1.mp4'' \<in> set (map rec_Key recs))"
proof -
  let ?st = "run_ops [CreateOp (Some []) ''bob''] newStore"
  let ?w = "snd (vod_main demo_env required_names (demo_vars ''alice'') demo_world)"
  let ?req = "\<lparr>wr_Action = ''publish'', wr_Path = ''alice'', wr_Password = ''sk_''\<rparr>"
  have inv: "index_sound ?st" by (rule index_sound_run[OF store_inv_sound[OF newStore_inv]])
  have find: "FindByKey ?st ''sk_'' = Some ''bob''"
    by (simp add: newStore_def CreateKey_def generateKey_def FindByKey_def Let_def)
  have dec: "decodeWebhook (rq_body bobs_key_on_alice) = Inr ?req"
    unfolding bobs_key_on_alice_def request.simps
    by (rule decodeWebhook_encoded)
       (simp_all add: byte_in_def rune_error_def max_body_def webhook_json_def str_obj_def quote_def esc_ascii_def)
  have run: "vod_main demo_env required_names (demo_vars ''alice'') demo_world = (Uploaded None, ?w)"
    by (simp add: demo_run)
  have load: "loadSegment (demo_vars ''alice'') = Inr (demo_segment ''alice'')" by (simp add: demo_load)
  have key: "objectKey (demo_segment ''alice'') = ''recordings/alice/1.mp4''"
    using objectKey_plain[OF demo_plain] by (simp add: demo_segment_def demo_base)
  have slug: "pathUnescape ''alice'' = ''alice''" by (rule pathUnescape_plain) simp
  have fin: "finite (keys_in (sr_bucket demo_recordings) ?w)"
    by (simp add: demo_run keys_in_def)
  note applied = foreign_key_records_under_path[OF inv find _ _ dec demo_env_durable run _ load demo_plain _ _ _
      one_page_honest one_page_presigns fin,
      where hr = "get_recordings ''alice''" and enc = "''alice''" and v = "''dev''" and k = "[]" and inp = demo_inputs and st = ?st]
  show ?thesis
    unfolding Let_def key[symmetric]
    using applied by (simp add: get_recordings_def plain_elem_def slug demo_vars_def demo_recordings_def)
qed

end
