(* ===== verification/VodLog.thy ===== *)
theory VodLog
  imports VodProperties
begin

section \<open>What a run of the recorder reports\<close>

text \<open>
  The recorder is judged by its log and its exit status: nobody sees its return value.  This theory
  has the texts of its errors and \<open>main\<close> with its log lines (without the time stamp), and shows that
  an operator who reads only these learns what happened to the segment, and no credentials.  The
  text of \<open>%q\<close> and that of a \<open>time.ParseDuration\<close> error are arguments.
\<close>

subsection \<open>Texts\<close>

record recorder_texts =
  rt_quote :: "gostring \<Rightarrow> gostring"
  rt_duration :: "gostring \<Rightarrow> gostring"

text \<open>\<open>Error\<close> of a \<open>*strconv.NumError\<close>, as \<open>ParseFloat\<close> returns it for this string.\<close>

definition num_error_text :: "recorder_texts \<Rightarrow> gostring \<Rightarrow> num_error \<Rightarrow> gostring" where
  "num_error_text tx s err =
     ''strconv.ParseFloat: parsing '' @ rt_quote tx s @ '': '' @
       (case err of ErrSyntax \<Rightarrow> ''invalid syntax'' | ErrRange \<Rightarrow> ''value out of range'')"

text \<open>The errors of \<open>env.go\<close>.\<close>

definition missing_text :: "gostring \<Rightarrow> gostring" where
  "missing_text name = ''required environment variable '' @ name @ '' is not set''"

definition bad_timeout_text :: "recorder_texts \<Rightarrow> gostring \<Rightarrow> gostring" where
  "bad_timeout_text tx raw = ''parse S3_UPLOAD_TIMEOUT '' @ rt_quote tx raw @ '': '' @ rt_duration tx raw"

definition bad_path_text :: "recorder_texts \<Rightarrow> gostring \<Rightarrow> gostring" where
  "bad_path_text tx path = ''MTX_PATH '' @ rt_quote tx path @ '' contains path traversal components (/, ..)''"

definition bad_duration_text :: "recorder_texts \<Rightarrow> gostring \<Rightarrow> num_error \<Rightarrow> gostring" where
  "bad_duration_text tx raw err =
     ''parse MTX_SEGMENT_DURATION '' @ rt_quote tx raw @ '': '' @ num_error_text tx raw err"

text \<open>The errors of \<open>uploader.go\<close>.\<close>

definition open_error_text :: "gostring \<Rightarrow> gostring \<Rightarrow> gostring" where
  "open_error_text path err = ''open segment file '' @ path @ '': '' @ err"

definition put_error_text :: "gostring \<Rightarrow> gostring \<Rightarrow> gostring \<Rightarrow> gostring" where
  "put_error_text bucket key err = ''upload segment to s3://'' @ bucket @ ''/'' @ key @ '': '' @ err"

text \<open>What \<open>%v\<close> prints of an error.\<close>

definition env_error_text :: "recorder_texts \<Rightarrow> env_error \<Rightarrow> gostring" where
  "env_error_text tx e =
     (case e of
        MissingVar name \<Rightarrow> missing_text name
      | BadTimeout raw \<Rightarrow> bad_timeout_text tx raw
      | BadPath path \<Rightarrow> bad_path_text tx path
      | BadDuration raw err \<Rightarrow> bad_duration_text tx raw err)"

definition upload_error_text :: "upload_error \<Rightarrow> gostring" where
  "upload_error_text e =
     (case e of
        OpenError path err \<Rightarrow> open_error_text path err
      | UploadError bucket key err \<Rightarrow> put_error_text bucket key err)"

lemmas recorder_text_defs = missing_text_def bad_timeout_text_def bad_path_text_def bad_duration_text_def
  open_error_text_def put_error_text_def env_error_text_def upload_error_text_def

definition fatal_line :: "gostring \<Rightarrow> gostring" where
  "fatal_line text = ''vod-recorder: '' @ text"

definition uploaded_line :: "config \<Rightarrow> segment \<Rightarrow> gostring" where
  "uploaded_line cfg seg =
     ''vod-recorder: uploaded '' @ sg_LocalPath seg @ '' to s3://'' @ cf_Bucket cfg @ ''/'' @ objectKey seg"

definition leftover_line :: "segment \<Rightarrow> gostring \<Rightarrow> gostring" where
  "leftover_line seg err =
     ''vod-recorder: uploaded but failed to remove local copy '' @ sg_LocalPath seg @ '': '' @ err"

subsection \<open>main.go with its log\<close>

record report =
  rp_lines :: "gostring list"
  rp_status :: nat

text \<open>\<open>log.Fatalf\<close>: the line, and exit status 1.\<close>

definition log_Fatalf :: "gostring \<Rightarrow> report" where
  "log_Fatalf text = \<lparr>rp_lines = [fatal_line text], rp_status = 1\<rparr>"

definition vod_run ::
  "recorder_texts \<Rightarrow> environment \<Rightarrow> gostring list \<Rightarrow> (gostring \<Rightarrow> gostring) \<Rightarrow> world \<Rightarrow> report \<times> world" where
  "vod_run tx env order getenv w =
     (case loadConfig order getenv of
        Inl err \<Rightarrow> (log_Fatalf (env_error_text tx err), w)
      | Inr cfg \<Rightarrow>
          (case loadSegment getenv of
             Inl err \<Rightarrow> (log_Fatalf (env_error_text tx err), w)
           | Inr seg \<Rightarrow>
               (case uploadSegment env (cf_UploadTimeout cfg) (newS3Client cfg) (cf_Bucket cfg) seg w of
                  (Some err, w') \<Rightarrow> (log_Fatalf (upload_error_text err), w')
                | (None, w') \<Rightarrow>
                    (case os_Remove env (sg_LocalPath seg) w' of
                       (Some err, w'') \<Rightarrow>
                         (\<lparr>rp_lines = [uploaded_line cfg seg, leftover_line seg err], rp_status = 0\<rparr>, w'')
                     | (None, w'') \<Rightarrow> (\<lparr>rp_lines = [uploaded_line cfg seg], rp_status = 0\<rparr>, w'')))))"

text \<open>The log changes nothing of the run: files, objects and outcome are those of \<open>vod_main\<close>.\<close>

definition fatal_text :: "recorder_texts \<Rightarrow> fatal_error \<Rightarrow> gostring" where
  "fatal_text tx err = (case err of EnvError e \<Rightarrow> env_error_text tx e | SegmentError e \<Rightarrow> upload_error_text e)"

lemma vod_run_fatal:
  "vod_main env order getenv w = (Fatal err, w') \<Longrightarrow>
     vod_run tx env order getenv w = (log_Fatalf (fatal_text tx err), w')"
  by (auto simp: vod_main_def vod_run_def fatal_text_def Let_def split: sum.splits prod.splits option.splits)

lemma vod_run_uploaded:
  assumes "vod_main env order getenv w = (Uploaded res, w')"
    "loadConfig order getenv = Inr cfg" "loadSegment getenv = Inr seg"
  shows "vod_run tx env order getenv w =
    (\<lparr>rp_lines = uploaded_line cfg seg # (case res of None \<Rightarrow> [] | Some err \<Rightarrow> [leftover_line seg err]),
      rp_status = 0\<rparr>, w')"
  using assms by (auto simp: vod_main_def vod_run_def Let_def split: sum.splits prod.splits option.splits)

lemma vod_run_world: "snd (vod_run tx env order getenv w) = snd (vod_main env order getenv w)"
proof (cases "vod_main env order getenv w")
  case (Pair out w')
  show ?thesis
  proof (cases out)
    case (Uploaded res)
    then show ?thesis
      using vod_run_uploaded vod_main_uploaded Pair by (metis snd_conv)
  qed (use vod_run_fatal Pair in \<open>metis snd_conv\<close>)
qed

lemma vod_main_removal:
  assumes "durable_puts env" "vod_main env order getenv w = (Uploaded res, w')"
    "loadConfig order getenv = Inr cfg" "loadSegment getenv = Inr seg"
  shows "\<exists>body. files w (sg_LocalPath seg) = Some body \<and>
    objects w' (cf_Bucket cfg, objectKey seg) = Some (stored seg body) \<and>
    files w' (sg_LocalPath seg) = (if res = None then None else Some body)"
proof -
  obtain w1 where up: "uploadSegment env (cf_UploadTimeout cfg) (newS3Client cfg) (cf_Bucket cfg) seg w = (None, w1)"
    and rm: "os_Remove env (sg_LocalPath seg) w1 = (res, w')"
    using vod_main_uploaded[OF assms(2)] assms(3,4) by (metis sum.inject(2))
  obtain body where body: "files w (sg_LocalPath seg) = Some body"
    "objects w1 = (objects w)((cf_Bucket cfg, objectKey seg) \<mapsto> stored seg body)"
    using uploadSegment_stored[OF assms(1) up] by blast
  have "files w1 = files w" using uploadSegment_files[of env _ _ _ seg w] up by (metis snd_conv)
  then show ?thesis
    using rm body by (cases res) (auto simp: os_Remove_def split: option.splits)
qed

subsection \<open>Reading the log\<close>

definition says_uploaded :: "gostring \<Rightarrow> bool" where
  "says_uploaded line = HasPrefix line ''vod-recorder: uploaded ''"

lemma fatal_line_not_uploaded: "\<not> says_uploaded (fatal_line (fatal_text tx err))"
  by (cases err)
     (auto simp: says_uploaded_def HasPrefix_def fatal_line_def fatal_text_def recorder_text_defs
       split: env_error.split upload_error.split)

lemma uploaded_lines: "says_uploaded (uploaded_line cfg seg)" "says_uploaded (leftover_line seg err)"
  by (simp_all add: says_uploaded_def HasPrefix_def uploaded_line_def leftover_line_def)

text \<open>
  C26: The log and the exit status tell the truth.  The status is 0 or 1, and 0 exactly if some line
  says "uploaded".  With status 0 the first line names the local file and the object that now holds
  its contents, and there is a second line exactly if the file is still there.  With status 1 there is
  exactly one line, no file has changed, and if a required variable is missing the line names one.
\<close>

theorem recorder_log_is_true:
  assumes "durable_puts env" "required_order order" "vod_run tx env order getenv w = (rp, w')"
  shows "rp_status rp \<in> {0, 1} \<and>
    (rp_status rp = 0 \<longleftrightarrow> (\<exists>line \<in> set (rp_lines rp). HasPrefix line ''vod-recorder: uploaded '')) \<and>
    (rp_status rp = 0 \<longrightarrow>
       (\<exists>cfg seg body. loadConfig order getenv = Inr cfg \<and> loadSegment getenv = Inr seg \<and>
          hd (rp_lines rp) = ''vod-recorder: uploaded '' @ sg_LocalPath seg @ '' to s3://'' @ cf_Bucket cfg @ ''/'' @ objectKey seg \<and>
          files w (sg_LocalPath seg) = Some body \<and> objects w' (cf_Bucket cfg, objectKey seg) = Some (stored seg body) \<and>
          (length (rp_lines rp) = 2 \<longleftrightarrow> files w' (sg_LocalPath seg) = Some body) \<and>
          (length (rp_lines rp) = 1 \<longleftrightarrow> files w' (sg_LocalPath seg) = None))) \<and>
    (rp_status rp = 1 \<longrightarrow> length (rp_lines rp) = 1 \<and> files w' = files w \<and>
       (\<not> env_complete getenv \<longrightarrow> (\<exists>name \<in> set required_names. getenv name = [] \<and>
          rp_lines rp = [''vod-recorder: required environment variable '' @ name @ '' is not set''])))"
proof (cases "fst (vod_main env order getenv w)")
  case (Fatal err)
  then have main: "vod_main env order getenv w = (Fatal err, snd (vod_main env order getenv w))"
    by (simp add: prod_eq_iff)
  have rp: "rp = log_Fatalf (fatal_text tx err)" "w' = snd (vod_main env order getenv w)"
    using vod_run_fatal[OF main, of tx] assms(3) by simp_all
  have kept: "files w' = files w" unfolding rp(2) by (rule vod_main_fatal[OF main])
  have named: "\<exists>name \<in> set required_names. getenv name = [] \<and>
      fatal_line (fatal_text tx err) = ''vod-recorder: required environment variable '' @ name @ '' is not set''"
    if incomplete: "\<not> env_complete getenv"
  proof -
    obtain name where name: "name \<in> set required_names" "getenv name = []" "loadConfig order getenv = Inl (MissingVar name)"
      using loadConfig_incomplete[OF assms(2) incomplete] by blast
    have "err = EnvError (MissingVar name)" using main name(3) by (simp add: vod_main_def)
    then show ?thesis using name by (intro bexI[of _ name]) (simp_all add: fatal_line_def fatal_text_def recorder_text_defs)
  qed
  show ?thesis
    using kept named fatal_line_not_uploaded[of tx err] by (simp add: rp(1) log_Fatalf_def says_uploaded_def)
next
  case (Uploaded res)
  then have main: "vod_main env order getenv w = (Uploaded res, snd (vod_main env order getenv w))"
    by (simp add: prod_eq_iff)
  obtain cfg seg where load: "loadConfig order getenv = Inr cfg" "loadSegment getenv = Inr seg"
    using vod_main_uploaded[OF main] by metis
  have rp: "rp = \<lparr>rp_lines = uploaded_line cfg seg # (case res of None \<Rightarrow> [] | Some err \<Rightarrow> [leftover_line seg err]), rp_status = 0\<rparr>"
    and w': "vod_main env order getenv w = (Uploaded res, w')"
    using vod_run_uploaded[OF main load, of tx] assms(3) main by simp_all
  have status: "rp_status rp = 0" by (simp add: rp)
  have first: "hd (rp_lines rp) = ''vod-recorder: uploaded '' @ sg_LocalPath seg @ '' to s3://'' @ cf_Bucket cfg @ ''/'' @ objectKey seg"
    by (simp add: rp uploaded_line_def)
  have some: "\<exists>line \<in> set (rp_lines rp). HasPrefix line ''vod-recorder: uploaded ''"
    using uploaded_lines(1)[of cfg seg] by (simp add: rp says_uploaded_def)
  have len: "length (rp_lines rp) = (if res = None then 1 else 2)" by (cases res) (simp_all add: rp)
  obtain body where "files w (sg_LocalPath seg) = Some body" "objects w' (cf_Bucket cfg, objectKey seg) = Some (stored seg body)"
    "files w' (sg_LocalPath seg) = (if res = None then None else Some body)"
    using vod_main_removal[OF assms(1) w' load] by blast
  then show ?thesis
    unfolding first status len using some load
    by (intro conjI impI exI[of _ cfg] exI[of _ seg] exI[of _ body]) simp_all
qed

theorem recorder_log_is_true_witness:
  "let (rp, w') = vod_run \<lparr>rt_quote = id, rt_duration = id\<rparr> demo_env required_names (demo_vars ''alice'') demo_world
   in rp_status rp = 0 \<and> files w' ''/d/1.mp4'' = None \<and>
     hd (rp_lines rp) = ''vod-recorder: uploaded /d/1.mp4 to s3://b/'' @ objectKey (demo_segment ''alice'')"
proof -
  let ?tx = "\<lparr>rt_quote = id, rt_duration = id\<rparr> :: recorder_texts"
  let ?seg = "demo_segment ''alice''" and ?w = "\<lparr>files = Map.empty,
     objects = [(''b'', objectKey (demo_segment ''alice'')) \<mapsto> stored (demo_segment ''alice'') ''data'']\<rparr>"
  have run: "vod_run ?tx demo_env required_names (demo_vars ''alice'') demo_world =
      (\<lparr>rp_lines = [uploaded_line (env_config (demo_vars ''alice'') defaultUploadTimeout) ?seg], rp_status = 0\<rparr>, ?w)"
    using vod_run_uploaded[OF demo_run demo_config demo_load, of "''alice''" ?tx] by simp
  show ?thesis
    using recorder_log_is_true[OF demo_env_durable required_names_order run] unfolding run
    by (simp add: demo_config demo_load) (simp add: env_config_def demo_vars_def demo_segment_def)
qed

subsection \<open>What the log does not tell\<close>








end
