(* ===== verification/ChatHub.thy ===== *)
theory ChatHub
  imports Prelude
begin

section \<open>The chat hub (services/chat/hub.go)\<close>

text \<open>
  Rooms, their local clients and their subscriptions.  The code identifies rooms and clients by
  pointer: a subscription keeps the pointer of the room it was opened for, also after that room has
  left the map.  So rooms live in a heap, clients and contexts are names, and every operation that
  runs under the hub's mutex is one function on the state.  The contract is the set of members of a
  room name; the operations refine it.
\<close>

subsection \<open>Pointers\<close>

datatype client_ptr = ClientPtr (client_id: nat)
datatype room_ptr = RoomPtr nat
datatype context_id = ContextId nat

text \<open>An order on clients, to visit a room's clients in; nothing depends on which one it is.\<close>

instantiation client_ptr :: linorder
begin

definition less_eq_client_ptr :: "client_ptr \<Rightarrow> client_ptr \<Rightarrow> bool" where
  "less_eq_client_ptr a b \<longleftrightarrow> client_id a \<le> client_id b"

definition less_client_ptr :: "client_ptr \<Rightarrow> client_ptr \<Rightarrow> bool" where
  "less_client_ptr a b \<longleftrightarrow> client_id a < client_id b"

instance
  by standard (auto simp: less_eq_client_ptr_def less_client_ptr_def client_ptr.expand)

end

subsection \<open>Channels\<close>

text \<open>
  The send channel of a client: a buffer of bounded capacity.  A send in a \<open>select\<close> with a
  \<open>default\<close> appends if there is room and drops the payload otherwise; sending on a closed channel
  panics (\<open>None\<close>), also inside a \<open>select\<close>.
\<close>

record chan =
  cn_buf :: "bytes list"
  cn_closed :: bool

definition send_capacity :: nat where "send_capacity = 16"

definition make_chan :: chan where
  "make_chan = \<lparr>cn_buf = [], cn_closed = False\<rparr>"

definition select_send :: "bytes \<Rightarrow> chan \<Rightarrow> chan option" where
  "select_send payload ch =
     (if cn_closed ch then None
      else if length (cn_buf ch) < send_capacity then Some (ch\<lparr>cn_buf := cn_buf ch @ [payload]\<rparr>)
      else Some ch)"

definition close_chan :: "chan \<Rightarrow> chan option" where
  "close_chan ch = (if cn_closed ch then None else Some (ch\<lparr>cn_closed := True\<rparr>))"

type_synonym chans = "client_ptr \<Rightarrow> chan"

subsection \<open>The hub\<close>

record room =
  rm_clients :: "client_ptr set"
  rm_cancel :: context_id

record Hub =
  hb_rooms :: "gostring \<rightharpoonup> room_ptr"
  hb_heap :: "room_ptr \<rightharpoonup> room"
  hb_cancelled :: "context_id set"
  hb_next :: nat

definition newHub :: Hub where
  "newHub = \<lparr>hb_rooms = Map.empty, hb_heap = Map.empty, hb_cancelled = {}, hb_next = 0\<rparr>"

text \<open>
  What \<open>join\<close> does under the mutex.  The first result is the subscription it opens once the mutex is
  released: its context and the room its callback delivers to.
\<close>

definition join :: "gostring \<Rightarrow> client_ptr \<Rightarrow> Hub \<Rightarrow> (context_id \<times> room_ptr) option \<times> Hub" where
  "join roomName c h =
     (case hb_rooms h roomName of
        Some r \<Rightarrow>
          (None, h\<lparr>hb_heap := (hb_heap h)(r := map_option
             (\<lambda>rm. rm\<lparr>rm_clients := insert c (rm_clients rm)\<rparr>) (hb_heap h r))\<rparr>)
      | None \<Rightarrow>
          (let subCtx = ContextId (hb_next h);
               r = RoomPtr (hb_next h)
           in (Some (subCtx, r),
               h\<lparr>hb_heap := (hb_heap h)(r \<mapsto> \<lparr>rm_clients = {c}, rm_cancel = subCtx\<rparr>),
                 hb_rooms := (hb_rooms h)(roomName \<mapsto> r), hb_next := Suc (hb_next h)\<rparr>)))"

definition leave :: "gostring \<Rightarrow> client_ptr \<Rightarrow> Hub \<Rightarrow> Hub" where
  "leave roomName c h =
     (case hb_rooms h roomName of
        None \<Rightarrow> h
      | Some r \<Rightarrow>
          (case hb_heap h r of
             None \<Rightarrow> h
           | Some rm \<Rightarrow>
               (let clients = rm_clients rm - {c};
                    h' = h\<lparr>hb_heap := (hb_heap h)(r \<mapsto> rm\<lparr>rm_clients := clients\<rparr>)\<rparr>
                in if clients = {}
                   then h'\<lparr>hb_cancelled := insert (rm_cancel rm) (hb_cancelled h'),
                           hb_rooms := (hb_rooms h')(roomName := None)\<rparr>
                   else h')))"

text \<open>The loop of \<open>broadcastLocalRoom\<close> over the clients, in a given order.\<close>

fun send_all :: "bytes \<Rightarrow> client_ptr list \<Rightarrow> chans \<Rightarrow> chans option" where
  "send_all payload [] cs = Some cs"
| "send_all payload (c # order) cs =
     (case select_send payload (cs c) of
        None \<Rightarrow> None
      | Some ch \<Rightarrow> send_all payload order (cs(c := ch)))"

definition room_clients :: "Hub \<Rightarrow> room_ptr \<Rightarrow> client_ptr set" where
  "room_clients h r = (case hb_heap h r of None \<Rightarrow> {} | Some rm \<Rightarrow> rm_clients rm)"

definition broadcastLocalRoom :: "Hub \<Rightarrow> room_ptr \<Rightarrow> bytes \<Rightarrow> chans \<Rightarrow> chans option" where
  "broadcastLocalRoom h r payload cs = send_all payload (sorted_list_of_set (room_clients h r)) cs"

definition broadcastLocal :: "Hub \<Rightarrow> gostring \<Rightarrow> bytes \<Rightarrow> chans \<Rightarrow> chans option" where
  "broadcastLocal h roomName payload cs =
     (case hb_rooms h roomName of
        None \<Rightarrow> Some cs
      | Some r \<Rightarrow> broadcastLocalRoom h r payload cs)"

subsection \<open>The representation invariant\<close>

text \<open>
  A room in the map has clients and an open context; a room that has left the map has neither, and
  two names never share a room, nor two rooms a context.
\<close>

definition hub_inv :: "Hub \<Rightarrow> bool" where
  "hub_inv h \<longleftrightarrow>
     (\<forall>name r. hb_rooms h name = Some r \<longrightarrow> hb_heap h r \<noteq> None) \<and>
     (\<forall>name name' r. hb_rooms h name = Some r \<longrightarrow> hb_rooms h name' = Some r \<longrightarrow> name = name') \<and>
     hb_cancelled h \<subseteq> ContextId ` {..<hb_next h} \<and>
     (\<forall>r rm. hb_heap h r = Some rm \<longrightarrow> finite (rm_clients rm) \<and>
        (rm_clients rm \<noteq> {} \<longleftrightarrow> r \<in> ran (hb_rooms h)) \<and>
        (rm_cancel rm \<in> hb_cancelled h \<longleftrightarrow> r \<notin> ran (hb_rooms h)) \<and>
        (\<exists>i<hb_next h. r = RoomPtr i \<and> rm_cancel rm = ContextId i))"

lemma newHub_inv: "hub_inv newHub"
  by (simp add: hub_inv_def newHub_def)

lemma hub_invD:
  assumes "hub_inv h" "hb_heap h r = Some rm"
  shows "finite (rm_clients rm)" "rm_clients rm \<noteq> {} \<longleftrightarrow> r \<in> ran (hb_rooms h)"
    "rm_cancel rm \<in> hb_cancelled h \<longleftrightarrow> r \<notin> ran (hb_rooms h)"
    "\<exists>i<hb_next h. r = RoomPtr i \<and> rm_cancel rm = ContextId i"
  using assms unfolding hub_inv_def by blast+

lemma hub_inv_room:
  assumes "hub_inv h" "hb_rooms h name = Some r"
  obtains rm where "hb_heap h r = Some rm" "rm_clients rm \<noteq> {}" "rm_cancel rm \<notin> hb_cancelled h"
proof -
  obtain rm where "hb_heap h r = Some rm"
    using assms unfolding hub_inv_def by blast
  moreover have "r \<in> ran (hb_rooms h)"
    using assms(2) by (rule ranI)
  ultimately show thesis
    using hub_invD[OF assms(1)] that by blast
qed

lemma hub_inv_heap: "hub_inv h \<Longrightarrow> hb_rooms h name = Some r \<Longrightarrow> \<exists>rm. hb_heap h r = Some rm"
  using hub_inv_room by blast

lemma hub_inv_name:
  "hub_inv h \<Longrightarrow> hb_rooms h name = Some r \<Longrightarrow> hb_rooms h name' = Some r \<Longrightarrow> name = name'"
  unfolding hub_inv_def by blast

lemma hub_inv_fresh: "hub_inv h \<Longrightarrow> hb_heap h (RoomPtr (hb_next h)) = None"
  using hub_invD(4)[of h "RoomPtr (hb_next h)"] by (cases "hb_heap h (RoomPtr (hb_next h))") auto

lemma hub_inv_not_ran:
  assumes "hub_inv h"
  shows "RoomPtr (hb_next h) \<notin> ran (hb_rooms h)"
proof
  assume "RoomPtr (hb_next h) \<in> ran (hb_rooms h)"
  then obtain name where "hb_rooms h name = Some (RoomPtr (hb_next h))"
    by (auto simp: ran_def)
  then show False
    using hub_inv_room[OF assms] hub_inv_fresh[OF assms] by fastforce
qed

lemma hub_inv_cancelled: "hub_inv h \<Longrightarrow> hb_cancelled h \<subseteq> ContextId ` {..<hb_next h}"
  unfolding hub_inv_def by blast

lemma hub_invI:
  assumes "\<And>name r. hb_rooms h name = Some r \<Longrightarrow> hb_heap h r \<noteq> None"
    and "\<And>name name' r. hb_rooms h name = Some r \<Longrightarrow> hb_rooms h name' = Some r \<Longrightarrow> name = name'"
    and "hb_cancelled h \<subseteq> ContextId ` {..<hb_next h}"
    and "\<And>r rm. hb_heap h r = Some rm \<Longrightarrow> finite (rm_clients rm) \<and>
        (rm_clients rm \<noteq> {} \<longleftrightarrow> r \<in> ran (hb_rooms h)) \<and>
        (rm_cancel rm \<in> hb_cancelled h \<longleftrightarrow> r \<notin> ran (hb_rooms h)) \<and>
        (\<exists>i<hb_next h. r = RoomPtr i \<and> rm_cancel rm = ContextId i)"
  shows "hub_inv h"
  using assms unfolding hub_inv_def by blast

lemma join_inv [go_intros]:
  assumes inv: "hub_inv h"
  shows "hub_inv (snd (join name c h))"
proof (cases "hb_rooms h name")
  case None
  let ?n = "hb_next h" and ?h' = "snd (join name c h)"
  have h': "hb_rooms ?h' = (hb_rooms h)(name \<mapsto> RoomPtr ?n)" "hb_cancelled ?h' = hb_cancelled h"
    "hb_next ?h' = Suc ?n"
    "hb_heap ?h' = (hb_heap h)(RoomPtr ?n \<mapsto> \<lparr>rm_clients = {c}, rm_cancel = ContextId ?n\<rparr>)"
    using None by (simp_all add: join_def Let_def)
  have ran': "ran (hb_rooms ?h') = insert (RoomPtr ?n) (ran (hb_rooms h))"
    using None h'(1) by simp
  note new = hub_inv_not_ran[OF inv] hub_inv_cancelled[OF inv]
  show ?thesis
  proof (rule hub_invI)
    fix name1 r assume "hb_rooms ?h' name1 = Some r"
    then show "hb_heap ?h' r \<noteq> None"
      using hub_inv_room[OF inv, of name1 r] by (cases "name1 = name") (auto simp: h')
  next
    fix name1 name2 r assume "hb_rooms ?h' name1 = Some r" "hb_rooms ?h' name2 = Some r"
    then show "name1 = name2"
      using hub_inv_name[OF inv] new(1) by (auto simp: h' ran_def split: if_splits)
  next
    show "hb_cancelled ?h' \<subseteq> ContextId ` {..<hb_next ?h'}"
      using new(2) by (auto simp: h')
  next
    fix r rm assume rm: "hb_heap ?h' r = Some rm"
    show "finite (rm_clients rm) \<and> (rm_clients rm \<noteq> {} \<longleftrightarrow> r \<in> ran (hb_rooms ?h')) \<and>
        (rm_cancel rm \<in> hb_cancelled ?h' \<longleftrightarrow> r \<notin> ran (hb_rooms ?h')) \<and>
        (\<exists>i<hb_next ?h'. r = RoomPtr i \<and> rm_cancel rm = ContextId i)"
    proof (cases "r = RoomPtr ?n")
      case True
      then show ?thesis using rm new unfolding ran' by (auto simp: h')
    next
      case False
      then have "hb_heap h r = Some rm" using rm by (simp add: h')
      from hub_invD[OF inv this] False show ?thesis
        unfolding ran' by (simp add: h') (use less_SucI in blast)
    qed
  qed
next
  case (Some r0)
  obtain rm0 where rm0: "hb_heap h r0 = Some rm0" "rm_clients rm0 \<noteq> {}"
    using hub_inv_room[OF inv Some] .
  let ?h' = "snd (join name c h)"
  have h': "hb_rooms ?h' = hb_rooms h" "hb_cancelled ?h' = hb_cancelled h" "hb_next ?h' = hb_next h"
    "hb_heap ?h' = (hb_heap h)(r0 \<mapsto> rm0\<lparr>rm_clients := insert c (rm_clients rm0)\<rparr>)"
    using Some rm0 by (simp_all add: join_def)
  show ?thesis
  proof (rule hub_invI)
    fix r rm assume rm: "hb_heap ?h' r = Some rm"
    show "finite (rm_clients rm) \<and> (rm_clients rm \<noteq> {} \<longleftrightarrow> r \<in> ran (hb_rooms ?h')) \<and>
        (rm_cancel rm \<in> hb_cancelled ?h' \<longleftrightarrow> r \<notin> ran (hb_rooms ?h')) \<and>
        (\<exists>i<hb_next ?h'. r = RoomPtr i \<and> rm_cancel rm = ContextId i)"
      using rm rm0 hub_invD[OF inv, of r] hub_invD[OF inv rm0(1)]
      by (cases "r = r0") (auto simp: h')
  qed (use hub_inv_heap[OF inv] hub_inv_name[OF inv] hub_inv_cancelled[OF inv] in \<open>auto simp: h'\<close>)
qed

lemma leave_unknown: "hb_rooms h name = None \<Longrightarrow> leave name c h = h"
  by (simp add: leave_def)

lemma leave_stays:
  assumes "hb_rooms h name = Some r" "hb_heap h r = Some rm" "rm_clients rm - {c} \<noteq> {}"
  shows "leave name c h = h\<lparr>hb_heap := (hb_heap h)(r \<mapsto> rm\<lparr>rm_clients := rm_clients rm - {c}\<rparr>)\<rparr>"
  using assms by (simp add: leave_def Let_def)

lemma leave_last:
  assumes "hb_rooms h name = Some r" "hb_heap h r = Some rm" "rm_clients rm - {c} = {}"
  shows "leave name c h = h\<lparr>hb_heap := (hb_heap h)(r \<mapsto> rm\<lparr>rm_clients := {}\<rparr>),
    hb_cancelled := insert (rm_cancel rm) (hb_cancelled h), hb_rooms := (hb_rooms h)(name := None)\<rparr>"
  using assms(1,2) by (simp add: leave_def Let_def assms(3))

lemma ran_delete_unique:
  assumes "m k = Some v" "\<And>k'. m k' = Some v \<Longrightarrow> k' = k"
  shows "ran (m(k := None)) = ran m - {v}"
proof
  show "ran (m(k := None)) \<subseteq> ran m - {v}"
  proof
    fix w assume "w \<in> ran (m(k := None))"
    then obtain k' where k': "(m(k := None)) k' = Some w" unfolding ran_def by blast
    then have "k' \<noteq> k" "m k' = Some w" by (simp_all split: if_splits)
    then show "w \<in> ran m - {v}" using assms(2)[of k'] ranI[of m k' w] by auto
  qed
  show "ran m - {v} \<subseteq> ran (m(k := None))"
  proof
    fix w assume "w \<in> ran m - {v}"
    then obtain k' where "m k' = Some w" "w \<noteq> v" unfolding ran_def by blast
    then show "w \<in> ran (m(k := None))" using assms(1) ranI[of "m(k := None)" k' w] by (cases "k' = k") simp_all
  qed
qed

lemma leave_inv [go_intros]:
  assumes inv: "hub_inv h"
  shows "hub_inv (leave name c h)"
proof (cases "hb_rooms h name")
  case None
  then show ?thesis using inv by (simp add: leave_unknown)
next
  case (Some r0)
  obtain rm0 where rm0: "hb_heap h r0 = Some rm0"
    using hub_inv_room[OF inv Some] .
  let ?h' = "leave name c h"
  note d0 = hub_invD[OF inv rm0]
  show ?thesis
  proof (cases "rm_clients rm0 - {c} = {}")
    case False
    note h' = leave_stays[OF Some rm0 False]
    show ?thesis
    proof (rule hub_invI)
      fix r rm assume rm: "hb_heap ?h' r = Some rm"
      show "finite (rm_clients rm) \<and> (rm_clients rm \<noteq> {} \<longleftrightarrow> r \<in> ran (hb_rooms ?h')) \<and>
        (rm_cancel rm \<in> hb_cancelled ?h' \<longleftrightarrow> r \<notin> ran (hb_rooms ?h')) \<and>
        (\<exists>i<hb_next ?h'. r = RoomPtr i \<and> rm_cancel rm = ContextId i)"
        using rm d0 False hub_invD[OF inv, of r rm] by (cases "r = r0") (auto simp: h')
    qed (use hub_inv_heap[OF inv] hub_inv_name[OF inv] hub_inv_cancelled[OF inv] in \<open>auto simp: h'\<close>)
  next
    case True
    note h' = leave_last[OF Some rm0 True]
    have ran': "ran (hb_rooms ?h') = ran (hb_rooms h) - {r0}"
    proof -
      have "k' = name" if "hb_rooms h k' = Some r0" for k'
        using hub_inv_name[OF inv Some that] by simp
      note del = ran_delete_unique[of "hb_rooms h" name r0, OF Some this]
      have "hb_rooms ?h' = (hb_rooms h)(name := None)" by (simp add: h')
      then show ?thesis by (simp only: del)
    qed
    show ?thesis
    proof (rule hub_invI)
      fix r rm assume rm: "hb_heap ?h' r = Some rm"
      have ids: "\<exists>i<hb_next h. r = RoomPtr i \<and> rm_cancel rm = ContextId i"
        using rm d0(4) hub_invD(4)[OF inv, of r rm] by (cases "r = r0") (auto simp: h')
      show "finite (rm_clients rm) \<and> (rm_clients rm \<noteq> {} \<longleftrightarrow> r \<in> ran (hb_rooms ?h')) \<and>
        (rm_cancel rm \<in> hb_cancelled ?h' \<longleftrightarrow> r \<notin> ran (hb_rooms ?h')) \<and>
        (\<exists>i<hb_next ?h'. r = RoomPtr i \<and> rm_cancel rm = ContextId i)"
      proof (cases "r = r0")
        case True
        then show ?thesis unfolding ran' using rm ids by (auto simp: h')
      next
        case False
        then have "hb_heap h r = Some rm" using rm by (simp add: h')
        from hub_invD[OF inv this] False d0(4) ids show ?thesis
          unfolding ran' by (auto simp: h')
      qed
    next
      show "hb_cancelled ?h' \<subseteq> ContextId ` {..<hb_next ?h'}"
        using hub_inv_cancelled[OF inv] d0(4) by (auto simp: h')
    qed (use hub_inv_heap[OF inv] hub_inv_name[OF inv] in \<open>auto simp: h' split: if_splits\<close>)
  qed
qed

subsection \<open>Members: what the hub promises\<close>

definition members :: "Hub \<Rightarrow> gostring \<Rightarrow> client_ptr set" where
  "members h name = (case hb_rooms h name of None \<Rightarrow> {} | Some r \<Rightarrow> room_clients h r)"

lemma members_newHub: "members newHub = (\<lambda>name. {})"
  by (simp add: members_def newHub_def fun_eq_iff)

lemma members_empty_iff: "hub_inv h \<Longrightarrow> members h name = {} \<longleftrightarrow> hb_rooms h name = None"
  by (cases "hb_rooms h name") (auto simp: members_def room_clients_def elim: hub_inv_room)

lemma members_join:
  assumes inv: "hub_inv h"
  shows "members (snd (join name c h)) = (members h)(name := insert c (members h name))"
proof (rule ext)
  fix x
  show "members (snd (join name c h)) x = ((members h)(name := insert c (members h name))) x"
  proof (cases "hb_rooms h name")
    case None
    have "hb_rooms h x \<noteq> Some (RoomPtr (hb_next h))"
      using hub_inv_not_ran[OF inv] by (auto simp: ran_def)
    then show ?thesis
      using None by (simp add: members_def join_def room_clients_def Let_def split: option.split)
  next
    case (Some r)
    obtain rm where rm: "hb_heap h r = Some rm" using hub_inv_room[OF inv Some] .
    show ?thesis
    proof (cases "x = name")
      case True
      then show ?thesis using Some rm by (simp add: members_def join_def room_clients_def)
    next
      case False
      then have "hb_rooms h x \<noteq> Some r" using hub_inv_name[OF inv Some, of x] by blast
      then show ?thesis using Some rm False by (simp add: members_def join_def room_clients_def split: option.split)
    qed
  qed
qed

lemma members_leave:
  assumes inv: "hub_inv h"
  shows "members (leave name c h) = (members h)(name := members h name - {c})"
proof (rule ext)
  fix x
  show "members (leave name c h) x = ((members h)(name := members h name - {c})) x"
  proof (cases "hb_rooms h name")
    case None
    then show ?thesis by (simp add: members_def leave_unknown)
  next
    case (Some r)
    obtain rm where rm: "hb_heap h r = Some rm" using hub_inv_room[OF inv Some] .
    have other: "hb_rooms h x \<noteq> Some r" if "x \<noteq> name"
      using hub_inv_name[OF inv Some, of x] that by blast
    show ?thesis
    proof (cases "rm_clients rm - {c} = {}")
      case True
      show ?thesis
        unfolding leave_last[OF Some rm True]
        using Some rm True other by (cases "x = name") (simp_all add: members_def room_clients_def split: option.split)
    next
      case False
      show ?thesis
        unfolding leave_stays[OF Some rm False]
        using Some rm other by (cases "x = name") (simp_all add: members_def room_clients_def split: option.split)
    qed
  qed
qed

text \<open>A subscription is opened exactly by the first member and cancelled exactly with the last.\<close>

lemma join_subscribes_iff: "hub_inv h \<Longrightarrow> fst (join name c h) \<noteq> None \<longleftrightarrow> members h name = {}"
  unfolding members_empty_iff by (simp add: join_def Let_def split: option.split)

text \<open>A stale room pointer has no clients, so a late delivery through it goes nowhere.\<close>

lemma cancelled_room_empty:
  assumes "hub_inv h" "hb_heap h r = Some rm" "rm_cancel rm \<in> hb_cancelled h"
  shows "room_clients h r = {}"
  using hub_invD[OF assms(1,2)] assms(2,3) by (simp add: room_clients_def)

subsection \<open>Broadcasts\<close>

lemma send_all_cases:
  assumes "distinct order" "\<And>c. c \<in> set order \<Longrightarrow> \<not> cn_closed (cs c)"
  shows "send_all payload order cs =
    Some (\<lambda>c. if c \<in> set order then the (select_send payload (cs c)) else cs c)"
  using assms
proof (induction order arbitrary: cs)
  case (Cons c order)
  obtain ch where ch: "select_send payload (cs c) = Some ch"
    using Cons.prems(2)[of c] by (cases "length (cn_buf (cs c)) < send_capacity") (simp_all add: select_send_def)
  have "send_all payload order (cs(c := ch)) =
      Some (\<lambda>d. if d \<in> set order then the (select_send payload ((cs(c := ch)) d)) else (cs(c := ch)) d)"
    by (rule Cons.IH) (use Cons.prems in auto)
  then show ?case
    using Cons.prems(1) ch by (auto simp: fun_eq_iff)
qed simp

text \<open>The map's order does not matter.\<close>

lemma broadcast_any_order:
  assumes "finite (room_clients h r)" "distinct order" "set order = room_clients h r"
    "\<And>c. c \<in> room_clients h r \<Longrightarrow> \<not> cn_closed (cs c)"
  shows "send_all payload order cs = broadcastLocalRoom h r payload cs"
  using assms send_all_cases[of order cs payload] send_all_cases[of "sorted_list_of_set (room_clients h r)" cs payload]
  by (simp add: broadcastLocalRoom_def)

lemma broadcast_Some:
  assumes "finite (room_clients h r)" "\<And>c. c \<in> room_clients h r \<Longrightarrow> \<not> cn_closed (cs c)"
  shows "broadcastLocalRoom h r payload cs =
    Some (\<lambda>c. if c \<in> room_clients h r then the (select_send payload (cs c)) else cs c)"
  using assms send_all_cases[of "sorted_list_of_set (room_clients h r)" cs payload]
  by (simp add: broadcastLocalRoom_def)

lemma broadcast_empty: "room_clients h r = {} \<Longrightarrow> broadcastLocalRoom h r payload cs = Some cs"
  by (simp add: broadcastLocalRoom_def)

lemma select_send_bound:
  "select_send payload ch = Some ch' \<Longrightarrow> length (cn_buf ch) \<le> send_capacity \<Longrightarrow> length (cn_buf ch') \<le> send_capacity"
  by (auto simp: select_send_def split: if_splits)

lemma select_send_buf:
  "select_send payload ch = Some ch' \<Longrightarrow> cn_closed ch' = cn_closed ch \<and>
     (cn_buf ch' = cn_buf ch @ [payload] \<or> cn_buf ch' = cn_buf ch)"
  by (auto simp: select_send_def split: if_splits)

end
