(* ===== verification/ChatBroker.thy ===== *)
theory ChatBroker
  imports GoHash
begin

section \<open>The Redis broker (services/chat/broker.go)\<close>

text \<open>
  Which Redis shard and channel a room uses.  A shard is named by its address; the Redis client is a
  parameter of the theories above.  What the hub needs of a broker, that publishing to a room reaches
  the subscriptions of that room and of no other, is the locale \<open>room_router\<close>.
\<close>

definition roomChannelPrefix :: gostring where
  "roomChannelPrefix = ''chat:room:''"

record Broker =
  shards :: "gostring list"

definition newBroker :: "gostring list \<Rightarrow> Broker" where
  "newBroker addrs = \<lparr>shards = addrs\<rparr>"

definition roomChannel :: "gostring \<Rightarrow> gostring" where
  "roomChannel room = roomChannelPrefix @ room"

text \<open>
  \<open>n\<close> is a Go int; \<open>uint32(n)\<close> keeps its low 32 bits, and a remainder by zero panics (\<open>None\<close>).
\<close>

definition shardIndex :: "gostring \<Rightarrow> int \<Rightarrow> int option" where
  "shardIndex room n =
     (if n \<le> 1 then Some 0
      else let m = (word_of_int n :: 32 word)
           in if m = 0 then None else Some (uint (fnv32a room mod m)))"

text \<open>An index out of range panics as well.\<close>

definition shardFor :: "Broker \<Rightarrow> gostring \<Rightarrow> gostring option" where
  "shardFor b room =
     (case shardIndex room (int (length (shards b))) of
        None \<Rightarrow> None
      | Some i \<Rightarrow> if nat i < length (shards b) then Some (shards b ! nat i) else None)"

text \<open>Where \<open>publish\<close> sends to and where \<open>subscribe\<close> listens: a shard and a channel on it.\<close>

definition room_route :: "Broker \<Rightarrow> gostring \<Rightarrow> (gostring \<times> gostring) option" where
  "room_route b room = map_option (\<lambda>shard. (shard, roomChannel room)) (shardFor b room)"

subsection \<open>Facts\<close>

lemma shardIndex_small: "n \<le> 1 \<Longrightarrow> shardIndex room n = Some 0"
  by (simp add: shardIndex_def)

lemma shardIndex_large:
  assumes "1 < n" "n < 2 ^ 32"
  shows "shardIndex room n = Some (uint (fnv32a room) mod n)"
proof -
  have u: "uint (word_of_int n :: 32 word) = n"
    using assms by (simp add: uint_word_of_int)
  then have "(word_of_int n :: 32 word) \<noteq> 0"
    using assms(1) by (metis not_one_less_zero unsigned_0)
  then show ?thesis
    using assms u by (simp add: shardIndex_def Let_def uint_mod)
qed

lemma shardIndex_bounds:
  assumes "0 < n" "n < 2 ^ 32"
  shows "\<exists>i. shardIndex room n = Some i \<and> 0 \<le> i \<and> i < n"
proof (cases "n = 1")
  case True
  then show ?thesis by (simp add: shardIndex_small)
next
  case False
  then show ?thesis using assms by (simp add: shardIndex_large)
qed

text \<open>A multiple of \<open>2 ^ 32\<close> shards makes the truncated count zero.\<close>

lemma shardIndex_panics: "0 < k \<Longrightarrow> shardIndex room (k * 2 ^ 32) = None"
proof -
  assume k: "0 < k"
  have "(word_of_int (2 ^ LENGTH(32)) :: 32 word) = 0"
    by (rule word_of_int_2p_len)
  then have "(word_of_int (2 ^ 32) :: 32 word) = 0" by simp
  then have "(word_of_int (k * 2 ^ 32) :: 32 word) = 0"
    by (metis mult_zero_right wi_hom_mult)
  then show ?thesis
    using k by (simp add: shardIndex_def)
qed

lemma shardFor_Some:
  assumes "shards b \<noteq> []" "length (shards b) < 2 ^ 32"
  shows "\<exists>shard \<in> set (shards b). shardFor b room = Some shard"
proof -
  have "0 < int (length (shards b))" "int (length (shards b)) < 2 ^ 32"
    using assms by simp_all
  then obtain i where "shardIndex room (int (length (shards b))) = Some i" "0 \<le> i" "i < int (length (shards b))"
    using shardIndex_bounds by blast
  then have "shardFor b room = Some (shards b ! nat i)" "nat i < length (shards b)"
    by (auto simp: shardFor_def)
  then show ?thesis by auto
qed

lemma roomChannel_inj: "roomChannel a = roomChannel b \<longleftrightarrow> a = b"
  by (simp add: roomChannel_def)

subsection \<open>What the hub needs of a broker\<close>

locale room_router =
  fixes usable :: "'b \<Rightarrow> bool"
    and route :: "'b \<Rightarrow> gostring \<Rightarrow> 'c option"
  assumes routed: "usable b \<Longrightarrow> route b room \<noteq> None"
    and separate: "route b room = Some c \<Longrightarrow> route b room' = Some c \<Longrightarrow> room = room'"
begin

text \<open>The subscriptions a publish to a room reaches, among those that listen where theirs is routed.\<close>

definition reached :: "'b \<Rightarrow> gostring \<Rightarrow> (nat \<rightharpoonup> gostring) \<Rightarrow> nat set" where
  "reached b room subs =
     {i. \<exists>room'. subs i = Some room' \<and> route b room' = route b room \<and> route b room \<noteq> None}"

lemma reached_same_room: "i \<in> reached b room subs \<Longrightarrow> subs i = Some room"
proof -
  assume "i \<in> reached b room subs"
  then obtain room' c where "subs i = Some room'" "route b room' = Some c" "route b room = Some c"
    unfolding reached_def by (cases "route b room") auto
  then show ?thesis using separate[of b room c room'] by simp
qed

lemma reached_iff: "usable b \<Longrightarrow> i \<in> reached b room subs \<longleftrightarrow> subs i = Some room"
proof
  assume "usable b" "subs i = Some room"
  then show "i \<in> reached b room subs"
    using routed[of b room] by (simp add: reached_def del: not_None_eq)
qed (rule reached_same_room)

end

definition usable_broker :: "Broker \<Rightarrow> bool" where
  "usable_broker b \<longleftrightarrow> shards b \<noteq> [] \<and> length (shards b) < 2 ^ 32"

interpretation redis: room_router usable_broker room_route
proof (unfold_locales, goal_cases)
  case (1 b room)
  then have "shards b \<noteq> []" "length (shards b) < 2 ^ 32"
    unfolding usable_broker_def by blast+
  from shardFor_Some[OF this] show ?case
    unfolding room_route_def by (metis option.distinct(1) option.map_disc_iff)
next
  case (2 b room c room')
  then have "roomChannel room = roomChannel room'"
    unfolding room_route_def by (metis (no_types, lifting) map_option_eq_Some prod.inject)
  then show ?case by (simp only: roomChannel_inj)
qed

end
