(* ===== verification/ChatMessage.thy ===== *)
theory ChatMessage
  imports GoTime GoJsonValues
begin

section \<open>The chat wire format (services/chat/message.go)\<close>

text \<open>
  A message and its JSON form, the payload that travels through Redis and over the WebSockets.  What
  one pod marshals, a reader of the payload decodes to the same four strings.
\<close>

record Message =
  msg_Room :: gostring
  msg_Username :: gostring
  msg_Body :: gostring
  msg_SentAt :: utc_time

definition message_json :: "Message \<Rightarrow> json option" where
  "message_json m =
     map_option (\<lambda>t. JObj [(''room'', JStr (msg_Room m)), (''username'', JStr (msg_Username m)),
                           (''body'', JStr (msg_Body m)), (''sentAt'', t)])
       (time_json (msg_SentAt m))"

text \<open>\<open>json.Marshal(msg)\<close>: no newline at the end; \<open>None\<close> is its error.\<close>

definition marshal_message :: "Message \<Rightarrow> bytes option" where
  "marshal_message m = map_option json_encode (message_json m)"

definition ascii :: "bytes \<Rightarrow> bool" where
  "ascii s = list_all (\<lambda>c. of_char c < (128::nat)) s"

lemma ascii_simps [simp]: "ascii []" "ascii (c # s) \<longleftrightarrow> of_char c < (128::nat) \<and> ascii s"
  "ascii (s @ t) \<longleftrightarrow> ascii s \<and> ascii t"
  by (simp_all add: ascii_def)

lemma ascii_valid: "ascii s \<Longrightarrow> valid_utf8 s"
  by (induction s) (auto simp: byte_in_def Let_def rune_error_def)

lemma ascii_hex_digit: "n < 16 \<Longrightarrow> of_char (hex_digit n) < (128::nat)"
proof -
  have "\<forall>c \<in> set ''0123456789abcdef''. of_char c < (128::nat)" by simp
  then show "n < 16 \<Longrightarrow> of_char (hex_digit n) < (128::nat)"
    using hex_digit_in by blast
qed

lemma ascii_dec_digits: "ascii (dec_digits n)"
proof (induction n rule: dec_digits.induct)
  case (1 n)
  then show ?case
    by (subst dec_digits.simps) (simp add: ascii_hex_digit)
qed

lemma ascii_replicate: "of_char c < (128::nat) \<Longrightarrow> ascii (replicate n c)"
  by (induction n) auto

lemma ascii_pad_digits: "ascii (pad_digits w n)"
  by (simp add: pad_digits_def Let_def ascii_dec_digits ascii_replicate)

lemma ascii_rev: "ascii (rev s) \<longleftrightarrow> ascii s"
  by (simp add: ascii_def list_all_iff)

lemma ascii_dropWhile: "ascii s \<Longrightarrow> ascii (dropWhile P s)"
  by (auto simp: ascii_def list_all_iff dest: set_dropWhileD)

lemma ascii_time: "ascii (format_RFC3339Nano t)"
  by (simp add: format_RFC3339Nano_def nano_fraction_def ascii_pad_digits ascii_rev ascii_dropWhile)

lemma marshal_message_Some:
  "marshal_message m = Some payload \<longleftrightarrow>
     0 \<le> t_year (msg_SentAt m) \<and> t_year (msg_SentAt m) \<le> 9999 \<and>
     payload = json_encode (str_obj [(''room'', msg_Room m), (''username'', msg_Username m),
       (''body'', msg_Body m), (''sentAt'', format_RFC3339Nano (msg_SentAt m))])"
  by (auto simp: marshal_message_def message_json_def time_json_def str_obj_def)

text \<open>
  A receiver decodes the four strings, with malformed bytes replaced by U+FFFD.
\<close>

lemma parse_marshal_message:
  assumes "marshal_message m = Some payload"
  shows "parse_value (payload @ rest) =
    Some (VObject [(''room'', VString (coerce_utf8 (msg_Room m))), (''username'', VString (coerce_utf8 (msg_Username m))),
      (''body'', VString (coerce_utf8 (msg_Body m))), (''sentAt'', VString (format_RFC3339Nano (msg_SentAt m)))], rest)"
proof -
  let ?j = "str_obj [(''room'', msg_Room m), (''username'', msg_Username m), (''body'', msg_Body m),
    (''sentAt'', format_RFC3339Nano (msg_SentAt m))]"
  have p: "payload = json_encode ?j" using assms unfolding marshal_message_Some by blast
  have "coerce_utf8 k = k" if "ascii k" for k using coerce_valid[OF ascii_valid[OF that]] .
  then have "decoded ?j = VObject [(''room'', VString (coerce_utf8 (msg_Room m))),
      (''username'', VString (coerce_utf8 (msg_Username m))), (''body'', VString (coerce_utf8 (msg_Body m))),
      (''sentAt'', VString (format_RFC3339Nano (msg_SentAt m)))]"
    using ascii_time[of "msg_SentAt m"] by (simp add: str_obj_def del: coerce_utf8.simps)
  then show ?thesis
    unfolding p using parses_value[OF parses_json, of ?j rest] by (simp add: str_obj_def)
qed

end
