(* ===== verification/ChatPod.thy ===== *)
theory ChatPod
  imports ChatHub ChatBroker ChatMessage
begin

section \<open>Connections, subscriptions and the hub in parallel (services/chat/handler.go)\<close>

text \<open>
  A pod runs, for each WebSocket, the handler goroutine and a writer, and for each room subscription
  a listener.  Each of them is a program counter here; a step of the pod runs one of them to its
  next point of interaction: the hub's mutex, a channel, the connection or Redis.  The ping loop only
  makes a read fail, which a read may do at any time.
\<close>

subsection \<open>Accepting a connection\<close>

text \<open>The query parameters, empty if absent, and the answer before the upgrade.\<close>

datatype ws_start = RoomRequired | Upgrade gostring gostring

definition start_websocket :: "gostring \<Rightarrow> gostring \<Rightarrow> ws_start" where
  "start_websocket room username =
     (if room = [] then RoomRequired
      else Upgrade room (if username = [] then ''anonymous'' else username))"

subsection \<open>Goroutines\<close>

text \<open>
  The handler of a connection: not begun; upgraded; between \<open>join\<close> and the end of \<open>subscribe\<close>;
  reading; about to \<open>leave\<close>; about to close the send channel; waiting for the writer; returned.
\<close>

datatype conn =
    Unused
  | Accepted gostring gostring
  | Joining gostring gostring context_id room_ptr
  | Reading gostring gostring
  | Leaving gostring
  | Closing gostring
  | Waiting gostring
  | Finished gostring

datatype writer = NotStarted | Writing | WriteDone

datatype sub_status = Listening | Cancelled | Disconnected

record subscription =
  sb_ctx :: context_id
  sb_room :: gostring
  sb_target :: room_ptr
  sb_queue :: "bytes list"
  sb_status :: sub_status

text \<open>
  The pod.  \<open>pd_delivered\<close> is what each writer has written to its connection, \<open>pd_log\<close> what was ever
  handed to Redis, by this pod or another.
\<close>

record pod =
  pd_hub :: Hub
  pd_chans :: chans
  pd_conns :: "nat \<Rightarrow> conn"
  pd_writers :: "nat \<Rightarrow> writer"
  pd_delivered :: "nat \<Rightarrow> bytes list"
  pd_subs :: "subscription list"
  pd_log :: "(gostring \<times> bytes) list"
  pd_panicked :: bool

definition start_pod :: "pod \<Rightarrow> bool" where
  "start_pod p \<longleftrightarrow> p =
     \<lparr>pd_hub = newHub, pd_chans = (\<lambda>c. make_chan), pd_conns = (\<lambda>i. Unused),
      pd_writers = (\<lambda>i. NotStarted), pd_delivered = (\<lambda>i. []), pd_subs = [], pd_log = [],
      pd_panicked = False\<rparr>"

text \<open>
  Redis hands a payload to subscriptions listening on the channel it was published to; a delivery
  may be lost, so \<open>got\<close> says which of them receive it.
\<close>

definition redis_publish :: "Broker \<Rightarrow> gostring \<Rightarrow> bytes \<Rightarrow> nat set \<Rightarrow> subscription list \<Rightarrow> subscription list" where
  "redis_publish b room payload got subs =
     map (\<lambda>(k, sb).
        if k \<in> got \<and> sb_status sb = Listening \<and> room_route b (sb_room sb) = room_route b room
           \<and> room_route b room \<noteq> None
        then sb\<lparr>sb_queue := sb_queue sb @ [payload]\<rparr> else sb)
       (enumerate 0 subs)"

subsection \<open>Steps\<close>

definition set_conn :: "nat \<Rightarrow> conn \<Rightarrow> pod \<Rightarrow> pod" where
  "set_conn i c p = p\<lparr>pd_conns := (pd_conns p)(i := c)\<rparr>"

definition set_chan :: "nat \<Rightarrow> chan \<Rightarrow> pod \<Rightarrow> pod" where
  "set_chan i ch p = p\<lparr>pd_chans := (pd_chans p)(ClientPtr i := ch)\<rparr>"

definition panic :: "pod \<Rightarrow> pod" where
  "panic p = p\<lparr>pd_panicked := True\<rparr>"

text \<open>\<open>hub.join\<close> up to the unlock; without a subscription to open the loops start.\<close>

definition join_step :: "nat \<Rightarrow> gostring \<Rightarrow> gostring \<Rightarrow> pod \<Rightarrow> pod" where
  "join_step i room user p =
     (let (sub, h) = join room (ClientPtr i) (pd_hub p); q = p\<lparr>pd_hub := h\<rparr>
      in case sub of
           None \<Rightarrow> (set_conn i (Reading room user) q)\<lparr>pd_writers := (pd_writers p)(i := Writing)\<rparr>
         | Some (ctx, r) \<Rightarrow> set_conn i (Joining room user ctx r) q)"

text \<open>\<open>broker.subscribe\<close>, which panics if the broker has no shard for the room.\<close>

definition subscribe_step :: "Broker \<Rightarrow> nat \<Rightarrow> gostring \<Rightarrow> gostring \<Rightarrow> context_id \<Rightarrow> room_ptr \<Rightarrow> pod \<Rightarrow> pod" where
  "subscribe_step b i room user ctx r p =
     (if room_route b room = None then panic p
      else (set_conn i (Reading room user) p)
        \<lparr>pd_writers := (pd_writers p)(i := Writing),
         pd_subs := pd_subs p @ [\<lparr>sb_ctx = ctx, sb_room = room, sb_target = r, sb_queue = [],
                                  sb_status = Listening\<rparr>]\<rparr>)"

text \<open>
  \<open>broker.publish\<close>, here or on another pod; \<open>shardFor\<close> panics without a shard.  A publish that fails
  is one that no subscription receives (\<open>got = {}\<close>): the handler only logs the error.
\<close>

definition publish_step :: "Broker \<Rightarrow> gostring \<Rightarrow> bytes \<Rightarrow> nat set \<Rightarrow> pod \<Rightarrow> pod" where
  "publish_step b room payload got p =
     (if room_route b room = None then panic p
      else p\<lparr>pd_subs := redis_publish b room payload got (pd_subs p), pd_log := (room, payload) # pd_log p\<rparr>)"

definition read_step :: "Broker \<Rightarrow> gostring \<Rightarrow> gostring \<Rightarrow> bytes \<Rightarrow> utc_time \<Rightarrow> nat set \<Rightarrow> pod \<Rightarrow> pod" where
  "read_step b room user data now got p =
     (case marshal_message \<lparr>msg_Room = room, msg_Username = user, msg_Body = data, msg_SentAt = now\<rparr> of
        None \<Rightarrow> p
      | Some payload \<Rightarrow> publish_step b room payload got p)"

definition leave_step :: "nat \<Rightarrow> gostring \<Rightarrow> pod \<Rightarrow> pod" where
  "leave_step i room p = (set_conn i (Closing room) p)\<lparr>pd_hub := leave room (ClientPtr i) (pd_hub p)\<rparr>"

definition close_step :: "nat \<Rightarrow> gostring \<Rightarrow> pod \<Rightarrow> pod" where
  "close_step i room p =
     (case close_chan (pd_chans p (ClientPtr i)) of
        None \<Rightarrow> panic p
      | Some ch \<Rightarrow> set_chan i ch (set_conn i (Waiting room) p))"

text \<open>One payload from the channel to the connection; a failed write ends the writer.\<close>

definition write_step :: "nat \<Rightarrow> bytes \<Rightarrow> bytes list \<Rightarrow> bool \<Rightarrow> pod \<Rightarrow> pod" where
  "write_step i payload rest ok p =
     (set_chan i ((pd_chans p (ClientPtr i))\<lparr>cn_buf := rest\<rparr>) p)
       \<lparr>pd_delivered := (if ok then (pd_delivered p)(i := pd_delivered p i @ [payload]) else pd_delivered p),
        pd_writers := (if ok then pd_writers p else (pd_writers p)(i := WriteDone))\<rparr>"

definition deliver_step :: "nat \<Rightarrow> subscription \<Rightarrow> bytes \<Rightarrow> bytes list \<Rightarrow> pod \<Rightarrow> pod" where
  "deliver_step k sb payload rest p =
     (let q = p\<lparr>pd_subs := (pd_subs p)[k := sb\<lparr>sb_queue := rest\<rparr>]\<rparr>
      in case broadcastLocalRoom (pd_hub p) (sb_target sb) payload (pd_chans p) of
           None \<Rightarrow> panic q
         | Some cs \<Rightarrow> q\<lparr>pd_chans := cs\<rparr>)"

inductive pod_step :: "Broker \<Rightarrow> pod \<Rightarrow> pod \<Rightarrow> bool" for b :: Broker where
  accept: "pd_conns p i = Unused \<Longrightarrow> start_websocket room0 user0 = Upgrade room user \<Longrightarrow>
    pod_step b p (set_chan i make_chan (set_conn i (Accepted room user) p))"
| join: "pd_conns p i = Accepted room user \<Longrightarrow> pod_step b p (join_step i room user p)"
| subscribe: "pd_conns p i = Joining room user ctx r \<Longrightarrow> pod_step b p (subscribe_step b i room user ctx r p)"
| read: "pd_conns p i = Reading room user \<Longrightarrow> pod_step b p (read_step b room user data now got p)"
| remote: "pod_step b p (if room_route b room = None then p else publish_step b room payload got p)"
| read_error: "pd_conns p i = Reading room user \<Longrightarrow> pod_step b p (set_conn i (Leaving room) p)"
| leave: "pd_conns p i = Leaving room \<Longrightarrow> pod_step b p (leave_step i room p)"
| close: "pd_conns p i = Closing room \<Longrightarrow> pod_step b p (close_step i room p)"
| return: "pd_conns p i = Waiting room \<Longrightarrow> pd_writers p i = WriteDone \<Longrightarrow>
    pod_step b p (set_conn i (Finished room) p)"
| written: "pd_writers p i = Writing \<Longrightarrow> cn_buf (pd_chans p (ClientPtr i)) = payload # rest \<Longrightarrow>
    pod_step b p (write_step i payload rest ok p)"
| drained: "pd_writers p i = Writing \<Longrightarrow> cn_buf (pd_chans p (ClientPtr i)) = [] \<Longrightarrow>
    cn_closed (pd_chans p (ClientPtr i)) \<Longrightarrow> pod_step b p (p\<lparr>pd_writers := (pd_writers p)(i := WriteDone)\<rparr>)"
| deliver: "k < length (pd_subs p) \<Longrightarrow> pd_subs p ! k = sb \<Longrightarrow> sb_status sb = Listening \<Longrightarrow>
    sb_queue sb = payload # rest \<Longrightarrow> pod_step b p (deliver_step k sb payload rest p)"
| cancelled: "k < length (pd_subs p) \<Longrightarrow> pd_subs p ! k = sb \<Longrightarrow> sb_status sb = Listening \<Longrightarrow>
    sb_ctx sb \<in> hb_cancelled (pd_hub p) \<Longrightarrow>
    pod_step b p (p\<lparr>pd_subs := (pd_subs p)[k := sb\<lparr>sb_status := Cancelled\<rparr>]\<rparr>)"
| disconnected: "k < length (pd_subs p) \<Longrightarrow> pd_subs p ! k = sb \<Longrightarrow> sb_status sb = Listening \<Longrightarrow>
    pod_step b p (p\<lparr>pd_subs := (pd_subs p)[k := sb\<lparr>sb_status := Disconnected\<rparr>]\<rparr>)"

inductive_cases pod_stepE: "pod_step b p p'"

end
