(* ===== verification/ChatSafety.thy ===== *)
theory ChatSafety
  imports ChatPod
begin

section \<open>What every interleaving of a chat pod keeps\<close>

text \<open>
  The invariant of \<open>pod_step\<close>, in four parts: the hub's members are the connections between \<open>join\<close>
  and \<open>leave\<close>; only channels of such connections are sent to, so none of them is closed; each room in
  the map has exactly one subscription, opened or about to be; and every payload in a queue, a
  channel or on a connection was published to that connection's room.  With it \<open>pod_step\<close> is an
  \<open>invariant_system\<close>.
\<close>

subsection \<open>Where a connection stands\<close>

fun joined_room :: "conn \<Rightarrow> gostring option" where
  "joined_room (Joining room user ctx r) = Some room"
| "joined_room (Reading room user) = Some room"
| "joined_room (Leaving room) = Some room"
| "joined_room _ = None"

fun conn_room :: "conn \<Rightarrow> gostring option" where
  "conn_room Unused = None"
| "conn_room (Accepted room user) = Some room"
| "conn_room (Joining room user ctx r) = Some room"
| "conn_room (Reading room user) = Some room"
| "conn_room (Leaving room) = Some room"
| "conn_room (Closing room) = Some room"
| "conn_room (Waiting room) = Some room"
| "conn_room (Finished room) = Some room"

fun send_closed :: "conn \<Rightarrow> bool" where
  "send_closed (Waiting room) = True"
| "send_closed (Finished room) = True"
| "send_closed _ = False"

lemma joined_conn_room: "joined_room c = Some room \<Longrightarrow> conn_room c = Some room"
  by (cases c) auto

lemma joined_open: "joined_room c = Some room \<Longrightarrow> \<not> send_closed c"
  by (cases c) auto

lemmas step_defs = set_conn_def set_chan_def panic_def join_step_def subscribe_step_def publish_step_def
  read_step_def leave_step_def close_step_def write_step_def deliver_step_def

subsection \<open>The parts of the invariant\<close>

definition hub_ok :: "pod \<Rightarrow> bool" where
  "hub_ok p \<longleftrightarrow> hub_inv (pd_hub p) \<and>
     (\<forall>i name. ClientPtr i \<in> members (pd_hub p) name \<longleftrightarrow> joined_room (pd_conns p i) = Some name)"

definition chan_ok :: "pod \<Rightarrow> bool" where
  "chan_ok p \<longleftrightarrow>
     (\<forall>i. cn_closed (pd_chans p (ClientPtr i)) \<longrightarrow> send_closed (pd_conns p i)) \<and>
     (\<forall>i. length (cn_buf (pd_chans p (ClientPtr i))) \<le> send_capacity)"

text \<open>
  A subscription and a join about to subscribe, each as its context, room name and target.
\<close>

type_synonym sub_id = "context_id \<times> gostring \<times> room_ptr"

definition sub_ids :: "pod \<Rightarrow> sub_id list" where
  "sub_ids p = map (\<lambda>sb. (sb_ctx sb, sb_room sb, sb_target sb)) (pd_subs p)"

fun pending :: "conn \<Rightarrow> sub_id option" where
  "pending (Joining room user ctx r) = Some (ctx, room, r)"
| "pending _ = None"

definition pendings :: "pod \<Rightarrow> nat \<Rightarrow> sub_id option" where
  "pendings p i = pending (pd_conns p i)"

definition target :: "sub_id \<Rightarrow> room_ptr" where
  "target x = snd (snd x)"

definition subs_ok :: "Hub \<Rightarrow> sub_id list \<Rightarrow> (nat \<Rightarrow> sub_id option) \<Rightarrow> bool" where
  "subs_ok h ids js \<longleftrightarrow>
     (\<forall>ctx room r. (ctx, room, r) \<in> set ids \<union> ran js \<longrightarrow>
        (\<exists>rm. hb_heap h r = Some rm \<and> rm_cancel rm = ctx) \<and>
        (\<forall>name. hb_rooms h name = Some r \<longrightarrow> name = room)) \<and>
     (\<forall>i ctx room r. js i = Some (ctx, room, r) \<longrightarrow> hb_rooms h room = Some r) \<and>
     distinct (map target ids) \<and>
     (\<forall>i j x y. js i = Some x \<longrightarrow> js j = Some y \<longrightarrow> target x = target y \<longrightarrow> i = j) \<and>
     (\<forall>i x. js i = Some x \<longrightarrow> target x \<notin> target ` set ids) \<and>
     (\<forall>name r. hb_rooms h name = Some r \<longrightarrow> (\<exists>ctx. (ctx, name, r) \<in> set ids \<union> ran js))"

definition sub_ok :: "pod \<Rightarrow> bool" where
  "sub_ok p = subs_ok (pd_hub p) (sub_ids p) (pendings p)"

definition msg_ok :: "pod \<Rightarrow> bool" where
  "msg_ok p \<longleftrightarrow>
     (\<forall>sb \<in> set (pd_subs p). \<forall>q \<in> set (sb_queue sb). (sb_room sb, q) \<in> set (pd_log p)) \<and>
     (\<forall>i. \<forall>q \<in> set (cn_buf (pd_chans p (ClientPtr i))) \<union> set (pd_delivered p i).
        \<exists>room. conn_room (pd_conns p i) = Some room \<and> (room, q) \<in> set (pd_log p))"

subsection \<open>The hub and its members\<close>

lemma hub_ok_same:
  "hub_ok p \<Longrightarrow> pd_hub p' = pd_hub p \<Longrightarrow> (\<And>i. joined_room (pd_conns p' i) = joined_room (pd_conns p i)) \<Longrightarrow> hub_ok p'"
  by (simp add: hub_ok_def)

lemma deliver_frame:
  "pd_hub (deliver_step k sb payload rest p) = pd_hub p \<and> pd_conns (deliver_step k sb payload rest p) = pd_conns p"
  by (simp add: deliver_step_def panic_def Let_def split: option.split)

lemma read_frame:
  "pd_hub (read_step b room user data now got p) = pd_hub p \<and>
   pd_conns (read_step b room user data now got p) = pd_conns p \<and>
   pd_chans (read_step b room user data now got p) = pd_chans p \<and>
   pd_delivered (read_step b room user data now got p) = pd_delivered p"
  by (simp add: read_step_def publish_step_def panic_def split: option.split)

lemma join_step_fields:
  "pd_hub (join_step i room user p) = snd (join room (ClientPtr i) (pd_hub p))"
  "pd_conns (join_step i room user p) = (pd_conns p)(i :=
     (case fst (join room (ClientPtr i) (pd_hub p)) of
        None \<Rightarrow> Reading room user | Some (ctx, r) \<Rightarrow> Joining room user ctx r))"
  "pd_chans (join_step i room user p) = pd_chans p"
  "pd_subs (join_step i room user p) = pd_subs p"
  "pd_delivered (join_step i room user p) = pd_delivered p"
  "pd_log (join_step i room user p) = pd_log p"
  "pd_panicked (join_step i room user p) = pd_panicked p"
  by (simp_all add: join_step_def set_conn_def Let_def split: option.split prod.split)

lemma hub_ok_step:
  assumes "pod_step b p p'" "hub_ok p"
  shows "hub_ok p'"
  using assms(1)
proof cases
  case (accept i room0 user0 room user)
  show ?thesis
    by (rule hub_ok_same[OF assms(2)]) (use accept in \<open>auto simp: set_conn_def set_chan_def\<close>)
next
  case (join i room user)
  have inv: "hub_inv (pd_hub p)" using assms(2) by (simp add: hub_ok_def)
  have new: "joined_room (pd_conns p' i) = Some room"
    by (simp add: join join_step_fields split: option.split)
  have "ClientPtr j \<in> members (pd_hub p') name \<longleftrightarrow> joined_room (pd_conns p' j) = Some name" for j name
  proof (cases "j = i")
    case True
    then show ?thesis
      using new assms(2) join(2) by (auto simp: join(1) join_step_fields(1) members_join[OF inv] hub_ok_def)
  next
    case False
    then show ?thesis
      using assms(2) by (simp add: join(1) join_step_fields members_join[OF inv] hub_ok_def)
  qed
  then show ?thesis
    using join_inv[OF inv] by (simp add: hub_ok_def join(1) join_step_fields(1))
next
  case (subscribe i room user ctx r)
  show ?thesis
    by (rule hub_ok_same[OF assms(2)]) (use subscribe in \<open>auto simp: subscribe_step_def set_conn_def panic_def\<close>)
next
  case (read i room user data now got)
  show ?thesis
    by (rule hub_ok_same[OF assms(2)]) (use read read_frame in auto)
next
  case (remote room payload got)
  show ?thesis
    by (rule hub_ok_same[OF assms(2)]) (use remote in \<open>auto simp: publish_step_def\<close>)
next
  case (read_error i room user)
  show ?thesis
    by (rule hub_ok_same[OF assms(2)]) (use read_error in \<open>auto simp: set_conn_def\<close>)
next
  case (leave i room)
  have inv: "hub_inv (pd_hub p)" using assms(2) by (simp add: hub_ok_def)
  have "ClientPtr j \<in> members (pd_hub p') name \<longleftrightarrow> joined_room (pd_conns p' j) = Some name" for j name
    using assms(2) leave(2)
    by (cases "j = i") (auto simp: leave(1) leave_step_def set_conn_def members_leave[OF inv] hub_ok_def)
  then show ?thesis
    using leave_inv[OF inv] by (simp add: hub_ok_def leave(1) leave_step_def set_conn_def)
next
  case (close i room)
  show ?thesis
    by (rule hub_ok_same[OF assms(2)])
       (use close in \<open>auto simp: close_step_def set_conn_def set_chan_def panic_def split: option.split\<close>)
next
  case (return i room)
  show ?thesis
    by (rule hub_ok_same[OF assms(2)]) (use return in \<open>auto simp: set_conn_def\<close>)
next
  case (deliver k sb payload rest)
  show ?thesis
    by (rule hub_ok_same[OF assms(2)]) (use deliver deliver_frame in auto)
qed (auto intro: hub_ok_same[OF assms(2)] simp: write_step_def set_chan_def)

text \<open>Clients of any room, in the map or stale, are joined and so have an open channel.\<close>

lemma room_client_joined:
  assumes "hub_ok p" "ClientPtr i \<in> room_clients (pd_hub p) r"
  shows "\<exists>name. hb_rooms (pd_hub p) name = Some r \<and> joined_room (pd_conns p i) = Some name"
proof -
  have inv: "hub_inv (pd_hub p)" using assms(1) by (simp add: hub_ok_def)
  obtain rm where rm: "hb_heap (pd_hub p) r = Some rm" "ClientPtr i \<in> rm_clients rm"
    using assms(2) by (auto simp: room_clients_def split: option.splits)
  then have "r \<in> ran (hb_rooms (pd_hub p))"
    using hub_invD(2)[OF inv rm(1)] by auto
  then obtain name where "hb_rooms (pd_hub p) name = Some r" by (auto simp: ran_def)
  moreover from this have "ClientPtr i \<in> members (pd_hub p) name"
    using assms(2) by (simp add: members_def)
  ultimately show ?thesis using assms(1) by (auto simp: hub_ok_def)
qed

lemma room_clients_finite: "hub_ok p \<Longrightarrow> finite (room_clients (pd_hub p) r)"
  using hub_invD(1) by (auto simp: hub_ok_def room_clients_def split: option.split)

lemma room_client_open:
  assumes "hub_ok p" "chan_ok p" "c \<in> room_clients (pd_hub p) r"
  shows "\<not> cn_closed (pd_chans p c)"
proof (cases c)
  case (ClientPtr i)
  then show ?thesis
    using room_client_joined[OF assms(1), of i r] joined_open assms(2,3) by (fastforce simp: chan_ok_def)
qed

lemma deliver_step_eq:
  assumes "hub_ok p" "chan_ok p"
  shows "deliver_step k sb payload rest p =
    p\<lparr>pd_subs := (pd_subs p)[k := sb\<lparr>sb_queue := rest\<rparr>],
      pd_chans := (\<lambda>c. if c \<in> room_clients (pd_hub p) (sb_target sb)
        then the (select_send payload (pd_chans p c)) else pd_chans p c)\<rparr>"
  using broadcast_Some[OF room_clients_finite[OF assms(1)] room_client_open[OF assms]]
  by (simp add: deliver_step_def)

lemma select_send_open: "\<not> cn_closed ch \<Longrightarrow> \<exists>ch'. select_send payload ch = Some ch'"
  by (simp add: select_send_def)

subsection \<open>Channels\<close>

lemma chan_ok_same:
  "chan_ok p \<Longrightarrow> pd_chans p' = pd_chans p \<Longrightarrow> (\<And>i. send_closed (pd_conns p i) \<Longrightarrow> send_closed (pd_conns p' i)) \<Longrightarrow> chan_ok p'"
  by (auto simp: chan_ok_def)

lemma chan_ok_step:
  assumes "pod_step b p p'" "hub_ok p" "chan_ok p"
  shows "chan_ok p'"
  using assms(1)
proof cases
  case (accept i room0 user0 room user)
  then show ?thesis
    using assms(3) by (auto simp: chan_ok_def set_conn_def set_chan_def make_chan_def)
next
  case (join i room user)
  show ?thesis
    by (rule chan_ok_same[OF assms(3)]) (use join in \<open>auto simp: join_step_fields\<close>)
next
  case (subscribe i room user ctx r)
  show ?thesis
    by (rule chan_ok_same[OF assms(3)]) (use subscribe in \<open>auto simp: subscribe_step_def set_conn_def panic_def\<close>)
next
  case (read i room user data now got)
  show ?thesis
    by (rule chan_ok_same[OF assms(3)]) (use read read_frame in auto)
next
  case (remote room payload got)
  show ?thesis
    by (rule chan_ok_same[OF assms(3)]) (use remote in \<open>auto simp: publish_step_def\<close>)
next
  case (close i room)
  then show ?thesis
    using assms(3)
    by (auto simp: chan_ok_def close_step_def set_conn_def set_chan_def panic_def close_chan_def split: option.split)
next
  case (written i payload rest ok)
  have "length (payload # rest) \<le> send_capacity"
    using assms(3) unfolding written(3)[symmetric] by (simp add: chan_ok_def)
  then show ?thesis
    using assms(3) by (simp add: written(1) chan_ok_def write_step_def set_chan_def)
next
  case (deliver k sb payload rest)
  have "length (cn_buf (the (select_send payload (pd_chans p (ClientPtr i))))) \<le> send_capacity"
    "cn_closed (the (select_send payload (pd_chans p (ClientPtr i)))) = cn_closed (pd_chans p (ClientPtr i))"
    if mem: "ClientPtr i \<in> room_clients (pd_hub p) (sb_target sb)" for i
  proof -
    obtain ch' where ch': "select_send payload (pd_chans p (ClientPtr i)) = Some ch'"
      using select_send_open[OF room_client_open[OF assms(2,3) mem]] by blast
    have "length (cn_buf (pd_chans p (ClientPtr i))) \<le> send_capacity"
      using assms(3) by (simp add: chan_ok_def)
    with select_send_bound[OF ch'] select_send_buf[OF ch'] ch'
    show "length (cn_buf (the (select_send payload (pd_chans p (ClientPtr i))))) \<le> send_capacity"
      "cn_closed (the (select_send payload (pd_chans p (ClientPtr i)))) = cn_closed (pd_chans p (ClientPtr i))"
      by simp_all
  qed
  then show ?thesis
    using assms(3) unfolding deliver(1) deliver_step_eq[OF assms(2,3)] chan_ok_def by simp
qed (auto intro!: chan_ok_same[OF assms(3)] simp: set_conn_def leave_step_def)

lemma no_panic_step:
  assumes "pod_step b p p'" "usable_broker b" "hub_ok p" "chan_ok p" "\<not> pd_panicked p"
  shows "\<not> pd_panicked p'"
  using assms(1)
proof cases
  case (read i room user data now got)
  then show ?thesis
    using assms(5) redis.routed[OF assms(2)]
    by (simp add: read(1) read_step_def publish_step_def split: option.split del: not_None_eq)
next
  case (close i room)
  then have "\<not> cn_closed (pd_chans p (ClientPtr i))"
    using assms(4) by (fastforce simp: chan_ok_def)
  then show ?thesis
    using assms(5) by (simp add: close close_step_def close_chan_def set_conn_def set_chan_def)
next
  case (deliver k sb payload rest)
  then show ?thesis
    using assms(5) by (simp add: deliver_step_eq[OF assms(3,4)])
qed (use assms(5) redis.routed[OF assms(2)] in
     \<open>auto simp: step_defs Let_def split: option.split prod.split\<close>)

subsection \<open>Subscriptions\<close>

lemma sub_ok_same:
  "sub_ok p \<Longrightarrow> pd_hub p' = pd_hub p \<Longrightarrow> sub_ids p' = sub_ids p \<Longrightarrow> pendings p' = pendings p \<Longrightarrow> sub_ok p'"
  by (simp add: sub_ok_def)

lemma pendings_set_conn: "pendings (set_conn i c p) = (pendings p)(i := pending c)"
  by (auto simp: pendings_def set_conn_def)

lemma pendings_same: "pd_conns p' = pd_conns p \<Longrightarrow> pendings p' = pendings p"
  by (simp add: pendings_def fun_eq_iff)

lemma fun_upd_None_same: "f i = None \<Longrightarrow> f(i := None) = f"
  by auto

lemma sub_ids_update:
  assumes "k < length (pd_subs p)" "pd_subs p ! k = sb"
    and "sb_ctx sb' = sb_ctx sb" "sb_room sb' = sb_room sb" "sb_target sb' = sb_target sb"
    and "pd_subs p' = (pd_subs p)[k := sb']"
  shows "sub_ids p' = sub_ids p"
proof -
  have "sub_ids p' = (sub_ids p)[k := (sb_ctx sb, sb_room sb, sb_target sb)]"
    using assms(3-6) by (simp add: sub_ids_def map_update)
  also have "(sb_ctx sb, sb_room sb, sb_target sb) = sub_ids p ! k"
    using assms(1,2) by (simp add: sub_ids_def)
  finally show ?thesis by simp
qed

lemma redis_publish_fields:
  "length (redis_publish b room payload got subs) = length subs"
  "map (\<lambda>sb. (sb_ctx sb, sb_room sb, sb_target sb)) (redis_publish b room payload got subs) =
     map (\<lambda>sb. (sb_ctx sb, sb_room sb, sb_target sb)) subs"
proof -
  show len: "length (redis_publish b room payload got subs) = length subs"
    by (simp add: redis_publish_def)
  show "map (\<lambda>sb. (sb_ctx sb, sb_room sb, sb_target sb)) (redis_publish b room payload got subs) =
     map (\<lambda>sb. (sb_ctx sb, sb_room sb, sb_target sb)) subs"
    by (rule nth_equalityI) (simp_all add: redis_publish_def nth_enumerate_eq)
qed

lemma sub_ids_publish: "sub_ids (publish_step b room payload got p) = sub_ids p"
  by (simp add: publish_step_def panic_def sub_ids_def redis_publish_fields(2))

lemma sub_ids_read: "sub_ids (read_step b room user data now got p) = sub_ids p"
  by (simp add: read_step_def sub_ids_publish split: option.split)

lemma subs_okD:
  assumes "subs_ok h ids js"
  shows "\<And>ctx room r. (ctx, room, r) \<in> set ids \<union> ran js \<Longrightarrow> \<exists>rm. hb_heap h r = Some rm \<and> rm_cancel rm = ctx"
    "\<And>ctx room r name. (ctx, room, r) \<in> set ids \<union> ran js \<Longrightarrow> hb_rooms h name = Some r \<Longrightarrow> name = room"
    "\<And>i ctx room r. js i = Some (ctx, room, r) \<Longrightarrow> hb_rooms h room = Some r"
    "distinct (map target ids)"
    "\<And>i j x y. js i = Some x \<Longrightarrow> js j = Some y \<Longrightarrow> target x = target y \<Longrightarrow> i = j"
    "\<And>i x. js i = Some x \<Longrightarrow> target x \<notin> target ` set ids"
    "\<And>name r. hb_rooms h name = Some r \<Longrightarrow> \<exists>ctx. (ctx, name, r) \<in> set ids \<union> ran js"
  using assms unfolding subs_ok_def by blast+

lemma subs_okI:
  assumes "\<And>ctx room r. (ctx, room, r) \<in> set ids \<union> ran js \<Longrightarrow> \<exists>rm. hb_heap h r = Some rm \<and> rm_cancel rm = ctx"
    "\<And>ctx room r name. (ctx, room, r) \<in> set ids \<union> ran js \<Longrightarrow> hb_rooms h name = Some r \<Longrightarrow> name = room"
    "\<And>i ctx room r. js i = Some (ctx, room, r) \<Longrightarrow> hb_rooms h room = Some r"
    "distinct (map target ids)"
    "\<And>i j x y. js i = Some x \<Longrightarrow> js j = Some y \<Longrightarrow> target x = target y \<Longrightarrow> i = j"
    "\<And>i x. js i = Some x \<Longrightarrow> target x \<notin> target ` set ids"
    "\<And>name r. hb_rooms h name = Some r \<Longrightarrow> \<exists>ctx. (ctx, name, r) \<in> set ids \<union> ran js"
  shows "subs_ok h ids js"
  unfolding subs_ok_def by (intro conjI allI impI) (rule assms; assumption)+

text \<open>Rooms may leave the map and clients may come and go, as long as no pending room leaves.\<close>

lemma subs_ok_weaken:
  assumes ok: "subs_ok h ids js"
    and heap: "\<And>r rm. hb_heap h r = Some rm \<Longrightarrow> \<exists>rm'. hb_heap h' r = Some rm' \<and> rm_cancel rm' = rm_cancel rm"
    and rooms: "\<And>name r. hb_rooms h' name = Some r \<Longrightarrow> hb_rooms h name = Some r"
    and pend: "\<And>i ctx room r. js i = Some (ctx, room, r) \<Longrightarrow> hb_rooms h' room = Some r"
  shows "subs_ok h' ids js"
proof (rule subs_okI)
  show "\<exists>rm. hb_heap h' r = Some rm \<and> rm_cancel rm = ctx" if "(ctx, room, r) \<in> set ids \<union> ran js" for ctx room r
    using subs_okD(1)[OF ok that] heap by metis
  show "name = room" if "(ctx, room, r) \<in> set ids \<union> ran js" "hb_rooms h' name = Some r" for ctx room r name
    using subs_okD(2)[OF ok that(1) rooms[OF that(2)]] .
  show "\<exists>ctx. (ctx, name, r) \<in> set ids \<union> ran js" if "hb_rooms h' name = Some r" for name r
    using subs_okD(7)[OF ok rooms[OF that]] .
qed (use pend subs_okD(4-6)[OF ok] in blast)+

lemma subs_ok_new_room:
  assumes ok: "subs_ok h ids js" and inv: "hub_inv h" and new: "hb_rooms h name = None" and i: "js i = None"
  shows "subs_ok (snd (join name c h)) ids (js(i \<mapsto> (ContextId (hb_next h), name, RoomPtr (hb_next h))))"
    (is "subs_ok ?h ids (js(i \<mapsto> ?x))")
proof -
  let ?r = "RoomPtr (hb_next h)"
  have h: "hb_rooms ?h = (hb_rooms h)(name \<mapsto> ?r)"
    "hb_heap ?h = (hb_heap h)(?r \<mapsto> \<lparr>rm_clients = {c}, rm_cancel = ContextId (hb_next h)\<rparr>)"
    using new by (simp_all add: join_def Let_def)
  have old: "r \<noteq> ?r" if "(ctx, room, r) \<in> set ids \<union> ran js" for ctx room r
    using subs_okD(1)[OF ok that] hub_inv_fresh[OF inv] by auto
  have old_room: "r \<noteq> ?r" if "hb_rooms h nm = Some r" for nm r
    using hub_inv_not_ran[OF inv] that by (auto simp: ran_def)
  have old_target: "target y \<noteq> ?r" if "js j = Some y" for j y
    using that old by (cases y) (auto simp: target_def ran_def)
  have ran': "ran (js(i \<mapsto> ?x)) = insert ?x (ran js)"
    using i by simp
  show ?thesis
  proof (rule subs_okI)
    fix ctx room r assume mem: "(ctx, room, r) \<in> set ids \<union> ran (js(i \<mapsto> ?x))"
    then consider "(ctx, room, r) = ?x" | "(ctx, room, r) \<in> set ids \<union> ran js" unfolding ran' by blast
    then show "\<exists>rm. hb_heap ?h r = Some rm \<and> rm_cancel rm = ctx"
      using subs_okD(1)[OF ok] old by cases (auto simp: h)
  next
    fix ctx room r nm assume mem: "(ctx, room, r) \<in> set ids \<union> ran (js(i \<mapsto> ?x))" and nm: "hb_rooms ?h nm = Some r"
    from mem consider "(ctx, room, r) = ?x" | "(ctx, room, r) \<in> set ids \<union> ran js" unfolding ran' by blast
    then show "nm = room"
    proof cases
      case 1
      then show ?thesis using nm old_room[of nm] by (auto simp: h split: if_splits)
    next
      case 2
      then show ?thesis using nm old[OF 2] subs_okD(2)[OF ok 2, of nm] by (auto simp: h split: if_splits)
    qed
  next
    fix j ctx room r assume "(js(i \<mapsto> ?x)) j = Some (ctx, room, r)"
    then show "hb_rooms ?h room = Some r"
      using subs_okD(3)[OF ok, of j] new by (auto simp: h split: if_splits)
  next
    show "distinct (map target ids)" by (rule subs_okD(4)[OF ok])
  next
    fix j k x y assume "(js(i \<mapsto> ?x)) j = Some x" "(js(i \<mapsto> ?x)) k = Some y" "target x = target y"
    then show "j = k"
      using subs_okD(5)[OF ok, of j x k y] old_target[of j x] old_target[of k y]
      by (auto simp: target_def split: if_splits)
  next
    fix j x assume "(js(i \<mapsto> ?x)) j = Some x"
    then show "target x \<notin> target ` set ids"
      using subs_okD(6)[OF ok, of j x] old by (cases "j = i") (fastforce simp: target_def)+
  next
    fix nm r assume "hb_rooms ?h nm = Some r"
    then show "\<exists>ctx. (ctx, nm, r) \<in> set ids \<union> ran (js(i \<mapsto> ?x))"
      using subs_okD(7)[OF ok, of nm r] unfolding ran' by (auto simp: h split: if_splits)
  qed
qed

lemma subs_ok_subscribe:
  assumes ok: "subs_ok h ids js" and x: "js i = Some x"
  shows "subs_ok h (ids @ [x]) (js(i := None))"
proof -
  have ran': "set (ids @ [x]) \<union> ran (js(i := None)) = set ids \<union> ran js"
    using x by (auto simp: ran_def split: if_splits) (metis option.inject)
  have js: "js j = Some y" "j \<noteq> i" if "(js(i := None)) j = Some y" for j y
    using that by (simp_all split: if_splits)
  show ?thesis
  proof (rule subs_okI, unfold ran')
    show "distinct (map target (ids @ [x]))"
      using subs_okD(4)[OF ok] subs_okD(6)[OF ok x] by simp
  next
    fix j y assume j: "(js(i := None)) j = Some y"
    show "target y \<notin> target ` set (ids @ [x])"
      using subs_okD(6)[OF ok js(1)[OF j]] subs_okD(5)[OF ok js(1)[OF j] x] js(2)[OF j] by auto
  next
    fix j k y z assume "(js(i := None)) j = Some y" "(js(i := None)) k = Some z" "target y = target z"
    then show "j = k" using subs_okD(5)[OF ok] js(1) by blast
  qed (use subs_okD(1,2,7)[OF ok] subs_okD(3)[OF ok] js(1) in blast)+
qed

lemma join_old_hub:
  assumes "hub_inv h" "hb_rooms h name = Some r"
  shows "hb_rooms (snd (join name c h)) = hb_rooms h"
    "hb_heap h s = Some rm \<Longrightarrow> \<exists>rm'. hb_heap (snd (join name c h)) s = Some rm' \<and> rm_cancel rm' = rm_cancel rm"
  using assms(2) by (auto simp: join_def)

lemma leave_hub:
  "hb_rooms (leave name c h) nm = Some r \<Longrightarrow> hb_rooms h nm = Some r"
  "hb_heap h s = Some rm \<Longrightarrow> \<exists>rm'. hb_heap (leave name c h) s = Some rm' \<and> rm_cancel rm' = rm_cancel rm"
  by (auto simp: leave_def Let_def split: option.splits if_splits)

lemma sub_ok_step:
  assumes "pod_step b p p'" "hub_ok p" "sub_ok p"
  shows "sub_ok p'"
  using assms(1)
proof cases
  case (accept i room0 user0 room user)
  have "pendings p' = pendings p"
    using accept(2) by (auto simp: accept(1) pendings_def set_chan_def set_conn_def)
  then show ?thesis
    by (intro sub_ok_same[OF assms(3)]) (simp_all add: accept(1) sub_ids_def set_chan_def set_conn_def)
next
  case (join i room user)
  have inv: "hub_inv (pd_hub p)" using assms(2) by (simp add: hub_ok_def)
  have ids: "sub_ids p' = sub_ids p" by (simp add: join sub_ids_def join_step_fields)
  have none: "pendings p i = None" using join by (simp add: pendings_def)
  show ?thesis
  proof (cases "hb_rooms (pd_hub p) room")
    case None
    then have "fst (ChatHub.join room (ClientPtr i) (pd_hub p)) = Some (ContextId (hb_next (pd_hub p)), RoomPtr (hb_next (pd_hub p)))"
      by (simp add: join_def Let_def)
    then have "pendings p' = (pendings p)(i \<mapsto> (ContextId (hb_next (pd_hub p)), room, RoomPtr (hb_next (pd_hub p))))"
      by (auto simp: join(1) pendings_def join_step_fields)
    then show ?thesis
      using subs_ok_new_room[of "pd_hub p" "sub_ids p" "pendings p" room i] inv None none assms(3)
      unfolding sub_ok_def ids by (simp add: join(1) join_step_fields(1))
  next
    case (Some r)
    then have "fst (ChatHub.join room (ClientPtr i) (pd_hub p)) = None"
      by (simp add: join_def)
    then have pend: "pendings p' = pendings p"
      using none by (auto simp: join(1) pendings_def join_step_fields)
    show ?thesis
      unfolding sub_ok_def ids pend
    proof (rule subs_ok_weaken[OF assms(3)[unfolded sub_ok_def]])
      fix j ctx rm r assume "pendings p j = Some (ctx, rm, r)"
      then show "hb_rooms (pd_hub p') rm = Some r"
        using subs_okD(3)[OF assms(3)[unfolded sub_ok_def]] join_old_hub(1)[OF inv Some] by (simp add: join(1) join_step_fields)
    qed (use join_old_hub[OF inv Some] in \<open>simp_all add: join(1) join_step_fields\<close>)
  qed
next
  case (subscribe i room user ctx r)
  show ?thesis
  proof (cases "room_route b room = None")
    case True
    then show ?thesis
      using assms(3) by (simp add: subscribe(1) subscribe_step_def panic_def sub_ok_def sub_ids_def pendings_def[abs_def])
  next
    case False
    then have "sub_ids p' = sub_ids p @ [(ctx, room, r)]" "pendings p' = (pendings p)(i := None)" "pd_hub p' = pd_hub p"
      by (auto simp: subscribe subscribe_step_def sub_ids_def set_conn_def pendings_def)
    moreover have "pendings p i = Some (ctx, room, r)"
      using subscribe by (simp add: pendings_def)
    ultimately show ?thesis
      using subs_ok_subscribe assms(3) by (simp add: sub_ok_def)
  qed
next
  case (read i room user data now got)
  have "pendings p' = pendings p"
    by (rule pendings_same) (simp add: read(1) read_frame)
  then show ?thesis
    by (intro sub_ok_same[OF assms(3)]) (simp_all add: read(1) sub_ids_read read_frame)
next
  case (remote room payload got)
  have "pendings p' = pendings p"
    by (rule pendings_same) (simp add: remote publish_step_def)
  then show ?thesis
    by (intro sub_ok_same[OF assms(3)]) (simp_all add: remote sub_ids_publish, simp add: publish_step_def)
next
  case (read_error i room user)
  have "pendings p i = None" using read_error by (simp add: pendings_def)
  then show ?thesis
    by (intro sub_ok_same[OF assms(3)])
       (simp_all add: read_error pendings_set_conn fun_upd_None_same, simp_all add: set_conn_def sub_ids_def)
next
  case (leave i room)
  have inv: "hub_inv (pd_hub p)" using assms(2) by (simp add: hub_ok_def)
  have none: "pendings p i = None" using leave by (simp add: pendings_def)
  have ids: "sub_ids p' = sub_ids p" by (simp add: leave leave_step_def set_conn_def sub_ids_def)
  have pend: "pendings p' = pendings p"
    using none by (auto simp: leave leave_step_def set_conn_def pendings_def)
  have hub: "pd_hub p' = ChatHub.leave room (ClientPtr i) (pd_hub p)"
    by (simp add: leave leave_step_def)
  show ?thesis
    unfolding sub_ok_def ids pend hub
  proof (rule subs_ok_weaken[OF assms(3)[unfolded sub_ok_def]])
    fix j ctx nm r assume j: "pendings p j = Some (ctx, nm, r)"
    have nm: "hb_rooms (pd_hub p) nm = Some r"
      using subs_okD(3)[OF assms(3)[unfolded sub_ok_def] j] .
    have "joined_room (pd_conns p j) = Some nm"
      using j by (cases "pd_conns p j") (auto simp: pendings_def)
    then have "ClientPtr j \<in> members (pd_hub p) nm"
      using assms(2) by (simp add: hub_ok_def)
    moreover have "j \<noteq> i" using j none by auto
    ultimately have "members (ChatHub.leave room (ClientPtr i) (pd_hub p)) nm \<noteq> {}"
      by (auto simp: members_leave[OF inv])
    then have "hb_rooms (ChatHub.leave room (ClientPtr i) (pd_hub p)) nm \<noteq> None"
      unfolding members_empty_iff[OF leave_inv[OF inv]] .
    then show "hb_rooms (ChatHub.leave room (ClientPtr i) (pd_hub p)) nm = Some r"
      using leave_hub(1)[of room "ClientPtr i" "pd_hub p" nm] nm by auto
  qed (use leave_hub in blast)+
next
  case (close i room)
  have "pendings p i = None" using close by (simp add: pendings_def)
  then have "pendings p' = pendings p"
    by (auto simp: close(1) close_step_def panic_def set_chan_def set_conn_def pendings_def split: option.split)
  then show ?thesis
    by (intro sub_ok_same[OF assms(3)])
       (simp_all add: close(1) close_step_def panic_def set_chan_def set_conn_def sub_ids_def split: option.split)
next
  case (return i room)
  have "pendings p i = None" using return by (simp add: pendings_def)
  then show ?thesis
    by (intro sub_ok_same[OF assms(3)])
       (simp_all add: return pendings_set_conn fun_upd_None_same, simp_all add: set_conn_def sub_ids_def)
next
  case (deliver k sb payload rest)
  have "pd_subs p' = (pd_subs p)[k := sb\<lparr>sb_queue := rest\<rparr>]"
    by (simp add: deliver(1) deliver_step_def panic_def Let_def split: option.split)
  then have "sub_ids p' = sub_ids p"
    by (intro sub_ids_update[OF deliver(2,3)]) simp_all
  moreover have "pendings p' = pendings p"
    by (rule pendings_same) (simp add: deliver(1) deliver_frame)
  ultimately show ?thesis
    by (intro sub_ok_same[OF assms(3)]) (simp_all add: deliver(1) deliver_frame)
next
  case (cancelled k sb)
  have "sub_ids p' = sub_ids p"
    by (rule sub_ids_update[OF cancelled(2,3)]) (simp_all add: cancelled(1))
  then show ?thesis
    by (intro sub_ok_same[OF assms(3)]) (simp_all add: cancelled(1) pendings_def[abs_def])
next
  case (disconnected k sb)
  have "sub_ids p' = sub_ids p"
    by (rule sub_ids_update[OF disconnected(2,3)]) (simp_all add: disconnected(1))
  then show ?thesis
    by (intro sub_ok_same[OF assms(3)]) (simp_all add: disconnected(1) pendings_def[abs_def])
qed (auto intro!: sub_ok_same[OF assms(3)] simp: write_step_def set_chan_def sub_ids_def pendings_def[abs_def])

subsection \<open>Payloads\<close>

lemma redis_publish_nth:
  assumes "k < length subs"
  shows "redis_publish b room payload got subs ! k = subs ! k \<or>
    (redis_publish b room payload got subs ! k = (subs ! k)\<lparr>sb_queue := sb_queue (subs ! k) @ [payload]\<rparr> \<and>
     sb_room (subs ! k) = room)"
proof -
  have "redis_publish b room payload got subs ! k =
      (if k \<in> got \<and> sb_status (subs ! k) = Listening \<and> room_route b (sb_room (subs ! k)) = room_route b room
          \<and> room_route b room \<noteq> None
       then (subs ! k)\<lparr>sb_queue := sb_queue (subs ! k) @ [payload]\<rparr> else subs ! k)"
    using assms by (simp add: redis_publish_def nth_enumerate_eq)
  moreover have "sb_room (subs ! k) = room"
    if "room_route b (sb_room (subs ! k)) = room_route b room" "room_route b room \<noteq> None"
    using that redis.separate[of b room _ "sb_room (subs ! k)"] by fastforce
  ultimately show ?thesis by (simp del: not_None_eq)
qed

lemma redis_publish_queue:
  assumes "sb' \<in> set (redis_publish b room payload got subs)" "q \<in> set (sb_queue sb')"
  shows "\<exists>sb \<in> set subs. sb_room sb = sb_room sb' \<and> (q \<in> set (sb_queue sb) \<or> (q = payload \<and> sb_room sb' = room))"
proof -
  obtain k where k: "k < length subs" "sb' = redis_publish b room payload got subs ! k"
    using assms(1) by (metis in_set_conv_nth redis_publish_fields(1))
  from redis_publish_nth[OF k(1), of b room payload got] k assms(2) show ?thesis
    by (intro bexI[of _ "subs ! k"]) auto
qed

text \<open>What a step may change for messages to stay where they belong.\<close>

lemma msg_okI:
  assumes ok: "msg_ok p" and log: "set (pd_log p) \<subseteq> set (pd_log p')"
    and queues: "\<And>sb' q. sb' \<in> set (pd_subs p') \<Longrightarrow> q \<in> set (sb_queue sb') \<Longrightarrow>
        (sb_room sb', q) \<in> set (pd_log p') \<or>
        (\<exists>sb \<in> set (pd_subs p). sb_room sb = sb_room sb' \<and> q \<in> set (sb_queue sb))"
    and rooms: "\<And>i room. conn_room (pd_conns p i) = Some room \<Longrightarrow> conn_room (pd_conns p' i) = Some room"
    and sent: "\<And>i q. q \<in> set (cn_buf (pd_chans p' (ClientPtr i))) \<union> set (pd_delivered p' i) \<Longrightarrow>
        q \<in> set (cn_buf (pd_chans p (ClientPtr i))) \<union> set (pd_delivered p i) \<or>
        (\<exists>room. conn_room (pd_conns p' i) = Some room \<and> (room, q) \<in> set (pd_log p'))"
  shows "msg_ok p'"
proof -
  have "(sb_room sb', q) \<in> set (pd_log p')" if "sb' \<in> set (pd_subs p')" "q \<in> set (sb_queue sb')" for sb' q
    using queues[OF that] ok log unfolding msg_ok_def by (metis subsetD)
  moreover have "\<exists>room. conn_room (pd_conns p' i) = Some room \<and> (room, q) \<in> set (pd_log p')"
    if "q \<in> set (cn_buf (pd_chans p' (ClientPtr i))) \<union> set (pd_delivered p' i)" for i q
    using sent[OF that]
  proof
    assume "q \<in> set (cn_buf (pd_chans p (ClientPtr i))) \<union> set (pd_delivered p i)"
    then obtain room where "conn_room (pd_conns p i) = Some room" "(room, q) \<in> set (pd_log p)"
      using ok unfolding msg_ok_def by blast
    then show ?thesis using rooms log by blast
  qed
  ultimately show ?thesis unfolding msg_ok_def by blast
qed

lemma update_queue_mem:
  assumes "sb' \<in> set (subs[k := sb\<lparr>sb_queue := rest\<rparr>])" "k < length subs" "subs ! k = sb"
    "set rest \<subseteq> set (sb_queue sb)" "q \<in> set (sb_queue sb')"
  shows "\<exists>s \<in> set subs. sb_room s = sb_room sb' \<and> q \<in> set (sb_queue s)"
proof -
  have "sb' \<in> set subs \<or> sb' = sb\<lparr>sb_queue := rest\<rparr>"
    using assms(1) set_update_subset_insert[of subs k] by blast
  then show ?thesis
  proof
    assume "sb' = sb\<lparr>sb_queue := rest\<rparr>"
    then show ?thesis
      using assms(2-5) nth_mem[of k subs] by (intro bexI[of _ sb]) auto
  qed (use assms(5) in blast)
qed

lemma msg_ok_same:
  assumes "msg_ok p" "pd_subs p' = pd_subs p" "pd_log p' = pd_log p" "pd_chans p' = pd_chans p"
    "pd_delivered p' = pd_delivered p"
    "\<And>i room. conn_room (pd_conns p i) = Some room \<Longrightarrow> conn_room (pd_conns p' i) = Some room"
  shows "msg_ok p'"
  by (rule msg_okI[OF assms(1)]) (use assms(2-6) in auto)

lemma msg_ok_publish:
  assumes "msg_ok p" shows "msg_ok (publish_step b room payload got p)"
proof (cases "room_route b room = None")
  case True
  then show ?thesis
    by (intro msg_ok_same[OF assms]) (simp_all add: publish_step_def panic_def)
next
  case False
  then have p': "publish_step b room payload got p =
      p\<lparr>pd_subs := redis_publish b room payload got (pd_subs p), pd_log := (room, payload) # pd_log p\<rparr>"
    by (simp only: publish_step_def False if_False)
  show ?thesis
    unfolding p'
  proof (rule msg_okI[OF assms])
    fix sb' q
    assume "sb' \<in> set (pd_subs (p\<lparr>pd_subs := redis_publish b room payload got (pd_subs p), pd_log := (room, payload) # pd_log p\<rparr>))"
      and q: "q \<in> set (sb_queue sb')"
    then have "sb' \<in> set (redis_publish b room payload got (pd_subs p))" by simp
    from redis_publish_queue[OF this q]
    show "(sb_room sb', q) \<in> set (pd_log (p\<lparr>pd_subs := redis_publish b room payload got (pd_subs p), pd_log := (room, payload) # pd_log p\<rparr>)) \<or>
        (\<exists>sb\<in>set (pd_subs p). sb_room sb = sb_room sb' \<and> q \<in> set (sb_queue sb))"
      by auto
  qed auto
qed

lemma msg_ok_step:
  assumes "pod_step b p p'" "hub_ok p" "chan_ok p" "sub_ok p" "msg_ok p"
  shows "msg_ok p'"
  using assms(1)
proof cases
  case (accept i room0 user0 room user)
  have "conn_room (pd_conns p i) = None" using accept by simp
  show ?thesis
    by (rule msg_okI[OF assms(5)]) (use accept in \<open>auto simp: set_conn_def set_chan_def make_chan_def split: if_splits\<close>)
next
  case (join i room user)
  show ?thesis
    by (rule msg_ok_same[OF assms(5)]) (use join in \<open>auto simp: join_step_fields split: if_splits option.split\<close>)
next
  case (subscribe i room user ctx r)
  show ?thesis
    by (rule msg_okI[OF assms(5)])
       (use subscribe in \<open>auto simp: subscribe_step_def panic_def set_conn_def split: if_splits\<close>)
next
  case (read i room user data now got)
  then show ?thesis
    using assms(5) msg_ok_publish by (simp add: read_step_def split: option.split)
next
  case (remote room payload got)
  then show ?thesis using assms(5) msg_ok_publish by simp
next
  case (close i room)
  show ?thesis
    by (rule msg_okI[OF assms(5)])
       (use close in \<open>auto simp: close_step_def panic_def set_conn_def set_chan_def close_chan_def split: if_splits option.splits\<close>)
next
  case (written i payload rest ok)
  have mem: "payload \<in> set (cn_buf (pd_chans p (ClientPtr i)))" "set rest \<subseteq> set (cn_buf (pd_chans p (ClientPtr i)))"
    using written(3) by auto
  show ?thesis
    by (rule msg_okI[OF assms(5)]) (use mem in \<open>auto simp: written(1) write_step_def set_chan_def split: if_splits\<close>)
next
  case (deliver k sb payload rest)
  let ?C = "room_clients (pd_hub p) (sb_target sb)"
  have p': "p' = p\<lparr>pd_subs := (pd_subs p)[k := sb\<lparr>sb_queue := rest\<rparr>],
      pd_chans := (\<lambda>c. if c \<in> ?C then the (select_send payload (pd_chans p c)) else pd_chans p c)\<rparr>"
    using deliver(1) deliver_step_eq[OF assms(2,3)] by simp
  have sb: "sb \<in> set (pd_subs p)" using deliver(2,3) nth_mem by blast
  have logged: "(sb_room sb, payload) \<in> set (pd_log p)"
    using assms(5) sb deliver(5) by (simp add: msg_ok_def)
  show ?thesis
    unfolding p'
  proof (rule msg_okI[OF assms(5)], goal_cases)
    case (2 sb' q)
    have "\<exists>s \<in> set (pd_subs p). sb_room s = sb_room sb' \<and> q \<in> set (sb_queue s)"
      by (rule update_queue_mem[where subs = "pd_subs p" and k = k and sb = sb and rest = rest]) (use 2 deliver(2,3,5) in auto)
    then show ?case by blast
  next
    case (4 i q)
    show ?case
    proof (cases "ClientPtr i \<in> ?C")
      case True
      obtain name where name: "hb_rooms (pd_hub p) name = Some (sb_target sb)" "joined_room (pd_conns p i) = Some name"
        using room_client_joined[OF assms(2) True] by blast
      have "(sb_ctx sb, sb_room sb, sb_target sb) \<in> set (sub_ids p)"
        using sb by (simp add: sub_ids_def)
      then have "name = sb_room sb"
        using subs_okD(2)[OF assms(4)[unfolded sub_ok_def]] name(1) by blast
      moreover obtain ch' where ch': "select_send payload (pd_chans p (ClientPtr i)) = Some ch'"
        using select_send_open[OF room_client_open[OF assms(2,3) True]] by blast
      ultimately show ?thesis
        using 4 True select_send_buf[OF ch'] ch' logged joined_conn_room[OF name(2)] by auto
    next
      case False
      then show ?thesis using 4 by simp
    qed
  qed simp_all
next
  case (cancelled k sb)
  show ?thesis
  proof (rule msg_okI[OF assms(5)])
    fix sb' q assume "sb' \<in> set (pd_subs p')" "q \<in> set (sb_queue sb')"
    moreover have "pd_subs p' = (pd_subs p)[k := sb\<lparr>sb_status := Cancelled\<rparr>]" by (simp add: cancelled)
    ultimately have "sb' \<in> set (pd_subs p) \<or> sb' = sb\<lparr>sb_status := Cancelled\<rparr>"
      using set_update_subset_insert[of "pd_subs p" k] by auto
    then show "(sb_room sb', q) \<in> set (pd_log p') \<or> (\<exists>s \<in> set (pd_subs p). sb_room s = sb_room sb' \<and> q \<in> set (sb_queue s))"
      using \<open>q \<in> set (sb_queue sb')\<close> nth_mem[OF cancelled(2)] cancelled(3) by auto
  qed (simp_all add: cancelled(1))
next
  case (disconnected k sb)
  show ?thesis
  proof (rule msg_okI[OF assms(5)])
    fix sb' q assume "sb' \<in> set (pd_subs p')" "q \<in> set (sb_queue sb')"
    moreover have "pd_subs p' = (pd_subs p)[k := sb\<lparr>sb_status := Disconnected\<rparr>]" by (simp add: disconnected)
    ultimately have "sb' \<in> set (pd_subs p) \<or> sb' = sb\<lparr>sb_status := Disconnected\<rparr>"
      using set_update_subset_insert[of "pd_subs p" k] by auto
    then show "(sb_room sb', q) \<in> set (pd_log p') \<or> (\<exists>s \<in> set (pd_subs p). sb_room s = sb_room sb' \<and> q \<in> set (sb_queue s))"
      using \<open>q \<in> set (sb_queue sb')\<close> nth_mem[OF disconnected(2)] disconnected(3) by auto
  qed (simp_all add: disconnected(1))
qed (rule msg_ok_same[OF assms(5)]; auto simp: set_conn_def leave_step_def)+

subsection \<open>The invariant\<close>

definition pod_inv :: "Broker \<Rightarrow> pod \<Rightarrow> bool" where
  "pod_inv b p \<longleftrightarrow> hub_ok p \<and> chan_ok p \<and> sub_ok p \<and> msg_ok p \<and> (usable_broker b \<longrightarrow> \<not> pd_panicked p)"

lemma start_pod_inv:
  assumes "start_pod p"
  shows "pod_inv b p"
proof -
  have p: "pd_hub p = newHub" "pd_chans p = (\<lambda>c. make_chan)" "pd_conns p = (\<lambda>i. Unused)" "pd_subs p = []"
    "pd_delivered p = (\<lambda>i. [])" "\<not> pd_panicked p"
    using assms by (simp_all add: start_pod_def)
  have hub: "hb_rooms newHub = Map.empty" by (simp add: newHub_def)
  have "hub_ok p" by (simp add: hub_ok_def p newHub_inv members_newHub)
  moreover have "chan_ok p" by (simp add: chan_ok_def p make_chan_def)
  moreover have "sub_ok p"
    by (simp add: sub_ok_def subs_ok_def p hub sub_ids_def pendings_def[abs_def] ran_def)
  moreover have "msg_ok p" by (simp add: msg_ok_def p make_chan_def)
  ultimately show ?thesis using p(6) by (simp add: pod_inv_def)
qed

interpretation chat: invariant_system start_pod "pod_step b" "pod_inv b"
proof (unfold_locales, goal_cases)
  case (1 p)
  then show ?case by (rule start_pod_inv)
next
  case (2 p p')
  then show ?case
    unfolding pod_inv_def using hub_ok_step chan_ok_step sub_ok_step msg_ok_step no_panic_step by blast
qed

text \<open>A room's connections and subscriptions at a reachable state, for the properties below.\<close>

definition room_subs :: "pod \<Rightarrow> room_ptr \<Rightarrow> subscription list" where
  "room_subs p r = filter (\<lambda>sb. sb_target sb = r) (pd_subs p)"

definition openers :: "pod \<Rightarrow> room_ptr \<Rightarrow> nat set" where
  "openers p r = {j. \<exists>room user ctx. pd_conns p j = Joining room user ctx r}"

lemma opener_pending: "j \<in> openers p r \<Longrightarrow> \<exists>ctx room. pendings p j = Some (ctx, room, r)"
  by (auto simp: openers_def pendings_def)

lemma pending_opener: "pendings p j = Some (ctx, room, r) \<Longrightarrow> j \<in> openers p r"
  by (cases "pd_conns p j") (auto simp: openers_def pendings_def)

text \<open>
  Of the subscriptions that were ever opened, as a list with repetitions, and the connections that
  are about to open one, exactly one is for a room in the map.
\<close>

lemma room_subscription_count:
  assumes "sub_ok p" "hb_rooms (pd_hub p) name = Some r"
  shows "finite (openers p r) \<and> length (room_subs p r) + card (openers p r) = 1"
proof -
  note ok = subs_okD[OF assms(1)[unfolded sub_ok_def]]
  have targets: "map target (sub_ids p) = map sb_target (pd_subs p)" by (simp add: sub_ids_def target_def)
  have le1: "length (room_subs p r) \<le> 1"
    using distinct_filter_le_one[of sb_target] ok(4) unfolding targets room_subs_def by blast
  obtain ctx where ctx: "(ctx, name, r) \<in> set (sub_ids p) \<union> ran (pendings p)" using ok(7)[OF assms(2)] by blast
  show ?thesis
  proof (cases "room_subs p r = []")
    case True
    then have "(ctx, name, r) \<notin> set (sub_ids p)" by (auto simp: room_subs_def sub_ids_def filter_empty_conv)
    then obtain j where j: "pendings p j = Some (ctx, name, r)" using ctx by (auto simp: ran_def)
    have "k = j" if k: "k \<in> openers p r" for k
      using opener_pending[OF k] ok(5)[OF _ j, of k] by (auto simp: target_def)
    then have "openers p r = {j}" using pending_opener[OF j] by blast
    then show ?thesis using True by simp
  next
    case False
    then have one: "length (room_subs p r) = 1" using le1 by (simp add: le_Suc_eq)
    have mem: "r \<in> target ` set (sub_ids p)"
      using False unfolding set_map[symmetric] targets by (auto simp: room_subs_def filter_empty_conv)
    have "k \<notin> openers p r" for k
    proof
      assume "k \<in> openers p r"
      then obtain ctx room where "pendings p k = Some (ctx, room, r)" using opener_pending by blast
      from ok(6)[OF this] show False using mem by (simp add: target_def)
    qed
    then have "openers p r = {}" by blast
    then show ?thesis using one by simp
  qed
qed

text \<open>A subscription ends as cancelled only after its context is.\<close>

definition status_ok :: "pod \<Rightarrow> bool" where
  "status_ok p \<longleftrightarrow> (\<forall>sb \<in> set (pd_subs p). sb_status sb = Cancelled \<longrightarrow> sb_ctx sb \<in> hb_cancelled (pd_hub p))"

lemma cancelled_mono: "hb_cancelled h \<subseteq> hb_cancelled (snd (join room c h))" "hb_cancelled h \<subseteq> hb_cancelled (leave room c h)"
  by (auto simp: join_def leave_def Let_def split: option.split)

lemma redis_publish_status:
  "sb \<in> set (redis_publish b room payload got subs) \<Longrightarrow>
     \<exists>sb' \<in> set subs. sb_ctx sb = sb_ctx sb' \<and> sb_status sb = sb_status sb'"
  unfolding in_set_conv_nth[of sb] redis_publish_fields(1)
  using redis_publish_nth[of _ subs b room payload got] by (metis nth_mem subscription.select_convs(1,5) subscription.surjective subscription.update_convs(4))

lemma status_ok_publish: "status_ok p \<Longrightarrow> status_ok (publish_step b room payload got p)"
  using redis_publish_status by (fastforce simp: status_ok_def publish_step_def panic_def)

lemma status_ok_update:
  assumes "status_ok p" "pd_hub p' = pd_hub p" "pd_subs p' = (pd_subs p)[k := sb']"
    and "sb_status sb' = Cancelled \<Longrightarrow> sb_ctx sb' \<in> hb_cancelled (pd_hub p)"
  shows "status_ok p'"
  using assms set_update_subset_insert[of "pd_subs p" k sb'] by (auto simp: status_ok_def)

lemma status_ok_step:
  assumes "pod_step b p p'" "status_ok p"
  shows "status_ok p'"
  using assms(1)
proof cases
  case (join i room user)
  then show ?thesis using assms(2) cancelled_mono(1) by (fastforce simp: status_ok_def join_step_fields)
next
  case (leave i room)
  then show ?thesis using assms(2) cancelled_mono(2) by (fastforce simp: status_ok_def leave_step_def set_conn_def)
next
  case (read i room user data now got)
  then show ?thesis using assms(2) status_ok_publish by (simp add: read_step_def split: option.split)
next
  case (remote room payload got)
  then show ?thesis using assms(2) status_ok_publish by simp
next
  case (deliver k sb payload rest)
  have subs: "pd_subs p' = (pd_subs p)[k := sb\<lparr>sb_queue := rest\<rparr>]"
    by (simp add: deliver(1) deliver_step_def panic_def Let_def split: option.split)
  show ?thesis
    by (rule status_ok_update[OF assms(2) _ subs]) (use deliver in \<open>simp_all add: deliver_frame\<close>)
next
  case (cancelled k sb)
  show ?thesis by (rule status_ok_update[OF assms(2), of _ k "sb\<lparr>sb_status := Cancelled\<rparr>"]) (use cancelled in simp_all)
next
  case (disconnected k sb)
  show ?thesis by (rule status_ok_update[OF assms(2), of _ k "sb\<lparr>sb_status := Disconnected\<rparr>"]) (use disconnected in simp_all)
qed (use assms(2) in \<open>auto simp: status_ok_def step_defs split: option.split\<close>)

interpretation chat_status: invariant_system start_pod "pod_step b" status_ok
  by unfold_locales (simp add: start_pod_def status_ok_def, rule status_ok_step)

lemma joined_room_known:
  assumes "pod_inv b p" "joined_room (pd_conns p i) = Some name"
  shows "\<exists>r. hb_rooms (pd_hub p) name = Some r"
proof -
  have ok: "hub_ok p" and inv: "hub_inv (pd_hub p)"
    using assms(1) by (simp_all add: pod_inv_def hub_ok_def)
  have "ClientPtr i \<in> members (pd_hub p) name"
    using ok assms(2) by (simp add: hub_ok_def)
  then show ?thesis
    using members_empty_iff[OF inv, of name] by auto
qed

text \<open>The contexts of a room's subscription and of its opener are live while the room is in the map.\<close>

lemma room_context_live:
  assumes "hub_inv h" "subs_ok h ids js" "hb_rooms h name = Some r" "(ctx, room, r) \<in> set ids \<union> ran js"
  shows "room = name \<and> ctx \<notin> hb_cancelled h"
proof -
  obtain rm where rm: "hb_heap h r = Some rm" "rm_cancel rm \<notin> hb_cancelled h"
    using hub_inv_room[OF assms(1,3)] .
  then have "rm_cancel rm = ctx" using subs_okD(1)[OF assms(2,4)] by simp
  then show ?thesis using rm(2) subs_okD(2)[OF assms(2,4,3)] by simp
qed

end
