(* ===== verification/ChatOrder.thy ===== *)
theory ChatOrder
  imports ChatSafety "HOL-Library.Sublist"
begin

section \<open>What a connection receives, and in which order\<close>

text \<open>
  Publishing to Redis fixes an order of the messages of a room.  The invariant here follows a message
  from there through the queue of the room's subscription and the client's channel to the connection:
  what a connection has been sent, what waits in its channel and what waits in the queue of its room
  together are a subsequence of what was published to the room.  So nothing is delivered twice, out of
  order or to the wrong room.
\<close>

subsection \<open>Queues by room\<close>

definition published :: "pod \<Rightarrow> gostring \<Rightarrow> bytes list" where
  "published p room = rev (map snd (filter (\<lambda>x. fst x = room) (pd_log p)))"

definition queue_at :: "subscription list \<Rightarrow> room_ptr \<Rightarrow> bytes list" where
  "queue_at subs r = (case find (\<lambda>sb. sb_target sb = r) subs of None \<Rightarrow> [] | Some sb \<Rightarrow> sb_queue sb)"

definition room_queue :: "Hub \<Rightarrow> subscription list \<Rightarrow> gostring \<Rightarrow> bytes list" where
  "room_queue h subs room = (case hb_rooms h room of None \<Rightarrow> [] | Some r \<Rightarrow> queue_at subs r)"

definition backlog :: "pod \<Rightarrow> nat \<Rightarrow> bytes list" where
  "backlog p i =
     (case joined_room (pd_conns p i) of
        None \<Rightarrow> []
      | Some room \<Rightarrow> room_queue (pd_hub p) (pd_subs p) room)"

lemma backlog_cong:
  "(\<And>room. room_queue (pd_hub p') (pd_subs p') room = room_queue (pd_hub p) (pd_subs p) room) \<Longrightarrow>
   joined_room (pd_conns p' i) = joined_room (pd_conns p i) \<Longrightarrow> backlog p' i = backlog p i"
  by (simp add: backlog_def split: option.split)

definition in_transit :: "pod \<Rightarrow> nat \<Rightarrow> bytes list" where
  "in_transit p i = pd_delivered p i @ cn_buf (pd_chans p (ClientPtr i)) @ backlog p i"

definition order_ok :: "pod \<Rightarrow> bool" where
  "order_ok p \<longleftrightarrow>
     (\<forall>sb \<in> set (pd_subs p). subseq (sb_queue sb) (published p (sb_room sb))) \<and>
     (\<forall>i room. conn_room (pd_conns p i) = Some room \<longrightarrow> subseq (in_transit p i) (published p room)) \<and>
     (\<forall>i room user. pd_conns p i = Accepted room user \<longrightarrow> pd_delivered p i = [] \<and> cn_buf (pd_chans p (ClientPtr i)) = [])"

lemma find_Some_mem: "find P xs = Some x \<Longrightarrow> x \<in> set xs \<and> P x"
  by (induction xs) (auto split: if_splits)

lemma find_update:
  assumes "distinct (map f xs)" "k < length xs" "f y = f (xs ! k)"
  shows "find (\<lambda>x. f x = t) (xs[k := y]) = (if t = f (xs ! k) then Some y else find (\<lambda>x. f x = t) xs)"
  using assms
proof (induction xs arbitrary: k)
  case (Cons x xs)
  then show ?case
  proof (cases k)
    case (Suc j)
    have "f (xs ! j) \<noteq> f x"
      using Cons.prems(1,2) Suc by (metis distinct.simps(2) image_eqI length_Cons list.set_map list.simps(9) not_less_eq nth_mem)
    then show ?thesis using Cons Suc by auto
  qed auto
qed simp

lemma find_all2:
  "list_all2 R xs ys \<Longrightarrow> (\<And>x y. R x y \<Longrightarrow> P x = P y) \<Longrightarrow> rel_option R (find P xs) (find P ys)"
  by (induction rule: list_all2_induct) auto

lemma queue_at_update:
  assumes "distinct (map sb_target subs)" "k < length subs" "subs ! k = sb" "sb_target sb' = sb_target sb"
  shows "queue_at (subs[k := sb']) r = (if r = sb_target sb then sb_queue sb' else queue_at subs r)"
  using find_update[OF assms(1,2), of sb' r] assms(3,4) by (auto simp: queue_at_def)

lemma queue_at_nth:
  assumes "distinct (map sb_target subs)" "k < length subs" "subs ! k = sb"
  shows "queue_at subs (sb_target sb) = sb_queue sb"
  using queue_at_update[OF assms, of sb "sb_target sb"] assms(3) list_update_id[of subs k] by simp

lemma queue_at_snoc: "sb_queue sb = [] \<Longrightarrow> queue_at (subs @ [sb]) r = queue_at subs r"
  by (induction subs) (auto simp: queue_at_def)

lemma sub_ok_targets:
  assumes "sub_ok p"
  shows "distinct (map sb_target (pd_subs p))"
proof -
  have "map target (sub_ids p) = map sb_target (pd_subs p)" by (simp add: sub_ids_def target_def)
  then show ?thesis using subs_okD(4)[OF assms[unfolded sub_ok_def]] by simp
qed

lemma sub_ok_room:
  assumes "sub_ok p" "sb \<in> set (pd_subs p)" "hb_rooms (pd_hub p) room = Some (sb_target sb)"
  shows "sb_room sb = room"
proof -
  have "(sb_ctx sb, sb_room sb, sb_target sb) \<in> set (sub_ids p) \<union> ran (pendings p)"
    using assms(2) by (simp add: sub_ids_def)
  then show ?thesis using subs_okD(2)[OF assms(1)[unfolded sub_ok_def] _ assms(3)] by simp
qed

lemma queue_at_published:
  assumes "sub_ok p" "order_ok p" "hb_rooms (pd_hub p) room = Some r"
  shows "subseq (queue_at (pd_subs p) r) (published p room)"
proof (cases "find (\<lambda>sb. sb_target sb = r) (pd_subs p)")
  case (Some sb)
  then have "sb \<in> set (pd_subs p)" "sb_target sb = r" using find_Some_mem by fastforce+
  then show ?thesis
    using Some assms sub_ok_room[OF assms(1), of sb room] by (auto simp: queue_at_def order_ok_def)
qed (simp add: queue_at_def)

subsection \<open>Steps that keep the order\<close>

lemma order_okI:
  assumes ok: "order_ok p"
    and pub: "\<And>room. prefix (published p room) (published p' room)"
    and subs: "\<And>sb. sb \<in> set (pd_subs p') \<Longrightarrow>
      (\<exists>s \<in> set (pd_subs p). sb_room s = sb_room sb \<and> subseq (sb_queue sb) (sb_queue s)) \<or>
      subseq (sb_queue sb) (published p' (sb_room sb))"
    and conns: "\<And>i room. conn_room (pd_conns p' i) = Some room \<Longrightarrow>
      (conn_room (pd_conns p i) = Some room \<and> subseq (in_transit p' i) (in_transit p i)) \<or>
      subseq (in_transit p' i) (published p' room)"
    and fresh: "\<And>i room user. pd_conns p' i = Accepted room user \<Longrightarrow>
      pd_delivered p' i = [] \<and> cn_buf (pd_chans p' (ClientPtr i)) = []"
  shows "order_ok p'"
proof -
  have sp: "subseq (published p room) (published p' room)" for room
    using pub by (auto simp: prefix_def)
  have "subseq (sb_queue sb) (published p' (sb_room sb))" if "sb \<in> set (pd_subs p')" for sb
    using subs[OF that] ok sp unfolding order_ok_def by (metis subseq_order.trans)
  moreover have "subseq (in_transit p' i) (published p' room)" if "conn_room (pd_conns p' i) = Some room" for i room
    using conns[OF that] ok sp unfolding order_ok_def by (metis subseq_order.trans)
  ultimately show ?thesis using fresh unfolding order_ok_def by blast
qed

lemma order_ok_frame:
  assumes "order_ok p" "pd_log p' = pd_log p" "pd_subs p' = pd_subs p" "pd_delivered p' = pd_delivered p"
    "pd_chans p' = pd_chans p" "pd_hub p' = pd_hub p"
    and "\<And>i. conn_room (pd_conns p' i) = conn_room (pd_conns p i) \<and>
      joined_room (pd_conns p' i) \<in> {None, joined_room (pd_conns p i)}"
    and "\<And>i room user. pd_conns p' i = Accepted room user \<Longrightarrow> pd_conns p i = Accepted room user"
  shows "order_ok p'"
proof (rule order_okI[OF assms(1)])
  show "prefix (published p room) (published p' room)" for room by (simp add: published_def assms(2))
next
  fix i room assume "conn_room (pd_conns p' i) = Some room"
  moreover have "subseq (in_transit p' i) (in_transit p i)"
    using assms(7)[of i] unfolding in_transit_def backlog_def assms(3-6) by auto
  ultimately show "(conn_room (pd_conns p i) = Some room \<and> subseq (in_transit p' i) (in_transit p i)) \<or>
      subseq (in_transit p' i) (published p' room)"
    using assms(7)[of i] by simp
qed (use assms in \<open>auto simp: order_ok_def\<close>)

text \<open>Publishing: the log of the room grows, and queues listening to the room may grow with it.\<close>

lemma redis_publish_all2:
  "list_all2 (\<lambda>sb sb'. sb_room sb' = sb_room sb \<and> sb_target sb' = sb_target sb \<and>
       (sb_queue sb' = sb_queue sb \<or> sb_room sb = room \<and> sb_queue sb' = sb_queue sb @ [payload]))
     subs (redis_publish b room payload got subs)"
proof (rule list_all2_all_nthI)
  show "length subs = length (redis_publish b room payload got subs)" by (simp add: redis_publish_fields)
  fix k assume "k < length subs"
  then have nth: "redis_publish b room payload got subs ! k =
      (if k \<in> got \<and> sb_status (subs ! k) = Listening \<and> room_route b (sb_room (subs ! k)) = room_route b room
          \<and> room_route b room \<noteq> None
       then (subs ! k)\<lparr>sb_queue := sb_queue (subs ! k) @ [payload]\<rparr> else subs ! k)"
    by (simp add: redis_publish_def nth_enumerate_eq)
  have "sb_room (subs ! k) = room"
    if same: "room_route b (sb_room (subs ! k)) = room_route b room" and some: "room_route b room \<noteq> None"
  proof -
    obtain c where "room_route b room = Some c" using some by blast
    then show ?thesis using redis.separate[of b room c "sb_room (subs ! k)"] same by simp
  qed
  then show "sb_room (redis_publish b room payload got subs ! k) = sb_room (subs ! k) \<and>
      sb_target (redis_publish b room payload got subs ! k) = sb_target (subs ! k) \<and>
      (sb_queue (redis_publish b room payload got subs ! k) = sb_queue (subs ! k) \<or>
       sb_room (subs ! k) = room \<and> sb_queue (redis_publish b room payload got subs ! k) = sb_queue (subs ! k) @ [payload])"
    by (auto simp: nth)
qed

lemma redis_publish_mem:
  assumes "sb' \<in> set (redis_publish b room payload got subs)"
  shows "\<exists>sb \<in> set subs. sb_room sb' = sb_room sb \<and>
    (sb_queue sb' = sb_queue sb \<or> sb_room sb = room \<and> sb_queue sb' = sb_queue sb @ [payload])"
proof -
  obtain k where "k < length subs" "sb' = redis_publish b room payload got subs ! k"
    using assms by (auto simp: in_set_conv_nth redis_publish_fields(1))
  then show ?thesis
    using list_all2_nthD[OF redis_publish_all2[where subs = subs and room = room and payload = payload and b = b and got = got], of k] nth_mem by blast
qed

lemma queue_at_publish:
  "queue_at (redis_publish b room payload got subs) r = queue_at subs r \<or>
   (\<exists>sb \<in> set subs. sb_target sb = r \<and> sb_room sb = room) \<and>
     queue_at (redis_publish b room payload got subs) r = queue_at subs r @ [payload]"
proof -
  let ?R = "\<lambda>sb sb'. sb_room sb' = sb_room sb \<and> sb_target sb' = sb_target sb \<and>
       (sb_queue sb' = sb_queue sb \<or> sb_room sb = room \<and> sb_queue sb' = sb_queue sb @ [payload])"
  have "rel_option ?R (find (\<lambda>sb. sb_target sb = r) subs)
      (find (\<lambda>sb. sb_target sb = r) (redis_publish b room payload got subs))"
    by (rule find_all2[OF redis_publish_all2]) simp
  then show ?thesis
    by (cases rule: option.rel_cases) (auto simp: queue_at_def dest!: find_Some_mem)
qed

lemma subseq_snoc: "subseq xs ys \<Longrightarrow> subseq (xs @ [x]) (ys @ [x])"
  by (simp add: list_emb_append_mono)

lemma order_ok_publish:
  assumes "sub_ok p" "order_ok p"
  shows "order_ok (publish_step b room payload got p)"
proof (cases "room_route b room = None")
  case True
  then show ?thesis
    by (intro order_ok_frame[OF assms(2)]) (simp_all add: publish_step_def panic_def)
next
  case False
  let ?p = "publish_step b room payload got p"
  have p': "?p = p\<lparr>pd_subs := redis_publish b room payload got (pd_subs p), pd_log := (room, payload) # pd_log p\<rparr>"
    using False by (simp only: publish_step_def if_False)
  have pub: "published ?p x = (if x = room then published p x @ [payload] else published p x)" for x
    by (simp add: published_def p')
  show ?thesis
  proof (rule order_okI[OF assms(2)])
    show "prefix (published p x) (published ?p x)" for x by (simp add: pub)
  next
    fix sb' assume "sb' \<in> set (pd_subs ?p)"
    then have "sb' \<in> set (redis_publish b room payload got (pd_subs p))" by (simp add: p')
    from redis_publish_mem[OF this] obtain sb where sb: "sb \<in> set (pd_subs p)" "sb_room sb' = sb_room sb"
      "sb_queue sb' = sb_queue sb \<or> sb_room sb = room \<and> sb_queue sb' = sb_queue sb @ [payload]"
      by blast
    moreover have "subseq (sb_queue sb) (published p (sb_room sb))"
      using sb(1) assms(2) by (simp add: order_ok_def)
    ultimately show "(\<exists>s \<in> set (pd_subs p). sb_room s = sb_room sb' \<and> subseq (sb_queue sb') (sb_queue s)) \<or>
        subseq (sb_queue sb') (published ?p (sb_room sb'))"
      using subseq_snoc by (auto simp: pub)
  next
    fix i x assume conn: "conn_room (pd_conns ?p i) = Some x"
    then have ci: "conn_room (pd_conns p i) = Some x" by (simp add: p')
    have same: "in_transit ?p i = pd_delivered p i @ cn_buf (pd_chans p (ClientPtr i)) @ backlog ?p i"
      by (simp add: in_transit_def p')
    have "backlog ?p i = backlog p i \<or> x = room \<and> backlog ?p i = backlog p i @ [payload]"
    proof (cases "joined_room (pd_conns p i)")
      case None
      then show ?thesis by (simp add: backlog_def room_queue_def p')
    next
      case (Some y)
      then have y: "y = x" using ci joined_conn_room by fastforce
      show ?thesis
      proof (cases "hb_rooms (pd_hub p) x")
        case None
        then show ?thesis using Some y by (simp add: backlog_def room_queue_def p')
      next
        case (Some r)
        then have "backlog ?p i = queue_at (redis_publish b room payload got (pd_subs p)) r"
          "backlog p i = queue_at (pd_subs p) r"
          using \<open>joined_room _ = _\<close> y by (simp_all add: backlog_def room_queue_def p')
        moreover have "sb_room sb = x" if "sb \<in> set (pd_subs p)" "sb_target sb = r" for sb
          using sub_ok_room[OF assms(1) that(1)] Some that(2) by simp
        ultimately show ?thesis
          using queue_at_publish[of b room payload got "pd_subs p" r] by auto
      qed
    qed
    moreover have "subseq (in_transit p i) (published p x)"
      using ci assms(2) by (simp add: order_ok_def)
    ultimately show "(conn_room (pd_conns p i) = Some x \<and> subseq (in_transit ?p i) (in_transit p i)) \<or>
        subseq (in_transit ?p i) (published ?p x)"
      using ci subseq_snoc[of "in_transit p i" "published p x" payload] unfolding same pub
      by (auto simp: in_transit_def)
  qed (use assms(2) in \<open>simp add: order_ok_def p'\<close>)
qed

text \<open>The other steps that move messages or change who is in a room.\<close>

lemma published_same: "pd_log p' = pd_log p \<Longrightarrow> published p' room = published p room"
  by (simp add: published_def)

lemma order_ok_join:
  assumes "hub_ok p" "sub_ok p" "order_ok p" "pd_conns p i = Accepted room user"
  shows "order_ok (join_step i room user p)" (is "order_ok ?p")
proof (rule order_okI[OF assms(3)])
  have inv: "hub_inv (pd_hub p)" using assms(1) by (simp add: hub_ok_def)
  show "prefix (published p x) (published ?p x)" for x
    by (simp add: published_same[OF join_step_fields(6)])
  note fields = join_step_fields[of i room user p]
  show "(\<exists>s \<in> set (pd_subs p). sb_room s = sb_room sb \<and> subseq (sb_queue sb) (sb_queue s)) \<or>
      subseq (sb_queue sb) (published ?p (sb_room sb))" if "sb \<in> set (pd_subs ?p)" for sb
    using that by (auto simp: fields)
  have fresh: "queue_at (pd_subs p) (RoomPtr (hb_next (pd_hub p))) = []"
  proof -
    have "sb_target sb \<noteq> RoomPtr (hb_next (pd_hub p))" if "sb \<in> set (pd_subs p)" for sb
    proof -
      have "(sb_ctx sb, sb_room sb, sb_target sb) \<in> set (sub_ids p) \<union> ran (pendings p)"
        using that by (simp add: sub_ids_def)
      then show ?thesis
        using subs_okD(1)[OF assms(2)[unfolded sub_ok_def]] hub_inv_fresh[OF inv] by fastforce
    qed
    then show ?thesis by (auto simp: queue_at_def split: option.split dest: find_Some_mem)
  qed
  have rooms: "hb_rooms (pd_hub ?p) x = Some r \<Longrightarrow>
      hb_rooms (pd_hub p) x = Some r \<or> r = RoomPtr (hb_next (pd_hub p))" for x r
    by (auto simp: fields join_def Let_def split: option.splits if_splits)
  show "(conn_room (pd_conns p j) = Some x \<and> subseq (in_transit ?p j) (in_transit p j)) \<or>
      subseq (in_transit ?p j) (published ?p x)" if conn: "conn_room (pd_conns ?p j) = Some x" for j x
  proof (cases "j = i")
    case True
    have x: "x = room" using conn by (auto simp: True fields split: option.splits)
    have joined: "joined_room (pd_conns ?p i) = Some room" by (simp add: fields split: option.split)
    have "in_transit ?p i = backlog ?p i"
      using assms(3,4) by (simp add: in_transit_def fields order_ok_def)
    moreover have "subseq (backlog ?p i) (published p room)"
    proof (cases "hb_rooms (pd_hub ?p) room")
      case (Some r)
      then show ?thesis
        using rooms[OF Some] fresh queue_at_published[OF assms(2,3), of room r]
        by (auto simp: backlog_def room_queue_def joined fields(4))
    qed (simp add: backlog_def room_queue_def joined)
    ultimately show ?thesis by (simp add: True x published_same[OF fields(6)])
  next
    case False
    have "backlog ?p j = backlog p j \<or> backlog ?p j = []"
    proof (cases "joined_room (pd_conns p j)")
      case None
      then show ?thesis using False by (simp add: backlog_def room_queue_def fields)
    next
      case (Some y)
      then have "ClientPtr j \<in> members (pd_hub p) y" using assms(1) by (simp add: hub_ok_def)
      then obtain r where "hb_rooms (pd_hub p) y = Some r"
        using members_empty_iff[OF inv, of y] by auto
      moreover from this have "hb_rooms (pd_hub ?p) y = Some r"
        by (auto simp: fields join_def Let_def split: option.split)
      ultimately show ?thesis using False Some by (simp add: backlog_def room_queue_def fields)
    qed
    then show ?thesis
      using conn False by (auto simp: in_transit_def fields)
  qed
  show "pd_delivered ?p j = [] \<and> cn_buf (pd_chans ?p (ClientPtr j)) = []"
    if "pd_conns ?p j = Accepted x u" for j x u
    using that assms(3) by (auto simp: fields order_ok_def split: if_splits option.splits)
qed

lemma order_ok_leave:
  assumes "order_ok p" "pd_conns p i = Leaving room"
  shows "order_ok (leave_step i room p)" (is "order_ok ?p")
proof (rule order_okI[OF assms(1)])
  have rooms: "hb_rooms (pd_hub ?p) x \<in> {None, hb_rooms (pd_hub p) x}" for x
    by (auto simp: leave_step_def leave_def Let_def split: option.splits)
  show "(conn_room (pd_conns p j) = Some x \<and> subseq (in_transit ?p j) (in_transit p j)) \<or>
      subseq (in_transit ?p j) (published ?p x)" if "conn_room (pd_conns ?p j) = Some x" for j x
  proof (cases "j = i")
    case True
    then show ?thesis using that assms(2) by (auto simp: leave_step_def set_conn_def in_transit_def backlog_def room_queue_def)
  next
    case False
    have "backlog ?p j = backlog p j \<or> backlog ?p j = []"
    proof (cases "joined_room (pd_conns p j)")
      case (Some y)
      show ?thesis
        using False Some rooms[of y] by (auto simp: backlog_def room_queue_def leave_step_def set_conn_def)
    qed (use False in \<open>simp add: backlog_def room_queue_def leave_step_def set_conn_def\<close>)
    then show ?thesis
      using that False by (auto simp: in_transit_def leave_step_def set_conn_def)
  qed
qed (use assms in \<open>auto simp: leave_step_def set_conn_def published_def order_ok_def split: if_splits\<close>)

lemma order_ok_subscribe:
  assumes "order_ok p" "pd_conns p i = Joining room user ctx r"
  shows "order_ok (subscribe_step b i room user ctx r p)" (is "order_ok ?p")
proof (cases "room_route b room = None")
  case True
  then show ?thesis
    by (intro order_ok_frame[OF assms(1)]) (simp_all add: subscribe_step_def panic_def)
next
  case False
  then have p': "?p = (set_conn i (Reading room user) p)
        \<lparr>pd_writers := (pd_writers p)(i := Writing),
         pd_subs := pd_subs p @ [\<lparr>sb_ctx = ctx, sb_room = room, sb_target = r, sb_queue = [],
                                  sb_status = Listening\<rparr>]\<rparr>"
    by (simp only: subscribe_step_def if_False)
  have backlog: "backlog ?p j = backlog p j" for j
    by (rule backlog_cong)
       (use assms(2) in \<open>simp_all add: p' room_queue_def set_conn_def queue_at_snoc split: option.split\<close>)
  show ?thesis
  proof (rule order_okI[OF assms(1)])
    have "in_transit ?p j = in_transit p j" for j
      unfolding in_transit_def backlog by (simp add: p' set_conn_def)
    then show "(conn_room (pd_conns p j) = Some x \<and> subseq (in_transit ?p j) (in_transit p j)) \<or>
        subseq (in_transit ?p j) (published ?p x)" if "conn_room (pd_conns ?p j) = Some x" for j x
      using that assms(2) by (auto simp: p' set_conn_def split: if_splits)
  qed (use assms in \<open>auto simp: p' set_conn_def published_def order_ok_def split: if_splits\<close>)
qed

lemma order_ok_write:
  assumes "order_ok p" "cn_buf (pd_chans p (ClientPtr i)) = payload # rest"
  shows "order_ok (write_step i payload rest ok p)" (is "order_ok ?p")
proof (rule order_okI[OF assms(1)])
  have backlog: "backlog ?p j = backlog p j" for j
    by (rule backlog_cong) (simp_all add: write_step_def set_chan_def)
  have drop: "subseq (a @ rest @ c) (a @ payload # rest @ c)" for a c
    by (rule list_emb_append_mono) (simp_all add: list_emb_Cons)
  have "subseq (in_transit ?p j) (in_transit p j)" for j
    unfolding in_transit_def backlog
    using assms(2) drop[of "pd_delivered p i" "backlog p i"] by (simp add: write_step_def set_chan_def)
  then show "(conn_room (pd_conns p j) = Some x \<and> subseq (in_transit ?p j) (in_transit p j)) \<or>
      subseq (in_transit ?p j) (published ?p x)" if "conn_room (pd_conns ?p j) = Some x" for j x
    using that by (simp add: write_step_def set_chan_def)
  show "pd_delivered ?p j = [] \<and> cn_buf (pd_chans ?p (ClientPtr j)) = []"
    if "pd_conns ?p j = Accepted x u" for j x u
    using that assms by (cases "j = i") (auto simp: write_step_def set_chan_def order_ok_def)
qed (use assms(1) in \<open>auto simp: write_step_def set_chan_def published_def\<close>)

lemma order_ok_deliver:
  assumes "hub_ok p" "chan_ok p" "sub_ok p" "order_ok p"
    and "k < length (pd_subs p)" "pd_subs p ! k = sb" "sb_queue sb = payload # rest"
  shows "order_ok (deliver_step k sb payload rest p)" (is "order_ok ?p")
proof (rule order_okI[OF assms(4)])
  note p' = deliver_step_eq[OF assms(1,2), of k sb payload rest]
  let ?sb = "sb\<lparr>sb_queue := rest\<rparr>" and ?t = "sb_target sb"
  note distinct = sub_ok_targets[OF assms(3)]
  have tail: "subseq rest (payload # rest)" by (simp add: list_emb_Cons)
  have queue: "queue_at (pd_subs ?p) r = (if r = ?t then rest else queue_at (pd_subs p) r)" for r
    using queue_at_update[OF distinct assms(5,6), of ?sb r] by (simp add: p')
  have at: "queue_at (pd_subs p) ?t = payload # rest"
    using queue_at_nth[OF distinct assms(5,6)] assms(7) by simp
  show "prefix (published p x) (published ?p x)" for x by (simp add: published_def p')
  show "(\<exists>s \<in> set (pd_subs p). sb_room s = sb_room sb' \<and> subseq (sb_queue sb') (sb_queue s)) \<or>
      subseq (sb_queue sb') (published ?p (sb_room sb'))" if mem: "sb' \<in> set (pd_subs ?p)" for sb'
  proof -
    have "sb' \<in> set (pd_subs p) \<or> sb' = ?sb"
      using mem set_update_subset_insert[of "pd_subs p" k] by (auto simp: p')
    moreover have "sb \<in> set (pd_subs p)" using assms(5,6) nth_mem by blast
    ultimately show ?thesis using tail assms(7) by auto
  qed
  show "(conn_room (pd_conns p j) = Some x \<and> subseq (in_transit ?p j) (in_transit p j)) \<or>
      subseq (in_transit ?p j) (published ?p x)" if conn: "conn_room (pd_conns ?p j) = Some x" for j x
  proof (cases "ClientPtr j \<in> room_clients (pd_hub p) ?t")
    case True
    obtain name where name: "hb_rooms (pd_hub p) name = Some ?t" "joined_room (pd_conns p j) = Some name"
      using room_client_joined[OF assms(1) True] by blast
    then have b: "backlog p j = payload # rest" "backlog ?p j = rest"
      using queue at by (simp_all add: backlog_def room_queue_def p')
    obtain ch where ch: "select_send payload (pd_chans p (ClientPtr j)) = Some ch"
      using select_send_open[OF room_client_open[OF assms(1,2) True]] by blast
    have "cn_buf ch = cn_buf (pd_chans p (ClientPtr j)) @ [payload] \<or> cn_buf ch = cn_buf (pd_chans p (ClientPtr j))"
      using select_send_buf[OF ch] by blast
    moreover have "in_transit ?p j = pd_delivered p j @ cn_buf ch @ rest"
      using True ch by (simp add: in_transit_def b(2)) (simp add: p')
    ultimately have "subseq (in_transit ?p j) (in_transit p j)"
      using tail by (auto simp: in_transit_def b(1) list_emb_append_mono)
    then show ?thesis using conn by (simp add: p')
  next
    case False
    have "subseq (backlog ?p j) (backlog p j)"
    proof (cases "joined_room (pd_conns p j)")
      case (Some y)
      then show ?thesis
        using tail at queue by (auto simp: backlog_def room_queue_def p' split: option.split)
    qed (simp add: backlog_def p')
    then show ?thesis
      using conn False by (simp add: in_transit_def list_emb_append_mono) (simp add: p' list_emb_append_mono)
  qed
  show "pd_delivered ?p j = [] \<and> cn_buf (pd_chans ?p (ClientPtr j)) = []"
    if acc: "pd_conns ?p j = Accepted x u" for j x u
  proof -
    have "ClientPtr j \<notin> room_clients (pd_hub p) ?t"
      using room_client_joined[OF assms(1), of j ?t] acc by (auto simp: p')
    then show ?thesis using acc assms(4) by (auto simp: p' order_ok_def)
  qed
qed

lemma order_ok_status:
  assumes "sub_ok p" "order_ok p" "k < length (pd_subs p)" "pd_subs p ! k = sb"
  shows "order_ok (p\<lparr>pd_subs := (pd_subs p)[k := sb\<lparr>sb_status := st\<rparr>]\<rparr>)" (is "order_ok ?p")
proof (rule order_okI[OF assms(2)])
  note distinct = sub_ok_targets[OF assms(1)]
  have queue: "queue_at (pd_subs ?p) r = queue_at (pd_subs p) r" for r
    using queue_at_update[OF distinct assms(3,4), of "sb\<lparr>sb_status := st\<rparr>" r] queue_at_nth[OF distinct assms(3,4)] by auto
  have backlog: "backlog ?p j = backlog p j" for j
    by (rule backlog_cong) (use queue in \<open>simp_all add: room_queue_def split: option.split\<close>)
  show "(\<exists>s \<in> set (pd_subs p). sb_room s = sb_room sb' \<and> subseq (sb_queue sb') (sb_queue s)) \<or>
      subseq (sb_queue sb') (published ?p (sb_room sb'))" if mem: "sb' \<in> set (pd_subs ?p)" for sb'
  proof -
    have "sb' \<in> set (pd_subs p) \<or> sb' = sb\<lparr>sb_status := st\<rparr>"
      using mem set_update_subset_insert[of "pd_subs p" k] by auto
    moreover have "sb \<in> set (pd_subs p)" using assms(3,4) nth_mem by blast
    ultimately show ?thesis by auto
  qed
  have "in_transit ?p j = in_transit p j" for j
    unfolding in_transit_def backlog by simp
  then show "(conn_room (pd_conns p j) = Some x \<and> subseq (in_transit ?p j) (in_transit p j)) \<or>
      subseq (in_transit ?p j) (published ?p x)" if "conn_room (pd_conns ?p j) = Some x" for j x
    using that by simp
qed (use assms(2) in \<open>auto simp: published_def order_ok_def\<close>)

subsection \<open>The invariant\<close>

lemma order_ok_accept:
  assumes "msg_ok p" "order_ok p" "pd_conns p i = Unused"
  shows "order_ok (set_chan i make_chan (set_conn i (Accepted room user) p))" (is "order_ok ?p")
proof (rule order_okI[OF assms(2)])
  have none: "pd_delivered p i = []"
    using assms(1,3) unfolding msg_ok_def by (metis UnCI conn_room.simps(1) last_in_set option.distinct(1))
  show "(conn_room (pd_conns p j) = Some x \<and> subseq (in_transit ?p j) (in_transit p j)) \<or>
      subseq (in_transit ?p j) (published ?p x)" if "conn_room (pd_conns ?p j) = Some x" for j x
  proof (cases "j = i")
    case True
    then have "in_transit ?p j = []"
      using none by (simp add: in_transit_def backlog_def set_conn_def set_chan_def make_chan_def)
    then show ?thesis by simp
  next
    case False
    then have "backlog ?p j = backlog p j"
      by (intro backlog_cong) (simp_all add: set_conn_def set_chan_def)
    then have "in_transit ?p j = in_transit p j"
      unfolding in_transit_def using False by (simp add: set_conn_def set_chan_def)
    then show ?thesis using that False by (simp add: set_conn_def set_chan_def)
  qed
  show "pd_delivered ?p j = [] \<and> cn_buf (pd_chans ?p (ClientPtr j)) = []"
    if "pd_conns ?p j = Accepted x u" for j x u
    using that assms(2) none by (auto simp: set_conn_def set_chan_def make_chan_def order_ok_def split: if_splits)
qed (auto simp: set_conn_def set_chan_def published_def)

lemma order_ok_read:
  "sub_ok p \<Longrightarrow> order_ok p \<Longrightarrow> order_ok (read_step b room user data now got p)"
  by (simp add: read_step_def order_ok_publish split: option.split)

lemma order_ok_close:
  assumes "order_ok p" "pd_conns p i = Closing room"
  shows "order_ok (close_step i room p)"
proof (cases "close_chan (pd_chans p (ClientPtr i))")
  case None
  then show ?thesis by (intro order_ok_frame[OF assms(1)]) (simp_all add: close_step_def panic_def)
next
  case (Some ch)
  let ?p = "close_step i room p"
  have p': "?p = set_chan i ch (set_conn i (Waiting room) p)" by (simp add: close_step_def Some)
  have buf: "cn_buf ch = cn_buf (pd_chans p (ClientPtr i))"
    using Some by (auto simp: close_chan_def split: if_splits)
  show ?thesis
  proof (rule order_okI[OF assms(1)])
    have "backlog ?p j = backlog p j" for j
      by (rule backlog_cong) (use assms(2) in \<open>simp_all add: p' set_conn_def set_chan_def\<close>)
    then have "in_transit ?p j = in_transit p j" for j
      unfolding in_transit_def using buf by (simp add: p' set_conn_def set_chan_def)
    then show "(conn_room (pd_conns p j) = Some x \<and> subseq (in_transit ?p j) (in_transit p j)) \<or>
        subseq (in_transit ?p j) (published ?p x)" if "conn_room (pd_conns ?p j) = Some x" for j x
      using that assms(2) by (auto simp: p' set_conn_def set_chan_def split: if_splits)
    show "pd_delivered ?p j = [] \<and> cn_buf (pd_chans ?p (ClientPtr j)) = []"
      if "pd_conns ?p j = Accepted x u" for j x u
      using that assms(1) by (auto simp: p' set_conn_def set_chan_def order_ok_def split: if_splits)
  qed (auto simp: p' set_conn_def set_chan_def published_def)
qed

lemma order_ok_step:
  assumes "pod_step b p p'" "pod_inv b p" "order_ok p"
  shows "order_ok p'"
proof -
  have ok: "hub_ok p" "chan_ok p" "sub_ok p" "msg_ok p"
    using assms(2) by (simp_all add: pod_inv_def)
  show ?thesis
    using assms(1)
  proof cases
    case (accept i room0 user0 room user)
    show ?thesis unfolding accept(1) by (rule order_ok_accept[OF ok(4) assms(3) accept(2)])
  next
    case (join i room user)
    show ?thesis unfolding join(1) by (rule order_ok_join[OF ok(1,3) assms(3) join(2)])
  next
    case (subscribe i room user ctx r)
    show ?thesis unfolding subscribe(1) by (rule order_ok_subscribe[OF assms(3) subscribe(2)])
  next
    case (read i room user data now got)
    show ?thesis unfolding read(1) by (rule order_ok_read[OF ok(3) assms(3)])
  next
    case (remote room payload got)
    show ?thesis using order_ok_publish[OF ok(3) assms(3)] assms(3) by (simp add: remote)
  next
    case (leave i room)
    show ?thesis unfolding leave(1) by (rule order_ok_leave[OF assms(3) leave(2)])
  next
    case (close i room)
    show ?thesis unfolding close(1) by (rule order_ok_close[OF assms(3) close(2)])
  next
    case (written i payload rest ok)
    show ?thesis unfolding written(1) by (rule order_ok_write[OF assms(3) written(3)])
  next
    case (deliver k sb payload rest)
    show ?thesis unfolding deliver(1) by (rule order_ok_deliver[OF ok(1-3) assms(3) deliver(2,3,5)])
  next
    case (cancelled k sb)
    show ?thesis unfolding cancelled(1) by (rule order_ok_status[OF ok(3) assms(3) cancelled(2,3)])
  next
    case (disconnected k sb)
    show ?thesis unfolding disconnected(1) by (rule order_ok_status[OF ok(3) assms(3) disconnected(2,3)])
  next
    case (read_error i room user)
    show ?thesis
      by (rule order_ok_frame[OF assms(3)]) (use read_error in \<open>auto simp: set_conn_def split: if_splits\<close>)
  next
    case (return i room)
    show ?thesis
      by (rule order_ok_frame[OF assms(3)]) (use return in \<open>auto simp: set_conn_def split: if_splits\<close>)
  next
    case (drained i)
    show ?thesis by (rule order_ok_frame[OF assms(3)]) (simp_all add: drained(1))
  qed
qed

definition order_inv :: "Broker \<Rightarrow> pod \<Rightarrow> bool" where
  "order_inv b p \<longleftrightarrow> pod_inv b p \<and> order_ok p"

interpretation chat_order: invariant_system start_pod "pod_step b" "order_inv b"
proof (unfold_locales, goal_cases)
  case (1 p)
  then have "order_ok p"
    by (simp add: order_ok_def start_pod_def)
  then show ?case using start_pod_inv[OF 1] by (simp add: order_inv_def)
next
  case (2 p p')
  then have "pod_inv b p'" using chat.inv_step unfolding order_inv_def by blast
  then show ?case using 2 order_ok_step unfolding order_inv_def by blast
qed

end
