(* ===== verification/ChatLiveness.thy ===== *)
theory ChatLiveness
  imports ChatSafety
begin

section \<open>Every connection can come to its end\<close>

text \<open>
  When the handler has left its room and closed the channel it waits for the writer.  The writer then
  has at most the buffered payloads left, no other goroutine can give it more, and each payload it
  takes brings the wait closer to its end.  A second invariant says where a writer is running.
\<close>

subsection \<open>Where writers run\<close>

fun before_writer :: "conn \<Rightarrow> bool" where
  "before_writer Unused = True"
| "before_writer (Accepted room user) = True"
| "before_writer (Joining room user ctx r) = True"
| "before_writer _ = False"

definition writer_ok :: "pod \<Rightarrow> bool" where
  "writer_ok p \<longleftrightarrow>
     (\<forall>i. pd_writers p i = NotStarted \<longleftrightarrow> before_writer (pd_conns p i)) \<and>
     (\<forall>i. send_closed (pd_conns p i) \<longrightarrow> cn_closed (pd_chans p (ClientPtr i)))"

lemma start_writer_ok: "start_pod p \<Longrightarrow> writer_ok p"
  by (simp add: start_pod_def writer_ok_def)

text \<open>What a delivery and a read leave alone.\<close>

lemma deliver_closed:
  assumes "hub_ok p" "chan_ok p"
  shows "cn_closed (pd_chans (deliver_step k sb payload rest p) c) = cn_closed (pd_chans p c)"
    "pd_conns (deliver_step k sb payload rest p) = pd_conns p"
    "pd_writers (deliver_step k sb payload rest p) = pd_writers p"
  using select_send_open[OF room_client_open[OF assms], of c "sb_target sb" payload] select_send_buf
  by (auto simp: deliver_step_eq[OF assms])

lemma read_writers: "pd_writers (read_step b room user data now got p) = pd_writers p"
  by (simp add: read_step_def publish_step_def panic_def split: option.split)

lemma join_step_writers:
  "pd_writers (join_step i room user p) =
     (case fst (join room (ClientPtr i) (pd_hub p)) of None \<Rightarrow> (pd_writers p)(i := Writing) | Some x \<Rightarrow> pd_writers p)"
  by (simp add: join_step_def set_conn_def Let_def split: option.split prod.split)

lemma writer_ok_step:
  assumes "pod_step b p p'" "hub_ok p" "chan_ok p" "writer_ok p"
  shows "writer_ok p'"
  using assms(1)
proof cases
  case (join i room user)
  then show ?thesis
    using assms(4) by (auto simp: writer_ok_def join_step_fields join_step_writers split: option.split)
next
  case (read i room user data now got)
  then show ?thesis using assms(4) by (simp add: writer_ok_def read_frame read_writers)
next
  case (deliver k sb payload rest)
  then show ?thesis using assms(4) deliver_closed[OF assms(2,3)] by (simp add: writer_ok_def)
next
  case (close i room)
  have "pd_writers p i \<noteq> NotStarted" using assms(4) close(2) by (simp add: writer_ok_def)
  then show ?thesis
    using assms(4) close
    by (auto simp: writer_ok_def close_step_def close_chan_def set_conn_def set_chan_def panic_def split: option.split)
next
  case (written i payload rest ok)
  have "\<not> before_writer (pd_conns p i)"
    using assms(4) written(2) unfolding writer_ok_def by (metis writer.distinct(1))
  then show ?thesis using assms(4) by (simp add: written(1) writer_ok_def write_step_def set_chan_def)
next
  case (drained i)
  have "\<not> before_writer (pd_conns p i)"
    using assms(4) drained(2) unfolding writer_ok_def by (metis writer.distinct(1))
  then show ?thesis using assms(4) by (simp add: drained(1) writer_ok_def)
qed (use assms(4) in \<open>auto simp: writer_ok_def step_defs\<close>)

definition live_inv :: "Broker \<Rightarrow> pod \<Rightarrow> bool" where
  "live_inv b p \<longleftrightarrow> pod_inv b p \<and> writer_ok p"

interpretation chat_live: invariant_system start_pod "pod_step b" "live_inv b"
proof (unfold_locales, goal_cases)
  case (1 p)
  then show ?case by (simp add: live_inv_def start_pod_inv start_writer_ok)
next
  case (2 p p')
  then have "pod_inv b p'" using chat.inv_step unfolding live_inv_def by blast
  then show ?case
    using 2 writer_ok_step unfolding live_inv_def pod_inv_def by blast
qed

subsection \<open>The wait for the writer\<close>

text \<open>What the writer still has to do: the buffered payloads, and to end.\<close>

definition writer_work :: "pod \<Rightarrow> nat \<Rightarrow> nat" where
  "writer_work p i = length (cn_buf (pd_chans p (ClientPtr i))) + (if pd_writers p i = WriteDone then 0 else 1)"

lemma writer_work_bound: "chan_ok p \<Longrightarrow> writer_work p i \<le> send_capacity + 1"
  by (auto simp: writer_work_def chan_ok_def intro: le_SucI)

lemma waiting_writer:
  assumes "writer_ok p" "pd_conns p i = Waiting room"
  shows "cn_closed (pd_chans p (ClientPtr i))" "pd_writers p i = Writing \<or> pd_writers p i = WriteDone"
  using assms by (auto simp: writer_ok_def) (metis assms(2) before_writer.simps(7) writer.exhaust writer_ok_def)

text \<open>No step of any goroutine gives a waiting connection's writer more to do.\<close>

lemma waiting_step:
  assumes "pod_step b p p'" "hub_ok p" "chan_ok p" "pd_conns p i = Waiting room"
  shows "pd_conns p' i = Finished room \<or> pd_conns p' i = Waiting room \<and> writer_work p' i \<le> writer_work p i"
  using assms(1)
proof cases
  case (join j room' user)
  then have "j \<noteq> i" using assms(4) by auto
  then show ?thesis
    using assms(4) by (simp add: join(1) writer_work_def join_step_fields join_step_writers split: option.split)
next
  case (read j room' user data now got)
  then show ?thesis using assms(4) by (simp add: writer_work_def read_frame read_writers)
next
  case (deliver k sb payload rest)
  have "ClientPtr i \<notin> room_clients (pd_hub p) (sb_target sb)"
    using room_client_joined[OF assms(2), of i "sb_target sb"] assms(4) by auto
  then show ?thesis
    using assms(4) by (simp add: deliver(1) deliver_step_eq[OF assms(2,3)] writer_work_def)
qed (use assms(4) in \<open>auto simp: writer_work_def step_defs split: option.split\<close>)

subsection \<open>A connection's own steps\<close>

text \<open>
  The steps of the goroutines of connection \<open>i\<close> alone, its handler and its writer.  Every other step of
  a pod accepts a connection, belongs to another connection, or is one of Redis or of a subscription.
\<close>

inductive own_step :: "Broker \<Rightarrow> nat \<Rightarrow> pod \<Rightarrow> pod \<Rightarrow> bool" for b :: Broker and i :: nat where
  join: "pd_conns p i = Accepted room user \<Longrightarrow> own_step b i p (join_step i room user p)"
| subscribe: "pd_conns p i = Joining room user ctx r \<Longrightarrow> own_step b i p (subscribe_step b i room user ctx r p)"
| read: "pd_conns p i = Reading room user \<Longrightarrow> own_step b i p (read_step b room user data now got p)"
| read_error: "pd_conns p i = Reading room user \<Longrightarrow> own_step b i p (set_conn i (Leaving room) p)"
| leave: "pd_conns p i = Leaving room \<Longrightarrow> own_step b i p (leave_step i room p)"
| close: "pd_conns p i = Closing room \<Longrightarrow> own_step b i p (close_step i room p)"
| return: "pd_conns p i = Waiting room \<Longrightarrow> pd_writers p i = WriteDone \<Longrightarrow> own_step b i p (set_conn i (Finished room) p)"
| written: "pd_writers p i = Writing \<Longrightarrow> cn_buf (pd_chans p (ClientPtr i)) = payload # rest \<Longrightarrow>
    own_step b i p (write_step i payload rest ok p)"
| drained: "pd_writers p i = Writing \<Longrightarrow> cn_buf (pd_chans p (ClientPtr i)) = [] \<Longrightarrow>
    cn_closed (pd_chans p (ClientPtr i)) \<Longrightarrow> own_step b i p (p\<lparr>pd_writers := (pd_writers p)(i := WriteDone)\<rparr>)"

lemma own_step_pod_step: "own_step b i p q \<Longrightarrow> pod_step b p q"
  by (induction rule: own_step.induct) (rule pod_step.intros; assumption)+

lemma own_steps_pod_steps: "(own_step b i ^^ m) p q \<Longrightarrow> (pod_step b)\<^sup>*\<^sup>* p q"
  by (induction m arbitrary: q) (auto elim!: relpowp_Suc_E intro: rtranclp.rtrancl_into_rtrancl own_step_pod_step)

text \<open>What an own step leaves alone: the goroutines of every other connection, and what they delivered.\<close>

lemma own_step_frame:
  "own_step b i p q \<Longrightarrow> j \<noteq> i \<Longrightarrow>
     pd_conns q j = pd_conns p j \<and> pd_writers q j = pd_writers p j \<and> pd_delivered q j = pd_delivered p j \<and>
     pd_chans q (ClientPtr j) = pd_chans p (ClientPtr j)"
  by (induction rule: own_step.induct)
     (auto simp: join_step_fields join_step_writers read_frame read_writers subscribe_step_def leave_step_def
       close_step_def write_step_def set_conn_def set_chan_def panic_def split: option.split)

lemma own_steps_frame:
  "(own_step b i ^^ m) p q \<Longrightarrow> j \<noteq> i \<Longrightarrow>
     pd_conns q j = pd_conns p j \<and> pd_writers q j = pd_writers p j \<and> pd_delivered q j = pd_delivered p j \<and>
     pd_chans q (ClientPtr j) = pd_chans p (ClientPtr j)"
proof (induction m arbitrary: q)
  case (Suc m)
  then show ?case using own_step_frame by (fastforce elim: relpowp_Suc_E)
qed simp

subsection \<open>Runs to the end\<close>

text \<open>\<open>i\<close> is finished after at most \<open>n\<close> steps of its own goroutines, none of any other.\<close>

definition can_finish :: "Broker \<Rightarrow> nat \<Rightarrow> pod \<Rightarrow> nat \<Rightarrow> bool" where
  "can_finish b n p i \<longleftrightarrow>
     (\<exists>m p' room. m \<le> n \<and> (own_step b i ^^ m) p p' \<and> pd_conns p' i = Finished room)"

lemma can_finish_step: "own_step b i p q \<Longrightarrow> can_finish b n q i \<Longrightarrow> can_finish b (Suc n) p i"
  unfolding can_finish_def by (meson relpowp_Suc_I2 Suc_le_mono)

lemma can_finish_mono: "can_finish b n p i \<Longrightarrow> n \<le> n' \<Longrightarrow> can_finish b n' p i"
  unfolding can_finish_def using le_trans by blast

lemma finished_can_finish: "pd_conns p i = Finished room \<Longrightarrow> can_finish b n p i"
  unfolding can_finish_def by (intro exI[of _ 0] exI[of _ p] exI[of _ room]) simp

lemma live_invD: "live_inv b p \<Longrightarrow> hub_ok p \<and> chan_ok p \<and> writer_ok p"
  unfolding live_inv_def pod_inv_def by blast

lemma waiting_can_finish:
  assumes "live_inv b p" "pd_conns p i = Waiting room"
  shows "can_finish b (Suc (writer_work p i)) p i"
  using assms
proof (induction "length (cn_buf (pd_chans p (ClientPtr i)))" arbitrary: p)
  case 0
  note w = waiting_writer[OF live_invD[OF 0(2), THEN conjunct2, THEN conjunct2] 0(3)]
  let ?done = "p\<lparr>pd_writers := (pd_writers p)(i := WriteDone)\<rparr>"
  have ret: "can_finish b 1 q i" if "pd_conns q i = Waiting room" "pd_writers q i = WriteDone" for q
  proof -
    have "own_step b i q (set_conn i (Finished room) q)" by (rule own_step.return[OF that])
    moreover have "can_finish b 0 (set_conn i (Finished room) q) i"
      by (rule finished_can_finish) (simp add: set_conn_def)
    ultimately show ?thesis using can_finish_step by fastforce
  qed
  show ?case
  proof (cases "pd_writers p i = WriteDone")
    case True
    then show ?thesis using ret[OF 0(3)] can_finish_mono by fastforce
  next
    case False
    then have "own_step b i p ?done"
      using own_step.drained[of p i b] w 0(1) by auto
    moreover have "can_finish b 1 ?done i" by (rule ret) (simp_all add: 0(3))
    ultimately show ?thesis
      using can_finish_step False can_finish_mono by (fastforce simp: writer_work_def)
  qed
next
  case (Suc n)
  obtain payload rest where buf: "cn_buf (pd_chans p (ClientPtr i)) = payload # rest"
    using Suc(2) by (cases "cn_buf (pd_chans p (ClientPtr i))") auto
  note w = waiting_writer[OF live_invD[OF Suc(3), THEN conjunct2, THEN conjunct2] Suc(4)]
  show ?case
  proof (cases "pd_writers p i = WriteDone")
    case True
    have "own_step b i p (set_conn i (Finished room) p)" by (rule own_step.return[OF Suc(4) True])
    moreover have "can_finish b (writer_work p i) (set_conn i (Finished room) p) i"
      by (rule finished_can_finish) (simp add: set_conn_def)
    ultimately show ?thesis by (rule can_finish_step)
  next
    case False
    then have "pd_writers p i = Writing" using w(2) by blast
    let ?q = "write_step i payload rest True p"
    have step: "own_step b i p ?q" by (rule own_step.written) (fact, fact)
    have q: "live_inv b ?q" by (rule chat_live.inv_step[OF Suc(3) own_step_pod_step[OF step]])
    have "can_finish b (Suc (writer_work ?q i)) ?q i"
      by (rule Suc(1)[OF _ q])
         (use Suc(2,4) buf in \<open>simp_all add: write_step_def set_chan_def\<close>)
    moreover have "writer_work p i = Suc (writer_work ?q i)"
      using buf by (simp add: writer_work_def write_step_def set_chan_def)
    ultimately show ?thesis using can_finish_step[OF step] by simp
  qed
qed

text \<open>The steps a connection's handler still has to take before it waits for the writer.\<close>

fun steps_to_wait :: "conn \<Rightarrow> nat" where
  "steps_to_wait (Accepted room user) = 5"
| "steps_to_wait (Joining room user ctx r) = 4"
| "steps_to_wait (Reading room user) = 3"
| "steps_to_wait (Leaving room) = 2"
| "steps_to_wait (Closing room) = 1"
| "steps_to_wait _ = 0"

lemma handler_step:
  assumes "live_inv b p" "usable_broker b" "steps_to_wait (pd_conns p i) = Suc n"
  shows "\<exists>q. own_step b i p q \<and> pd_conns q i \<noteq> Unused \<and> steps_to_wait (pd_conns q i) \<le> n"
proof (cases "pd_conns p i")
  case (Accepted room user)
  have "own_step b i p (join_step i room user p)" by (rule own_step.join) fact
  then show ?thesis
    using Accepted assms(3) by (intro exI[of _ "join_step i room user p"]) (auto simp: join_step_fields split: option.split)
next
  case (Joining room user ctx r)
  have "own_step b i p (subscribe_step b i room user ctx r p)" by (rule own_step.subscribe) fact
  then show ?thesis
    using Joining assms(3) redis.routed[OF assms(2), of room]
    by (intro exI[of _ "subscribe_step b i room user ctx r p"]) (simp add: subscribe_step_def set_conn_def del: not_None_eq)
next
  case (Reading room user)
  have "own_step b i p (set_conn i (Leaving room) p)" by (rule own_step.read_error) fact
  then show ?thesis
    using Reading assms(3) by (intro exI[of _ "set_conn i (Leaving room) p"]) (simp add: set_conn_def)
next
  case (Leaving room)
  have "own_step b i p (leave_step i room p)" by (rule own_step.leave) fact
  then show ?thesis
    using Leaving assms(3) by (intro exI[of _ "leave_step i room p"]) (simp add: leave_step_def set_conn_def)
next
  case (Closing room)
  have "\<not> cn_closed (pd_chans p (ClientPtr i))"
    using live_invD[OF assms(1)] Closing by (fastforce simp: chan_ok_def)
  moreover have "own_step b i p (close_step i room p)" by (rule own_step.close) fact
  ultimately show ?thesis
    using Closing assms(3)
    by (intro exI[of _ "close_step i room p"]) (simp add: close_step_def close_chan_def set_conn_def set_chan_def)
qed (use assms(3) in auto)

lemma conn_can_finish:
  assumes "live_inv b p" "usable_broker b" "pd_conns p i \<noteq> Unused"
  shows "can_finish b (steps_to_wait (pd_conns p i) + send_capacity + 2) p i"
  using assms(1,3)
proof (induction "steps_to_wait (pd_conns p i)" arbitrary: p rule: less_induct)
  case less
  show ?case
  proof (cases "steps_to_wait (pd_conns p i)")
    case 0
    then consider room where "pd_conns p i = Waiting room" | room where "pd_conns p i = Finished room"
      using less.prems(2) by (cases "pd_conns p i") auto
    then show ?thesis
    proof cases
      case 1
      have "writer_work p i \<le> send_capacity + 1"
        using writer_work_bound live_invD[OF less.prems(1)] by blast
      then show ?thesis
        using can_finish_mono[OF waiting_can_finish[OF less.prems(1) 1]] by simp
    next
      case 2
      then show ?thesis by (rule finished_can_finish)
    qed
  next
    case (Suc n)
    obtain q where q: "own_step b i p q" "pd_conns q i \<noteq> Unused" "steps_to_wait (pd_conns q i) \<le> n"
      using handler_step[OF less.prems(1) assms(2) Suc] by blast
    have "live_inv b q" by (rule chat_live.inv_step[OF less.prems(1) own_step_pod_step[OF q(1)]])
    then have "can_finish b (steps_to_wait (pd_conns q i) + send_capacity + 2) q i"
      using less.hyps q(2,3) Suc by simp
    then show ?thesis
      using can_finish_step[OF q(1)] can_finish_mono q(3) Suc by fastforce
  qed
qed

end
