(* ===== verification/ChatCluster.thy ===== *)
theory ChatCluster
  imports ChatOrder ChatLiveness
begin

section \<open>Pods that share the rooms over Redis\<close>

text \<open>
  All pods of a deployment run the same program with the same list of shards.  A step of one pod that
  publishes nothing is its own; publishing to Redis is one step of all of them at once, since Redis
  hands the payload to each pod's subscriptions.  \<open>cl_sent\<close> is the history: what was published, by
  which connection of which pod, the newest last.
\<close>

record cluster =
  cl_pods :: "nat \<Rightarrow> pod"
  cl_sent :: "(nat \<times> nat \<times> Message) list"

definition start_cluster :: "cluster \<Rightarrow> bool" where
  "start_cluster c \<longleftrightarrow> (\<forall>n. start_pod (cl_pods c n)) \<and> cl_sent c = []"

definition publish_all :: "Broker \<Rightarrow> gostring \<Rightarrow> bytes \<Rightarrow> (nat \<Rightarrow> nat set) \<Rightarrow> (nat \<Rightarrow> pod) \<Rightarrow> nat \<Rightarrow> pod" where
  "publish_all b room payload got pods = (\<lambda>n. publish_step b room payload (got n) (pods n))"

inductive cluster_step :: "Broker \<Rightarrow> cluster \<Rightarrow> cluster \<Rightarrow> bool" for b :: Broker where
  own: "pod_step b (cl_pods c n) p \<Longrightarrow> pd_log p = pd_log (cl_pods c n) \<Longrightarrow>
    cluster_step b c (c\<lparr>cl_pods := (cl_pods c)(n := p)\<rparr>)"
| publish: "pd_conns (cl_pods c n) i = Reading room user \<Longrightarrow>
    m = \<lparr>msg_Room = room, msg_Username = user, msg_Body = data, msg_SentAt = now\<rparr> \<Longrightarrow>
    marshal_message m = Some payload \<Longrightarrow> room_route b room \<noteq> None \<Longrightarrow>
    cluster_step b c (c\<lparr>cl_pods := publish_all b room payload got (cl_pods c), cl_sent := cl_sent c @ [(n, i, m)]\<rparr>)"

subsection \<open>Each pod of a cluster is a pod\<close>

text \<open>A family of systems in which a joint step moves each component by a step of its own, or not.\<close>

locale system_family =
  fixes init :: "'s \<Rightarrow> bool"
    and step :: "'s \<Rightarrow> 's \<Rightarrow> bool"
    and joint_init :: "'c \<Rightarrow> bool"
    and joint :: "'c \<Rightarrow> 'c \<Rightarrow> bool"
    and comp :: "'c \<Rightarrow> 'i \<Rightarrow> 's"
  assumes comp_init: "joint_init c \<Longrightarrow> init (comp c n)"
    and comp_step: "joint c c' \<Longrightarrow> comp c' n = comp c n \<or> step (comp c n) (comp c' n)"
begin

lemma reach_comp: "reach joint_init joint c \<Longrightarrow> reach init step (comp c n)"
proof (induction rule: reach.induct)
  case (reach_init c)
  then show ?case by (intro reach.reach_init comp_init)
next
  case (reach_step c c')
  from comp_step[OF reach_step(2), of n] show ?case
    using reach.reach_step[OF reach_step(3)] reach_step(3) by auto
qed

end

interpretation pods: system_family start_pod "pod_step b" start_cluster "cluster_step b" cl_pods
proof (unfold_locales, goal_cases)
  case (1 c n)
  then show ?case by (simp add: start_cluster_def)
next
  case (2 c c' n)
  then show ?case
  proof cases
    case (own k p)
    then show ?thesis by (cases "n = k") auto
  next
    case (publish k i room user m data now payload got)
    then show ?thesis
      using pod_step.remote[of b "cl_pods c n" room payload "got n"] by (simp add: publish_all_def del: not_None_eq)
  qed
qed

subsection \<open>One history\<close>

text \<open>What the history says was published to a room, and the payloads of it.\<close>

definition history :: "cluster \<Rightarrow> gostring \<Rightarrow> Message list" where
  "history c room = filter (\<lambda>m. msg_Room m = room) (map (\<lambda>(n, i, m). m) (cl_sent c))"

definition payload_of :: "Message \<Rightarrow> bytes" where
  "payload_of m = the (marshal_message m)"

text \<open>Who a connection says it is, as long as it may still read.\<close>

fun conn_user :: "conn \<Rightarrow> gostring option" where
  "conn_user (Accepted room user) = Some user"
| "conn_user (Joining room user ctx r) = Some user"
| "conn_user (Reading room user) = Some user"
| "conn_user _ = None"

definition named_ok :: "pod \<Rightarrow> bool" where
  "named_ok p \<longleftrightarrow> (\<forall>i. conn_room (pd_conns p i) \<noteq> Some [] \<and> conn_user (pd_conns p i) \<noteq> Some [])"

lemma start_websocket_named: "start_websocket room0 user0 = Upgrade room user \<Longrightarrow> room \<noteq> [] \<and> user \<noteq> []"
  by (auto simp: start_websocket_def split: if_splits)

text \<open>A connection that has begun keeps its room, and its user until it stops reading.\<close>

definition conn_next :: "conn \<Rightarrow> conn \<Rightarrow> bool" where
  "conn_next a a' \<longleftrightarrow> conn_room a' = conn_room a \<and> conn_user a' \<in> {None, conn_user a}"

lemma conn_next_refl [simp]: "conn_next a a"
  by (simp add: conn_next_def)

lemma pod_step_conn:
  assumes "pod_step b p p'"
  shows "conn_next (pd_conns p i) (pd_conns p' i) \<or>
    pd_conns p i = Unused \<and> (\<exists>room user. pd_conns p' i = Accepted room user \<and> room \<noteq> [] \<and> user \<noteq> [])"
  using assms
proof cases
  case (accept j room0 user0 room user)
  then show ?thesis using start_websocket_named by (auto simp: set_conn_def set_chan_def)
next
  case (join j room user)
  then show ?thesis by (auto simp: join_step_fields conn_next_def split: option.split)
next
  case (read j room user data now got)
  then show ?thesis by (simp add: read_frame)
next
  case (deliver k sb payload rest)
  then show ?thesis by (simp add: deliver_frame)
qed (auto simp: step_defs conn_next_def split: option.split)

lemma start_named_ok: "start_pod p \<Longrightarrow> named_ok p"
  by (simp add: start_pod_def named_ok_def)

interpretation named: invariant_system start_pod "pod_step b" named_ok
proof (unfold_locales, goal_cases)
  case (1 p)
  then show ?case by (rule start_named_ok)
next
  case (2 p p')
  have "conn_room (pd_conns p' i) \<noteq> Some [] \<and> conn_user (pd_conns p' i) \<noteq> Some []" for i
    using pod_step_conn[OF 2(2), of i] 2(1) unfolding named_ok_def conn_next_def
    by (metis conn_room.simps(2) conn_user.simps(1) empty_iff insert_iff option.distinct(1) option.inject)
  then show ?case by (simp add: named_ok_def)
qed

definition sender_ok :: "(nat \<Rightarrow> pod) \<Rightarrow> nat \<times> nat \<times> Message \<Rightarrow> bool" where
  "sender_ok pods e \<longleftrightarrow>
     (case e of (n, i, m) \<Rightarrow>
        conn_room (pd_conns (pods n) i) = Some (msg_Room m) \<and>
        conn_user (pd_conns (pods n) i) \<in> {None, Some (msg_Username m)} \<and>
        msg_Room m \<noteq> [] \<and> msg_Username m \<noteq> [] \<and> marshal_message m \<noteq> None)"

definition history_ok :: "cluster \<Rightarrow> bool" where
  "history_ok c \<longleftrightarrow>
     (\<forall>n. pd_log (cl_pods c n) = rev (map (\<lambda>(k, i, m). (msg_Room m, payload_of m)) (cl_sent c))) \<and>
     (\<forall>n. named_ok (cl_pods c n)) \<and> (\<forall>e \<in> set (cl_sent c). sender_ok (cl_pods c) e)"

lemma sender_ok_next:
  assumes "sender_ok pods e" "\<And>n i. conn_next (pd_conns (pods n) i) (pd_conns (pods' n) i) \<or> pd_conns (pods n) i = Unused"
  shows "sender_ok pods' e"
proof -
  obtain n i m where e: "e = (n, i, m)" by (cases e)
  have "pd_conns (pods n) i \<noteq> Unused" using assms(1) e by (auto simp: sender_ok_def)
  then have "conn_next (pd_conns (pods n) i) (pd_conns (pods' n) i)" using assms(2) by blast
  then show ?thesis using assms(1) e by (auto simp: sender_ok_def conn_next_def)
qed

interpretation histories: invariant_system start_cluster "cluster_step b" history_ok
proof (unfold_locales, goal_cases)
  case (1 c)
  then show ?case using start_named_ok by (simp add: start_cluster_def history_ok_def start_pod_def)
next
  case (2 c c')
  have ok: "named_ok (cl_pods c n)" "\<forall>e \<in> set (cl_sent c). sender_ok (cl_pods c) e" for n
    using 2(1) by (simp_all add: history_ok_def)
  from 2(2) show ?case
  proof cases
    case (own n p)
    have "named_ok p" using named.inv_step[OF ok(1) own(2)] .
    moreover have "sender_ok ((cl_pods c)(n := p)) e" if "e \<in> set (cl_sent c)" for e
      by (rule sender_ok_next[OF ok(2)[rule_format, OF that]]) (use pod_step_conn[OF own(2)] in auto)
    ultimately show ?thesis using 2(1) own by (simp add: history_ok_def)
  next
    case (publish n i room user m data now payload got)
    have frame: "pd_conns (publish_all b room payload got (cl_pods c) k) = pd_conns (cl_pods c k)"
      "pd_log (publish_all b room payload got (cl_pods c) k) = (room, payload) # pd_log (cl_pods c k)" for k
      using publish(5) by (simp_all add: publish_all_def publish_step_def del: not_None_eq)
    have "sender_ok (cl_pods c') e" if "e \<in> set (cl_sent c)" for e
      by (rule sender_ok_next[OF ok(2)[rule_format, OF that]]) (simp add: publish(1) frame)
    moreover have "room \<noteq> []" "user \<noteq> []"
      using ok(1)[of n] publish(2) unfolding named_ok_def by (metis conn_room.simps(4), metis conn_user.simps(3))
    then have "sender_ok (cl_pods c') (n, i, m)"
      using publish(2,4) by (simp add: publish(1,3) frame sender_ok_def)
    moreover have "named_ok (cl_pods c' k)" for k using ok(1)[of k] by (simp add: named_ok_def publish(1) frame)
    ultimately show ?thesis
      using 2(1) publish(3,4) by (auto simp: history_ok_def publish(1) frame payload_of_def)
  qed
qed

lemma published_history:
  assumes "history_ok c"
  shows "published (cl_pods c n) room = map payload_of (history c room)"
proof -
  have log: "pd_log (cl_pods c n) = rev (map (\<lambda>(k, i, m). (msg_Room m, payload_of m)) (cl_sent c))"
    using assms by (simp add: history_ok_def)
  show ?thesis
    unfolding published_def log history_def
    by (simp add: rev_filter rev_map filter_map comp_def case_prod_beta)
qed

end
