(* ===== verification/ChatDelivery.thy ===== *)
theory ChatDelivery
  imports ChatCluster
begin

section \<open>Messages that arrive, and messages that cannot\<close>

text \<open>
  What is on its way to a connection can be delivered to it in full, by steps of its own pod that
  publish nothing.  With the step of publishing this takes a message from a connection on one pod to a
  connection on any other, if the room's subscription there is listening.  A message published while
  the subscription of the room is still to be opened is on its way to nobody of that pod.
\<close>

subsection \<open>Draining one connection\<close>

definition quiet_step :: "Broker \<Rightarrow> pod \<Rightarrow> pod \<Rightarrow> bool" where
  "quiet_step b p p' \<longleftrightarrow> pod_step b p p' \<and> pd_log p' = pd_log p"

text \<open>Connection \<open>i\<close> is in the room, its writer runs, and the room's subscription \<open>k\<close> listens.\<close>

definition connected :: "pod \<Rightarrow> nat \<Rightarrow> gostring \<Rightarrow> nat \<Rightarrow> bool" where
  "connected p i room k \<longleftrightarrow>
     joined_room (pd_conns p i) = Some room \<and> pd_writers p i = Writing \<and> k < length (pd_subs p) \<and>
     sb_status (pd_subs p ! k) = Listening \<and> hb_rooms (pd_hub p) room = Some (sb_target (pd_subs p ! k))"

lemma connected_backlog:
  assumes "sub_ok p" "connected p i room k"
  shows "backlog p i = sb_queue (pd_subs p ! k)"
  using assms(2) queue_at_nth[OF sub_ok_targets[OF assms(1)], of k "pd_subs p ! k"]
  by (simp add: connected_def backlog_def room_queue_def)

lemma pod_inv_parts: "pod_inv b p \<Longrightarrow> hub_ok p \<and> chan_ok p \<and> sub_ok p"
  by (simp add: pod_inv_def)

lemma write_in_transit:
  assumes "cn_buf (pd_chans p (ClientPtr i)) = payload # rest"
  shows "in_transit (write_step i payload rest True p) i = in_transit p i"
    "connected (write_step i payload rest True p) i room k = connected p i room k"
proof -
  have "backlog (write_step i payload rest True p) i = backlog p i"
    by (rule backlog_cong) (simp_all add: write_step_def set_chan_def)
  then show "in_transit (write_step i payload rest True p) i = in_transit p i"
    unfolding in_transit_def using assms by (simp add: write_step_def set_chan_def)
qed (simp add: connected_def write_step_def set_chan_def)

lemma deliver_in_transit:
  assumes inv: "hub_ok p" "chan_ok p" "sub_ok p" and con: "connected p i room k"
    and queue: "sb_queue (pd_subs p ! k) = payload # rest" and empty: "cn_buf (pd_chans p (ClientPtr i)) = []"
  shows "in_transit (deliver_step k (pd_subs p ! k) payload rest p) i = in_transit p i"
    "connected (deliver_step k (pd_subs p ! k) payload rest p) i room k"
    "cn_buf (pd_chans (deliver_step k (pd_subs p ! k) payload rest p) (ClientPtr i)) = [payload]"
    "sb_queue (pd_subs (deliver_step k (pd_subs p ! k) payload rest p) ! k) = rest"
proof -
  let ?sb = "pd_subs p ! k" and ?p = "deliver_step k (pd_subs p ! k) payload rest p"
  note p' = deliver_step_eq[OF inv(1,2), of k ?sb payload rest]
  note c = con[unfolded connected_def]
  have "ClientPtr i \<in> members (pd_hub p) room" using inv(1) c by (simp add: hub_ok_def)
  then have mem: "ClientPtr i \<in> room_clients (pd_hub p) (sb_target ?sb)" using c by (simp add: members_def)
  have send: "select_send payload (pd_chans p (ClientPtr i)) = Some ((pd_chans p (ClientPtr i))\<lparr>cn_buf := [payload]\<rparr>)"
    using room_client_open[OF inv(1,2) mem] empty by (simp add: select_send_def send_capacity_def)
  show buf: "cn_buf (pd_chans ?p (ClientPtr i)) = [payload]"
    by (simp add: p' mem send)
  show con': "connected ?p i room k" and rest: "sb_queue (pd_subs ?p ! k) = rest"
    using c by (simp_all add: connected_def p')
  have "queue_at (pd_subs ?p) (sb_target ?sb) = rest"
    using queue_at_update[OF sub_ok_targets[OF inv(3)], of k ?sb "?sb\<lparr>sb_queue := rest\<rparr>" "sb_target ?sb"] c
    by (simp add: p')
  then have "backlog ?p i = rest" using con' c by (simp add: connected_def backlog_def room_queue_def p')
  moreover have "backlog p i = payload # rest" using connected_backlog[OF inv(3) con] queue by simp
  ultimately show "in_transit ?p i = in_transit p i"
    unfolding in_transit_def buf empty by (simp add: p')
qed

lemma drain:
  assumes "pod_inv b p" "connected p i room k"
  shows "\<exists>p'. (quiet_step b)\<^sup>*\<^sup>* p p' \<and> pd_delivered p' i = in_transit p i"
  using assms
proof (induction "2 * length (sb_queue (pd_subs p ! k)) + length (cn_buf (pd_chans p (ClientPtr i)))"
    arbitrary: p rule: less_induct)
  case less
  note inv = pod_inv_parts[OF less.prems(1)] and con = less.prems(2)
  note c = con[unfolded connected_def]
  show ?case
  proof (cases "cn_buf (pd_chans p (ClientPtr i))")
    case (Cons payload rest)
    let ?p = "write_step i payload rest True p"
    have "pod_step b p ?p" by (rule pod_step.written) (use c Cons in auto)
    then have q: "quiet_step b p ?p" "pod_inv b ?p"
      using chat.inv_step[OF less.prems(1)] by (simp_all add: quiet_step_def write_step_def set_chan_def)
    have "\<exists>p'. (quiet_step b)\<^sup>*\<^sup>* ?p p' \<and> pd_delivered p' i = in_transit ?p i"
      by (rule less.hyps) (use q(2) con Cons write_in_transit(2)[OF Cons] in \<open>auto simp: write_step_def set_chan_def\<close>)
    then show ?thesis
      using q(1) write_in_transit(1)[OF Cons] by (metis converse_rtranclp_into_rtranclp)
  next
    case empty: Nil
    show ?thesis
    proof (cases "sb_queue (pd_subs p ! k)")
      case Nil
      then have "in_transit p i = pd_delivered p i"
        using connected_backlog[of p i room k] inv con empty by (simp add: in_transit_def)
      then show ?thesis by auto
    next
      case (Cons payload rest)
      let ?p = "deliver_step k (pd_subs p ! k) payload rest p"
      note d = deliver_in_transit[OF _ _ _ con Cons empty]
      have "pod_step b p ?p" by (rule pod_step.deliver) (use c Cons in auto)
      then have q: "quiet_step b p ?p" "pod_inv b ?p"
        using chat.inv_step[OF less.prems(1)] deliver_step_eq inv by (simp_all add: quiet_step_def)
      have "\<exists>p'. (quiet_step b)\<^sup>*\<^sup>* ?p p' \<and> pd_delivered p' i = in_transit ?p i"
        by (rule less.hyps) (use q(2) d inv Cons empty in auto)
      then show ?thesis
        using q(1) d(1) inv by (metis converse_rtranclp_into_rtranclp)
    qed
  qed
qed

definition set_pod :: "nat \<Rightarrow> pod \<Rightarrow> cluster \<Rightarrow> cluster" where
  "set_pod n p c = c\<lparr>cl_pods := (cl_pods c)(n := p)\<rparr>"

lemma set_pod_simps [simp]:
  "set_pod n p' (set_pod n p c) = set_pod n p' c" "cl_pods (set_pod n p c) n = p"
  "cl_sent (set_pod n p c) = cl_sent c" "set_pod n (cl_pods c n) c = c"
  by (simp_all add: set_pod_def)

lemma own_step: "quiet_step b (cl_pods c n) p \<Longrightarrow> cluster_step b c (set_pod n p c)"
  unfolding set_pod_def quiet_step_def by (rule cluster_step.own) simp_all

lemma quiet_cluster:
  "(quiet_step b)\<^sup>*\<^sup>* (cl_pods c n) p \<Longrightarrow> (cluster_step b)\<^sup>*\<^sup>* c (set_pod n p c)"
proof (induction rule: rtranclp_induct)
  case (step q q')
  have "cluster_step b (set_pod n q c) (set_pod n q' c)"
    using own_step[of b "set_pod n q c" n q'] step(2) by simp
  with step(3) show ?case by (rule rtranclp.rtrancl_into_rtrancl)
qed simp

subsection \<open>From one pod to another\<close>

lemma publish_in_transit:
  assumes "sub_ok p" "connected p i room k" "room_route b room \<noteq> None" "k \<in> got"
  shows "in_transit (publish_step b room payload got p) i = in_transit p i @ [payload]"
    "connected (publish_step b room payload got p) i room k"
proof -
  let ?p = "publish_step b room payload got p" and ?sb = "pd_subs p ! k"
  note c = assms(2)[unfolded connected_def]
  have p': "?p = p\<lparr>pd_subs := redis_publish b room payload got (pd_subs p), pd_log := (room, payload) # pd_log p\<rparr>"
    using assms(3) by (simp only: publish_step_def if_False)
  have "sb_room ?sb = room" using sub_ok_room[OF assms(1), of ?sb room] c by simp
  then have nth: "pd_subs ?p ! k = ?sb\<lparr>sb_queue := sb_queue ?sb @ [payload]\<rparr>"
    using c assms(3,4) by (simp add: p' redis_publish_def nth_enumerate_eq)
  have len: "length (pd_subs ?p) = length (pd_subs p)" by (simp add: p' redis_publish_fields)
  show con: "connected ?p i room k"
    unfolding connected_def nth len using c by (simp add: p')
  have "sub_ok ?p"
    by (rule sub_ok_same[OF assms(1) _ sub_ids_publish pendings_same]) (simp_all add: p')
  then have "backlog ?p i = sb_queue (pd_subs ?p ! k)"
    using con by (rule connected_backlog)
  then show "in_transit ?p i = in_transit p i @ [payload]"
    using connected_backlog[OF assms(1,2)] by (simp add: in_transit_def nth) (simp add: p')
qed

lemma cluster_message_arrives:
  assumes usable: "usable_broker b" and reach: "reach start_cluster (cluster_step b) c"
    and sender: "pd_conns (cl_pods c n) i = Reading room user"
    and m: "m = \<lparr>msg_Room = room, msg_Username = user, msg_Body = data, msg_SentAt = now\<rparr>" "marshal_message m = Some payload"
    and to: "connected (cl_pods c n') j room k"
  shows "\<exists>c'. (cluster_step b)\<^sup>*\<^sup>* c c' \<and> cl_sent c' = cl_sent c @ [(n, i, m)] \<and>
    pd_delivered (cl_pods c' n') j = in_transit (cl_pods c n') j @ [payload]"
proof -
  have route: "room_route b room \<noteq> None" by (rule redis.routed[OF usable])
  define c1 where "c1 = c\<lparr>cl_pods := publish_all b room payload (\<lambda>n. UNIV) (cl_pods c), cl_sent := cl_sent c @ [(n, i, m)]\<rparr>"
  have step: "cluster_step b c c1" unfolding c1_def by (rule cluster_step.publish[OF sender m route])
  have p1: "cl_pods c1 n' = publish_step b room payload UNIV (cl_pods c n')" by (simp add: c1_def publish_all_def)
  have inv: "pod_inv b (cl_pods c n')" "pod_inv b (cl_pods c1 n')"
    using chat.reach_inv[OF pods.reach_comp] reach reach_step[OF reach step] by blast+
  note pub = publish_in_transit[of "cl_pods c n'" j room k b UNIV payload, folded p1]
  have sub: "sub_ok (cl_pods c n')" using inv(1) by (simp add: pod_inv_def)
  obtain p' where p': "(quiet_step b)\<^sup>*\<^sup>* (cl_pods c1 n') p'" "pd_delivered p' j = in_transit (cl_pods c1 n') j"
    using drain[OF inv(2) pub(2)[OF sub to route]] by blast
  let ?c' = "set_pod n' p' c1"
  have "(cluster_step b)\<^sup>*\<^sup>* c ?c'"
    using quiet_cluster[OF p'(1)] step by (simp add: converse_rtranclp_into_rtranclp)
  moreover have "pd_delivered (cl_pods ?c' n') j = in_transit (cl_pods c n') j @ [payload]"
    using p'(2) pub(1)[OF sub to route] by simp
  moreover have "cl_sent ?c' = cl_sent c @ [(n, i, m)]" by (simp add: c1_def)
  ultimately show ?thesis by blast
qed

subsection \<open>Before the subscription\<close>

lemma joining_no_queue:
  assumes "sub_ok p" "pd_conns p j = Joining room user ctx r"
  shows "hb_rooms (pd_hub p) room = Some r" "\<forall>sb \<in> set (pd_subs p). sb_target sb \<noteq> r"
proof -
  note ok = subs_okD[OF assms(1)[unfolded sub_ok_def]]
  have pend: "pendings p j = Some (ctx, room, r)" using assms(2) by (simp add: pendings_def)
  show "hb_rooms (pd_hub p) room = Some r" by (rule ok(3)[OF pend])
  have "target (ctx, room, r) \<notin> target ` set (sub_ids p)" by (rule ok(6)[OF pend])
  then show "\<forall>sb \<in> set (pd_subs p). sb_target sb \<noteq> r"
    by (auto simp: sub_ids_def target_def image_image)
qed

lemma early_publish:
  assumes "sub_ok p" "pd_conns p j = Joining room user ctx r" "joined_room (pd_conns p i) = Some room"
  shows "in_transit (publish_step b room payload got p) i = in_transit p i"
proof (cases "room_route b room = None")
  case True
  have "backlog (panic p) i = backlog p i" by (rule backlog_cong) (simp_all add: panic_def)
  then show ?thesis using True by (simp add: publish_step_def in_transit_def) (simp add: panic_def)
next
  case False
  let ?p = "publish_step b room payload got p"
  have p': "?p = p\<lparr>pd_subs := redis_publish b room payload got (pd_subs p), pd_log := (room, payload) # pd_log p\<rparr>"
    using False by (simp only: publish_step_def if_False)
  note j = joining_no_queue[OF assms(1,2)]
  have "queue_at (redis_publish b room payload got (pd_subs p)) r = queue_at (pd_subs p) r"
    using queue_at_publish[of b room payload got "pd_subs p" r] j(2) by blast
  then have "backlog ?p i = backlog p i"
    using assms(3) j(1) by (simp add: backlog_def room_queue_def p')
  then show ?thesis by (simp add: in_transit_def) (simp add: p')
qed

end
