(* ===== verification/ChatHubSpec.thy ===== *)
theory ChatHubSpec
  imports ChatHub
begin

section \<open>What the hub promises\<close>

text \<open>
  The contract of the hub's documentation, as a machine on sets of members per room name: the first
  client to join a room opens its subscription, the last one to leave cancels it, and nothing else
  touches subscriptions.  Every run of joins and leaves refines it.
\<close>

datatype hub_op = Join gostring client_ptr | Leave gostring client_ptr

datatype hub_effect = Subscribes | Cancels | Quiet

fun exec_hub :: "hub_op \<Rightarrow> Hub \<Rightarrow> hub_effect \<times> Hub" where
  "exec_hub (Join name c) h = (if fst (join name c h) = None then Quiet else Subscribes, snd (join name c h))"
| "exec_hub (Leave name c) h =
     (if hb_cancelled (leave name c h) = hb_cancelled h then Quiet else Cancels, leave name c h)"

fun spec_hub :: "hub_op \<Rightarrow> (gostring \<Rightarrow> client_ptr set) \<Rightarrow> hub_effect \<times> (gostring \<Rightarrow> client_ptr set)" where
  "spec_hub (Join name c) m = (if m name = {} then Subscribes else Quiet, m(name := insert c (m name)))"
| "spec_hub (Leave name c) m = (if m name = {c} then Cancels else Quiet, m(name := m name - {c}))"

text \<open>Runs, generic in the machine.\<close>

fun run_with :: "('o \<Rightarrow> 's \<Rightarrow> 'e \<times> 's) \<Rightarrow> 'o list \<Rightarrow> 's \<Rightarrow> 'e list \<times> 's" where
  "run_with f [] s = ([], s)"
| "run_with f (q # qs) s = (let (e, s') = f q s; (es, s'') = run_with f qs s' in (e # es, s''))"

lemma leave_cancels_iff:
  assumes inv: "hub_inv h"
  shows "hb_cancelled (leave name c h) \<noteq> hb_cancelled h \<longleftrightarrow> members h name = {c}"
proof (cases "hb_rooms h name")
  case None
  then show ?thesis by (simp add: leave_unknown members_def)
next
  case (Some r)
  obtain rm where rm: "hb_heap h r = Some rm" "rm_clients rm \<noteq> {}" "rm_cancel rm \<notin> hb_cancelled h"
    using hub_inv_room[OF inv Some] .
  have mem: "members h name = rm_clients rm" using Some rm(1) by (simp add: members_def room_clients_def)
  show ?thesis
  proof (cases "rm_clients rm - {c} = {}")
    case True
    then have "rm_clients rm = {c}" using rm(2) by blast
    then show ?thesis using rm(3) by (auto simp: leave_last[OF Some rm(1) True] mem)
  next
    case False
    then have "rm_clients rm \<noteq> {c}" by blast
    then show ?thesis by (simp add: leave_stays[OF Some rm(1) False] mem)
  qed
qed

lemma exec_hub_refines:
  assumes "hub_inv h"
  shows "spec_hub q (members h) = (fst (exec_hub q h), members (snd (exec_hub q h)))"
    and "hub_inv (snd (exec_hub q h))"
proof -
  show "spec_hub q (members h) = (fst (exec_hub q h), members (snd (exec_hub q h)))"
  proof (cases q)
    case (Join name c)
    then show ?thesis
      using join_subscribes_iff[OF assms, of name c] by (auto simp: members_join[OF assms])
  next
    case (Leave name c)
    then show ?thesis
      using leave_cancels_iff[OF assms, of name c] by (auto simp: members_leave[OF assms])
  qed
  show "hub_inv (snd (exec_hub q h))"
    by (cases q) (simp_all add: join_inv leave_inv assms)
qed

lemma run_hub_refines:
  "hub_inv h \<Longrightarrow>
     run_with spec_hub qs (members h) =
       (fst (run_with exec_hub qs h), members (snd (run_with exec_hub qs h))) \<and>
     hub_inv (snd (run_with exec_hub qs h))"
proof (induction qs arbitrary: h)
  case (Cons q qs)
  obtain e h' where q: "exec_hub q h = (e, h')" by fastforce
  have "hub_inv h'" using exec_hub_refines(2)[OF Cons.prems, of q] q by simp
  moreover have "spec_hub q (members h) = (e, members h')"
    using exec_hub_refines(1)[OF Cons.prems, of q] q by simp
  ultimately show ?case using Cons.IH[of h'] q by (auto simp: split_beta)
qed simp

end
