(* ===== verification/ChatMain.thy ===== *)
theory ChatMain
  imports ChatSafety GoServeMux
begin

section \<open>The chat service as a whole (services/chat/main.go, health.go)\<close>

text \<open>
  Settings from the environment, the health check over the shards, and the routes.  A handler's
  answer is a value; the WebSocket handler either answers before the upgrade or hands over to the
  goroutines of \<open>ChatPod\<close>.
\<close>

subsection \<open>Settings\<close>

definition chatGetEnv :: "(gostring \<Rightarrow> gostring) \<Rightarrow> gostring \<Rightarrow> gostring \<Rightarrow> gostring" where
  "chatGetEnv getenv key fallback = (let v = getenv key in if v \<noteq> [] then v else fallback)"

fun nonempty_addrs :: "gostring list \<Rightarrow> gostring list" where
  "nonempty_addrs [] = []"
| "nonempty_addrs (a # as) =
     (let addr = TrimSpace a in if addr \<noteq> [] then addr # nonempty_addrs as else nonempty_addrs as)"

definition getRedisAddrs :: "(gostring \<Rightarrow> gostring) \<Rightarrow> gostring list" where
  "getRedisAddrs getenv =
     nonempty_addrs (Split (chatGetEnv getenv ''REDIS_ADDR'' ''localhost:6379'') CHR '','')"

subsection \<open>Answers\<close>

datatype chat_body = ChatJson json | ChatText gostring

record chat_response =
  ct_status :: nat
  ct_ctype :: gostring
  ct_body :: chat_body

definition json_answer :: "nat \<Rightarrow> json \<Rightarrow> chat_response" where
  "json_answer status j = \<lparr>ct_status = status, ct_ctype = ''application/json'', ct_body = ChatJson j\<rparr>"

text \<open>\<open>http.Error\<close>: plain text, with a newline after it.\<close>

definition http_Error :: "gostring \<Rightarrow> nat \<Rightarrow> chat_response" where
  "http_Error msg status =
     \<lparr>ct_status = status, ct_ctype = ''text/plain; charset=utf-8'', ct_body = ChatText (msg @ [CHR 0x0A])\<rparr>"

definition chatRootHandler :: "gostring \<Rightarrow> chat_response" where
  "chatRootHandler version =
     json_answer 200 (JObj [(''service'', JStr ''chat''), (''version'', JStr version)])"

text \<open>
  The pings run in parallel, one for each index of the shard list (two shards may have the same
  address and answer differently), and finish in some order, the argument: the first error to arrive
  is kept.
\<close>

fun first_error :: "(nat \<Rightarrow> gostring option) \<Rightarrow> nat list \<Rightarrow> gostring option \<Rightarrow> gostring option" where
  "first_error ping [] firstErr = firstErr"
| "first_error ping (shard # done_order) firstErr =
     first_error ping done_order
       (case ping shard of
          None \<Rightarrow> firstErr
        | Some err \<Rightarrow> (case firstErr of None \<Rightarrow> Some err | Some e \<Rightarrow> Some e))"

definition pingAllShards :: "(nat \<Rightarrow> gostring option) \<Rightarrow> nat list \<Rightarrow> gostring option" where
  "pingAllShards ping done_order = first_error ping done_order None"

definition chatHealthHandler :: "(nat \<Rightarrow> gostring option) \<Rightarrow> nat list \<Rightarrow> chat_response" where
  "chatHealthHandler ping done_order =
     (case pingAllShards ping done_order of
        Some err \<Rightarrow> json_answer 503 (JObj [(''status'', JStr ''error''), (''error'', JStr err)])
      | None \<Rightarrow> json_answer 200 (JObj [(''status'', JStr ''ok'')]))"

text \<open>The WebSocket endpoint before the upgrade; \<open>accept\<close> says whether the upgrade succeeds.\<close>

datatype ws_answer = WsReply chat_response | WsRefused | WsOpen gostring gostring

definition newWebSocketHandler :: "bool \<Rightarrow> gostring \<Rightarrow> gostring \<Rightarrow> ws_answer" where
  "newWebSocketHandler accept room username =
     (case start_websocket room username of
        RoomRequired \<Rightarrow> WsReply (http_Error ''room query parameter is required'' 400)
      | Upgrade r u \<Rightarrow> if accept then WsOpen r u else WsRefused)"

subsection \<open>main\<close>

datatype chat_endpoint = ChatRoot | ChatHealth | ChatWs

definition chat_routes :: "chat_endpoint route list" where
  "chat_routes = [(None, [Multi], ChatRoot), (None, [Lit ''healthz''], ChatHealth), (None, [Lit ''ws''], ChatWs)]"

record chat_server =
  cs_version :: gostring
  cs_addr :: gostring
  cs_broker :: Broker
  cs_hub :: Hub

text \<open>\<open>None\<close> is the \<open>log.Fatal\<close> of an empty shard list.\<close>

definition chat_main :: "(gostring \<Rightarrow> gostring) \<Rightarrow> chat_server option" where
  "chat_main getenv =
     (let version = chatGetEnv getenv ''VERSION'' ''dev'';
          addr = chatGetEnv getenv ''ADDR'' '':8080'';
          redisAddrs = getRedisAddrs getenv
      in if redisAddrs = [] then None
         else Some \<lparr>cs_version = version, cs_addr = addr, cs_broker = newBroker redisAddrs, cs_hub = newHub\<rparr>)"

subsection \<open>Facts\<close>

lemma set_nonempty_addrs: "set (nonempty_addrs as) = {TrimSpace a | a. a \<in> set as \<and> TrimSpace a \<noteq> []}"
  by (induction as) (auto simp: Let_def)

lemma sublist_no_char: "sublist t s \<Longrightarrow> c \<notin> set s \<Longrightarrow> c \<notin> set t"
  using set_mono_sublist by blast

lemma getRedisAddrs_clean:
  assumes "addr \<in> set (getRedisAddrs getenv)"
  shows "addr \<noteq> []" "no_leading_space addr" "no_trailing_space addr" "CHR '','' \<notin> set addr"
proof -
  obtain a where a: "addr = TrimSpace a" "a \<in> set (Split (chatGetEnv getenv ''REDIS_ADDR'' ''localhost:6379'') CHR '','')"
    "addr \<noteq> []"
    using assms unfolding getRedisAddrs_def set_nonempty_addrs by blast
  show "addr \<noteq> []" by (rule a(3))
  show "no_leading_space addr" "no_trailing_space addr"
    unfolding a(1) by (rule no_leading_TrimSpace, rule no_trailing_TrimSpace)
  show "CHR '','' \<notin> set addr"
    unfolding a(1) by (rule sublist_no_char[OF TrimSpace_sublist Split_no_sep[OF a(2)]])
qed

lemma first_error_Some: "first_error ping order (Some e) = Some e"
  by (induction order) (auto split: option.split)

lemma first_error_None_iff: "first_error ping order None = None \<longleftrightarrow> (\<forall>s\<in>set order. ping s = None)"
  by (induction order) (auto simp: first_error_Some split: option.split)

lemma first_error_from: "first_error ping order None = Some e \<Longrightarrow> \<exists>s\<in>set order. ping s = Some e"
  by (induction order) (auto simp: first_error_Some split: option.splits)

text \<open>Any request is routed: to the health check, the WebSocket endpoint or else to the root.\<close>

definition chat_endpoint_of :: "gostring list \<Rightarrow> chat_endpoint" where
  "chat_endpoint_of segs =
     (if segs = [''healthz''] then ChatHealth else if segs = [''ws''] then ChatWs else ChatRoot)"

lemma chat_with_method: "with_method (Some m) chat_routes = []"
  "with_method None chat_routes = map snd chat_routes"
  by (simp_all add: with_method_def chat_routes_def)

lemma match_end_only:
  "match_segments [([], h)] [] = Some (h, [])"
  "match_segments [([], h)] (seg # rest) = None"
  by (simp_all add: first_with_def children_def List.map_filter_simps)

lemma chat_match:
  "segs \<noteq> [] \<Longrightarrow> match_segments (map snd chat_routes) segs = Some (chat_endpoint_of segs, [])"
proof (cases segs)
  case (Cons seg rest)
  then show ?thesis
    by (cases rest)
       (auto simp: chat_routes_def chat_endpoint_of_def children_def List.map_filter_simps first_with_def
         match_end_only)
qed simp

lemma chat_route:
  assumes "cleanPath path = path" "path \<noteq> ''*''"
  shows "mux_Handler chat_routes m path = Route (chat_endpoint_of (path_segments path)) []"
proof -
  have "path \<noteq> []" using assms(1) by (auto simp: cleanPath_def)
  then have "path_segments path \<noteq> []" by (simp add: path_segments_def Let_def)
  then show ?thesis
    using assms by (simp add: mux_Handler_def match_request_def chat_with_method chat_match Let_def)
qed

end
