(* ===== verification/Echo.thy ===== *)
theory Echo
  imports ChatMain
begin

section \<open>The echo service (services/echo)\<close>

text \<open>
  One handler for every path: the host name and the version as JSON, or a 500 if the host name
  cannot be read.  \<open>os.Hostname\<close> is its argument.
\<close>

definition echo_handler :: "gostring \<Rightarrow> gostring + gostring \<Rightarrow> chat_response" where
  "echo_handler version hostname =
     (case hostname of
        Inl err \<Rightarrow> http_Error err 500
      | Inr name \<Rightarrow> json_answer 200 (JObj [(''hostname'', JStr name), (''version'', JStr version)]))"

definition echo_main :: "(gostring \<Rightarrow> gostring) \<Rightarrow> gostring \<times> (gostring + gostring \<Rightarrow> chat_response)" where
  "echo_main getenv =
     (let version0 = getenv ''VERSION''; version = (if version0 = [] then ''dev'' else version0);
          addr0 = getenv ''ADDR''; addr = (if addr0 = [] then '':8080'' else addr0)
      in (addr, echo_handler version))"

text \<open>What the service sends, byte for byte, decodes to the host name and version it read.\<close>

lemma echo_body:
  assumes "valid_utf8 name" "valid_utf8 version"
  shows "\<exists>j. ct_body (echo_handler version (Inr name)) = ChatJson j \<and>
    parse_value (Encode j) =
      Some (VObject [(''hostname'', VString name), (''version'', VString version)], [CHR 0x0A])"
proof -
  have j: "JObj [(''hostname'', JStr name), (''version'', JStr version)] =
      str_obj [(''hostname'', name), (''version'', version)]"
    by (simp add: str_obj_def)
  have "parse_value (json_encode (str_obj [(''hostname'', name), (''version'', version)]) @ [CHR 0x0A]) =
      Some (VObject (map (\<lambda>(k, v). (k, VString v)) [(''hostname'', name), (''version'', version)]), [CHR 0x0A])"
    by (rule parse_str_obj) (use assms in \<open>auto simp: byte_in_def rune_error_def\<close>)
  then show ?thesis
    by (simp add: echo_handler_def json_answer_def Encode_def j)
qed

end
