(* ===== verification/ChatProperties.thy ===== *)
theory ChatProperties
  imports ChatDelivery ChatHubSpec Echo
begin

section \<open>Properties of the chat service\<close>

text \<open>
  What holds in every reachable state of a pod, whatever its connections, its subscriptions, the other
  pods and Redis do, and what the hub, the message format, the shards and the health check promise.
  The witnesses follow one connection of a pod with one shard.
\<close>

subsection \<open>One connection, step by step\<close>

definition one_shard :: Broker where
  "one_shard = newBroker [''r1'']"

lemma one_shard_usable: "usable_broker one_shard"
  by (simp add: usable_broker_def one_shard_def newBroker_def)

lemma one_shard_route: "room_route one_shard room = Some (''r1'', roomChannel room)"
  by (simp add: room_route_def shardFor_def shardIndex_small one_shard_def newBroker_def)

definition empty_pod :: pod where
  "empty_pod = \<lparr>pd_hub = newHub, pd_chans = (\<lambda>c. make_chan), pd_conns = (\<lambda>i. Unused),
      pd_writers = (\<lambda>i. NotStarted), pd_delivered = (\<lambda>i. []), pd_subs = [], pd_log = [],
      pd_panicked = False\<rparr>"

definition accepted_pod :: pod where
  "accepted_pod = set_chan 0 make_chan (set_conn 0 (Accepted ''lobby'' ''ann'') empty_pod)"

definition joining_pod :: pod where
  "joining_pod = join_step 0 ''lobby'' ''ann'' accepted_pod"

definition reading_pod :: pod where
  "reading_pod = subscribe_step one_shard 0 ''lobby'' ''ann'' (ContextId 0) (RoomPtr 0) joining_pod"

definition lobby_sub :: "bytes list \<Rightarrow> subscription" where
  "lobby_sub queue = \<lparr>sb_ctx = ContextId 0, sb_room = ''lobby'', sb_target = RoomPtr 0, sb_queue = queue,
     sb_status = Listening\<rparr>"

definition published_pod :: pod where
  "published_pod = publish_step one_shard ''lobby'' ''hi'' {0} reading_pod"

definition delivered_pod :: pod where
  "delivered_pod = deliver_step 0 (lobby_sub [''hi'']) ''hi'' [] published_pod"

definition written_pod :: pod where
  "written_pod = write_step 0 ''hi'' [] True delivered_pod"

lemma joining_conn: "pd_conns joining_pod 0 = Joining ''lobby'' ''ann'' (ContextId 0) (RoomPtr 0)"
  by (simp add: joining_pod_def join_step_fields accepted_pod_def set_chan_def set_conn_def empty_pod_def join_def
      newHub_def Let_def)

lemma joining_rest: "pd_subs joining_pod = []" "pd_chans joining_pod = (\<lambda>c. make_chan)"
  "pd_hub joining_pod = snd (join ''lobby'' (ClientPtr 0) newHub)" "pd_delivered joining_pod = (\<lambda>i. [])"
  by (auto simp: joining_pod_def join_step_fields accepted_pod_def set_chan_def set_conn_def empty_pod_def)

lemma reading_fields:
  "pd_conns reading_pod 0 = Reading ''lobby'' ''ann''" "pd_subs reading_pod = [lobby_sub []]"
  "pd_chans reading_pod = (\<lambda>c. make_chan)" "pd_hub reading_pod = snd (join ''lobby'' (ClientPtr 0) newHub)"
  "pd_writers reading_pod 0 = Writing" "pd_delivered reading_pod = (\<lambda>i. [])"
  by (simp_all add: reading_pod_def subscribe_step_def one_shard_route set_conn_def joining_rest lobby_sub_def)

lemma published_fields:
  "pd_subs published_pod = [lobby_sub [''hi'']]" "pd_conns published_pod 0 = Reading ''lobby'' ''ann''"
  "pd_chans published_pod = (\<lambda>c. make_chan)" "pd_hub published_pod = snd (join ''lobby'' (ClientPtr 0) newHub)"
  "pd_writers published_pod 0 = Writing" "pd_delivered published_pod = (\<lambda>i. [])"
  by (simp_all add: published_pod_def publish_step_def one_shard_route reading_fields redis_publish_def lobby_sub_def)

lemma lobby_clients: "room_clients (snd (join ''lobby'' (ClientPtr 0) newHub)) (RoomPtr 0) = {ClientPtr 0}"
  by (simp add: join_def newHub_def room_clients_def Let_def)

lemma delivered_fields:
  "cn_buf (pd_chans delivered_pod (ClientPtr 0)) = [''hi'']" "pd_conns delivered_pod 0 = Reading ''lobby'' ''ann''"
  "pd_writers delivered_pod 0 = Writing" "pd_delivered delivered_pod = (\<lambda>i. [])"
  by (simp_all add: delivered_pod_def deliver_step_def published_fields lobby_sub_def broadcastLocalRoom_def
      lobby_clients select_send_def make_chan_def send_capacity_def)

lemma written_fields: "pd_delivered written_pod 0 = [''hi'']" "pd_conns written_pod 0 = Reading ''lobby'' ''ann''"
  by (simp_all add: written_pod_def write_step_def set_chan_def delivered_fields)

lemma demo_quiet: "(quiet_step one_shard)\<^sup>*\<^sup>* empty_pod reading_pod"
proof -
  have "quiet_step one_shard empty_pod accepted_pod"
    unfolding accepted_pod_def quiet_step_def
    by (rule conjI, rule pod_step.accept[of _ _ "''lobby''" "''ann''"])
       (simp_all add: empty_pod_def start_websocket_def set_chan_def set_conn_def)
  moreover have "quiet_step one_shard accepted_pod joining_pod"
    unfolding joining_pod_def quiet_step_def
    by (rule conjI, rule pod_step.join) (simp_all add: join_step_fields accepted_pod_def set_chan_def set_conn_def)
  moreover have "quiet_step one_shard joining_pod reading_pod"
    unfolding reading_pod_def quiet_step_def
    by (rule conjI, rule pod_step.subscribe) (rule joining_conn, simp add: subscribe_step_def one_shard_route set_conn_def)
  ultimately show ?thesis
    by (meson converse_rtranclp_into_rtranclp rtranclp.rtrancl_refl)
qed

lemma quiet_reach: "reach start_pod (pod_step b) p \<Longrightarrow> (quiet_step b)\<^sup>*\<^sup>* p p' \<Longrightarrow> reach start_pod (pod_step b) p'"
  by (rotate_tac 1, induction rule: rtranclp_induct) (auto simp: quiet_step_def intro: reach_step)

lemma start_empty_pod: "start_pod empty_pod"
  by (simp add: start_pod_def empty_pod_def)

lemma demo_reach:
  "reach start_pod (pod_step one_shard) reading_pod" "reach start_pod (pod_step one_shard) written_pod"
proof -
  show reading: "reach start_pod (pod_step one_shard) reading_pod"
    by (rule quiet_reach[OF reach_init[of start_pod, OF start_empty_pod] demo_quiet])
  have "pod_step one_shard reading_pod published_pod"
    using pod_step.remote[of one_shard reading_pod "''lobby''" "''hi''" "{0}"]
    by (simp add: one_shard_route published_pod_def)
  moreover have "pod_step one_shard published_pod delivered_pod"
    unfolding delivered_pod_def
    by (rule pod_step.deliver) (simp_all add: published_fields, simp_all add: lobby_sub_def)
  moreover have "pod_step one_shard delivered_pod written_pod"
    unfolding written_pod_def by (rule pod_step.written) (simp_all add: delivered_fields)
  ultimately show "reach start_pod (pod_step one_shard) written_pod"
    using reading by (meson reach_step)
qed

subsection \<open>Every reachable state of a pod\<close>

text \<open>
  C30: No interleaving panics: no payload is sent to a closed channel, no channel is closed twice and
  every room has a shard, as long as there are between 1 and 2^32 - 1 shards.
\<close>

theorem chat_never_panics:
  assumes "usable_broker b" "reach start_pod (pod_step b) p"
  shows "\<not> pd_panicked p"
  using chat.reach_inv[OF assms(2)] assms(1) by (simp add: pod_inv_def)

theorem chat_never_panics_witness: "\<not> pd_panicked written_pod"
  by (rule chat_never_panics[OF one_shard_usable demo_reach(2)])

text \<open>
  C31: A room with a connection has exactly one subscription on this pod.  Counted with repetitions,
  the subscriptions opened for the room and the connections about to open one are one in all; it is
  for that room's name, its context is not cancelled, and it has not ended as cancelled.
\<close>

theorem one_subscription_per_room:
  assumes "reach start_pod (pod_step b) p" "joined_room (pd_conns p i) = Some name"
  shows "\<exists>r. hb_rooms (pd_hub p) name = Some r \<and> finite (openers p r) \<and>
    length (room_subs p r) + card (openers p r) = 1 \<and>
    (\<forall>sb \<in> set (room_subs p r).
       sb_room sb = name \<and> sb_ctx sb \<notin> hb_cancelled (pd_hub p) \<and> sb_status sb \<noteq> Cancelled) \<and>
    (\<forall>j room user ctx. pd_conns p j = Joining room user ctx r \<longrightarrow>
       room = name \<and> ctx \<notin> hb_cancelled (pd_hub p))"
proof -
  have inv: "pod_inv b p" by (rule chat.reach_inv[OF assms(1)])
  then have ok: "hub_inv (pd_hub p)" "sub_ok p" by (simp_all add: pod_inv_def hub_ok_def)
  obtain r where r: "hb_rooms (pd_hub p) name = Some r" using joined_room_known[OF inv assms(2)] by blast
  note live = room_context_live[OF ok(1) ok(2)[unfolded sub_ok_def] r]
  have subs: "sb_room sb = name \<and> sb_ctx sb \<notin> hb_cancelled (pd_hub p) \<and> sb_status sb \<noteq> Cancelled"
    if "sb \<in> set (room_subs p r)" for sb
  proof -
    have "(sb_ctx sb, sb_room sb, r) \<in> set (sub_ids p)" "sb \<in> set (pd_subs p)"
      using that by (auto simp: room_subs_def sub_ids_def)
    then show ?thesis
      using live[of "sb_ctx sb" "sb_room sb"] chat_status.reach_inv[OF assms(1)] by (auto simp: status_ok_def)
  qed
  have pend: "room = name \<and> ctx \<notin> hb_cancelled (pd_hub p)" if "pd_conns p j = Joining room user ctx r" for j room user ctx
  proof -
    have "pendings p j = Some (ctx, room, r)" using that by (simp add: pendings_def)
    then show ?thesis using live[of ctx room] by (auto intro: ranI)
  qed
  show ?thesis
    using r room_subscription_count[OF ok(2) r] subs pend by blast
qed

theorem one_subscription_per_room_witness:
  "\<exists>r. hb_rooms (pd_hub reading_pod) ''lobby'' = Some r \<and>
     length (room_subs reading_pod r) + card (openers reading_pod r) = 1"
  using one_subscription_per_room[OF demo_reach(1), of 0 "''lobby''"] by (auto simp: reading_fields(1))

text \<open>
  What a connection has received is a subsequence of what was published to its room, in the
  order of publication: nothing from another room, nothing twice, nothing out of order.
\<close>

lemma delivered_in_order:
  assumes "reach start_pod (pod_step b) p" "conn_room (pd_conns p i) = Some room"
  shows "subseq (pd_delivered p i) (published p room)"
proof -
  have "order_ok p" using chat_order.reach_inv[OF assms(1)] by (simp add: order_inv_def)
  then have "subseq (in_transit p i) (published p room)" using assms(2) by (simp add: order_ok_def)
  moreover have "subseq (pd_delivered p i) (in_transit p i)"
    by (simp add: in_transit_def prefix_imp_subseq)
  ultimately show ?thesis by (rule subseq_order.trans[rotated])
qed

text \<open>
  C35: Every accepted connection can be brought to its end by at most 23 steps of its own handler and
  writer: no other goroutine has to run, and those of the other connections stay where they are.
  While it waits for the writer, no step of any goroutine undoes the wait or gives the writer more to
  do.
\<close>

theorem connection_can_finish:
  assumes "usable_broker b" "reach start_pod (pod_step b) p" "pd_conns p i \<noteq> Unused"
  shows "(\<exists>m p' room. m \<le> 23 \<and> (own_step b i ^^ m) p p' \<and> pd_conns p' i = Finished room \<and>
      reach start_pod (pod_step b) p' \<and>
      (\<forall>j. j \<noteq> i \<longrightarrow> pd_conns p' j = pd_conns p j \<and> pd_writers p' j = pd_writers p j \<and>
         pd_delivered p' j = pd_delivered p j)) \<and>
    (\<forall>p' room. pd_conns p i = Waiting room \<and> pod_step b p p' \<longrightarrow>
       pd_conns p' i = Finished room \<or> pd_conns p' i = Waiting room \<and> writer_work p' i \<le> writer_work p i)"
proof (intro conjI allI impI)
  have inv: "live_inv b p" by (rule chat_live.reach_inv[OF assms(2)])
  have "steps_to_wait (pd_conns p i) \<le> 5" by (cases "pd_conns p i") simp_all
  then have "can_finish b 23 p i"
    by (intro can_finish_mono[OF conn_can_finish[OF inv assms(1,3)]]) (simp add: send_capacity_def)
  then obtain m p' room where m: "m \<le> 23" "(own_step b i ^^ m) p p'" "pd_conns p' i = Finished room"
    unfolding can_finish_def by blast
  then show "\<exists>m p' room. m \<le> 23 \<and> (own_step b i ^^ m) p p' \<and> pd_conns p' i = Finished room \<and>
      reach start_pod (pod_step b) p' \<and>
      (\<forall>j. j \<noteq> i \<longrightarrow> pd_conns p' j = pd_conns p j \<and> pd_writers p' j = pd_writers p j \<and>
         pd_delivered p' j = pd_delivered p j)"
    using own_steps_frame[OF m(2)] reach_rtranclp[OF assms(2) own_steps_pod_steps[OF m(2)]] by blast
  fix p' room assume "pd_conns p i = Waiting room \<and> pod_step b p p'"
  then show "pd_conns p' i = Finished room \<or> pd_conns p' i = Waiting room \<and> writer_work p' i \<le> writer_work p i"
    using waiting_step live_invD[OF inv] by blast
qed

theorem connection_can_finish_witness:
  "\<exists>m p' room. m \<le> 23 \<and> (own_step one_shard 0 ^^ m) reading_pod p' \<and> pd_conns p' 0 = Finished room"
  using connection_can_finish[OF one_shard_usable demo_reach(1), of 0] by (auto simp: reading_fields(1))

subsection \<open>All pods together\<close>

definition hello :: Message where
  "hello = \<lparr>msg_Room = ''lobby'', msg_Username = ''ann'', msg_Body = ''hi'', msg_SentAt = zero_time\<rparr>"

definition lobby_cluster :: cluster where
  "lobby_cluster = set_pod 2 reading_pod (set_pod 0 reading_pod \<lparr>cl_pods = (\<lambda>n. empty_pod), cl_sent = []\<rparr>)"

definition hello_cluster :: cluster where
  "hello_cluster = lobby_cluster
     \<lparr>cl_pods := publish_all one_shard ''lobby'' (payload_of hello) (\<lambda>n. UNIV) (cl_pods lobby_cluster),
      cl_sent := cl_sent lobby_cluster @ [(0, 0, hello)]\<rparr>"

lemma hello_marshals: "marshal_message hello = Some (payload_of hello)"
  by (simp add: payload_of_def hello_def marshal_message_def message_json_def time_json_def zero_time_def)

lemma lobby_pods: "cl_pods lobby_cluster 0 = reading_pod" "cl_pods lobby_cluster 2 = reading_pod" "cl_sent lobby_cluster = []"
  by (simp_all add: lobby_cluster_def) (simp add: set_pod_def)

lemma lobby_reach: "reach start_cluster (cluster_step one_shard) lobby_cluster"
proof -
  let ?c = "\<lparr>cl_pods = (\<lambda>n. empty_pod), cl_sent = []\<rparr>" and ?c1 = "set_pod 0 reading_pod \<lparr>cl_pods = (\<lambda>n. empty_pod), cl_sent = []\<rparr>"
  have "reach start_cluster (cluster_step one_shard) ?c"
    by (rule reach_init) (simp add: start_cluster_def start_empty_pod)
  moreover have "(cluster_step one_shard)\<^sup>*\<^sup>* ?c ?c1" by (rule quiet_cluster) (simp add: demo_quiet)
  moreover have "cl_pods ?c1 2 = empty_pod" by (simp add: set_pod_def)
  then have "(cluster_step one_shard)\<^sup>*\<^sup>* ?c1 lobby_cluster"
    unfolding lobby_cluster_def by (intro quiet_cluster) (simp add: demo_quiet)
  ultimately show ?thesis using reach_rtranclp by metis
qed

lemma hello_reach: "reach start_cluster (cluster_step one_shard) hello_cluster"
proof (rule reach_step[OF lobby_reach])
  show "cluster_step one_shard lobby_cluster hello_cluster"
    unfolding hello_cluster_def
    by (rule cluster_step.publish[OF _ _ hello_marshals])
       (simp_all add: lobby_pods reading_fields hello_def one_shard_route)
qed

text \<open>
  C32: One history for all pods: whatever the pods, their connections and Redis do, each
  connection of each pod has received a subsequence of the messages of its room in the order in which
  they were published, each one sent by a connection of that room under that connection's user name.
\<close>

theorem cluster_history:
  assumes "reach start_cluster (cluster_step b) c"
  shows "(\<forall>n i room. conn_room (pd_conns (cl_pods c n) i) = Some room \<longrightarrow>
      subseq (pd_delivered (cl_pods c n) i) (map payload_of (history c room))) \<and>
    (\<forall>n i m. (n, i, m) \<in> set (cl_sent c) \<longrightarrow>
      conn_room (pd_conns (cl_pods c n) i) = Some (msg_Room m) \<and>
      conn_user (pd_conns (cl_pods c n) i) \<in> {None, Some (msg_Username m)} \<and>
      msg_Room m \<noteq> [] \<and> msg_Username m \<noteq> [] \<and> marshal_message m = Some (payload_of m))"
proof (intro conjI allI impI)
  have ok: "history_ok c" by (rule histories.reach_inv[OF assms])
  fix n i room assume "conn_room (pd_conns (cl_pods c n) i) = Some room"
  then have "subseq (pd_delivered (cl_pods c n) i) (published (cl_pods c n) room)"
    using delivered_in_order[OF pods.reach_comp[OF assms]] by blast
  then show "subseq (pd_delivered (cl_pods c n) i) (map payload_of (history c room))"
    unfolding published_history[OF ok] .
next
  fix n i m assume "(n, i, m) \<in> set (cl_sent c)"
  then have "sender_ok (cl_pods c) (n, i, m)"
    using histories.reach_inv[OF assms] unfolding history_ok_def by blast
  then show "conn_room (pd_conns (cl_pods c n) i) = Some (msg_Room m)"
    "conn_user (pd_conns (cl_pods c n) i) \<in> {None, Some (msg_Username m)}"
    "msg_Room m \<noteq> []" "msg_Username m \<noteq> []" "marshal_message m = Some (payload_of m)"
    by (auto simp: sender_ok_def payload_of_def)
qed

theorem cluster_history_witness:
  "subseq (pd_delivered (cl_pods hello_cluster 2) 0) [payload_of hello] \<and> msg_Username hello \<noteq> []"
proof -
  note h = cluster_history[OF hello_reach]
  have "pd_conns (cl_pods hello_cluster 2) 0 = Reading ''lobby'' ''ann''"
    by (simp add: hello_cluster_def publish_all_def publish_step_def one_shard_route lobby_pods reading_fields)
  then have "conn_room (pd_conns (cl_pods hello_cluster 2) 0) = Some ''lobby''" by simp
  from h[THEN conjunct1, rule_format, OF this]
  have "subseq (pd_delivered (cl_pods hello_cluster 2) 0) (map payload_of (history hello_cluster ''lobby''))" .
  moreover have sent: "cl_sent hello_cluster = [(0, 0, hello)]" by (simp add: hello_cluster_def lobby_pods)
  then have "history hello_cluster ''lobby'' = [hello]" by (simp add: history_def hello_def)
  moreover have "msg_Username hello \<noteq> []"
    using h[THEN conjunct2, rule_format, of 0 0 hello] sent by simp
  ultimately show ?thesis by simp
qed

text \<open>
  C33: A message gets through: from any reachable state, what a connection on one
  pod sends can be brought to any connection of the room on any pod whose subscription listens, after all
  that was on its way there before, and without another message being published.
\<close>

theorem message_reaches_every_pod:
  assumes "usable_broker b" "reach start_cluster (cluster_step b) c"
    and "pd_conns (cl_pods c n) i = Reading room user"
    and "m = \<lparr>msg_Room = room, msg_Username = user, msg_Body = data, msg_SentAt = now\<rparr>" "marshal_message m = Some payload"
    and "connected (cl_pods c n') j room k"
  shows "\<exists>c'. (cluster_step b)\<^sup>*\<^sup>* c c' \<and> cl_sent c' = cl_sent c @ [(n, i, m)] \<and>
    pd_delivered (cl_pods c' n') j = in_transit (cl_pods c n') j @ [payload]"
  by (rule cluster_message_arrives[OF assms])

theorem message_reaches_every_pod_witness:
  "\<exists>c'. (cluster_step one_shard)\<^sup>*\<^sup>* lobby_cluster c' \<and> pd_delivered (cl_pods c' 2) 0 = [payload_of hello]"
proof -
  have room: "hb_rooms (pd_hub reading_pod) ''lobby'' = Some (RoomPtr 0)"
    by (simp add: reading_fields join_def newHub_def Let_def)
  have con: "connected (cl_pods lobby_cluster 2) 0 ''lobby'' 0"
    unfolding connected_def lobby_pods using room by (simp add: reading_fields lobby_sub_def)
  have "in_transit (cl_pods lobby_cluster 2) 0 = []"
    unfolding in_transit_def lobby_pods
    using room by (simp add: reading_fields make_chan_def backlog_def room_queue_def queue_at_def lobby_sub_def)
  then show ?thesis
    using message_reaches_every_pod[OF one_shard_usable lobby_reach _ _ hello_marshals con, of 0 0 "''ann''" "''hi''" zero_time]
    by (auto simp: lobby_pods reading_fields hello_def)
qed

text \<open>
  C34: While the connection that created a room has not yet opened its subscription,
  others can already be in the room and publish; such a message enters the history of the room, but
  whatever Redis delivers it is on its way to no connection of that pod, its sender's included.
\<close>

theorem early_message_is_lost:
  assumes "usable_broker b" "reach start_pod (pod_step b) p"
    and "pd_conns p j = Joining room user ctx r" "pd_conns p i = Reading room user'"
  shows "published (publish_step b room payload got p) room = published p room @ [payload] \<and>
    (\<forall>i'. joined_room (pd_conns p i') = Some room \<longrightarrow> in_transit (publish_step b room payload got p) i' = in_transit p i')"
proof (intro conjI allI impI)
  have "sub_ok p" using chat.reach_inv[OF assms(2)] by (simp add: pod_inv_def)
  then show "in_transit (publish_step b room payload got p) i' = in_transit p i'"
    if "joined_room (pd_conns p i') = Some room" for i'
    by (rule early_publish[OF _ assms(3) that])
  show "published (publish_step b room payload got p) room = published p room @ [payload]"
    using redis.routed[OF assms(1), of room] by (simp add: published_def publish_step_def del: not_None_eq)
qed

definition second_pod :: pod where
  "second_pod = join_step 1 ''lobby'' ''bob'' (set_chan 1 make_chan (set_conn 1 (Accepted ''lobby'' ''bob'') joining_pod))"

theorem early_message_is_lost_witness:
  "in_transit (publish_step one_shard ''lobby'' ''hi'' UNIV second_pod) 1 = []"
proof -
  let ?acc = "set_chan 1 make_chan (set_conn 1 (Accepted ''lobby'' ''bob'') joining_pod)"
  have hub: "pd_hub ?acc = snd (join ''lobby'' (ClientPtr 0) newHub)"
    by (simp add: set_chan_def set_conn_def joining_rest)
  have "fst (join ''lobby'' (ClientPtr 1) (pd_hub ?acc)) = None"
    unfolding hub by (simp add: join_def newHub_def Let_def)
  then have conns: "pd_conns second_pod 0 = Joining ''lobby'' ''ann'' (ContextId 0) (RoomPtr 0)"
    "pd_conns second_pod 1 = Reading ''lobby'' ''bob''"
    by (simp_all add: second_pod_def join_step_fields, simp_all add: set_chan_def set_conn_def joining_conn)
  have "reach start_pod (pod_step one_shard) joining_pod"
  proof -
    have "pod_step one_shard empty_pod accepted_pod"
      unfolding accepted_pod_def
      by (rule pod_step.accept[of _ _ "''lobby''" "''ann''"]) (simp_all add: empty_pod_def start_websocket_def)
    moreover have "pod_step one_shard accepted_pod joining_pod"
      unfolding joining_pod_def by (rule pod_step.join) (simp add: accepted_pod_def set_chan_def set_conn_def)
    ultimately show ?thesis using reach_init[of start_pod, OF start_empty_pod] by (meson reach_step)
  qed
  moreover have "pd_conns joining_pod 1 = Unused"
    by (simp add: joining_pod_def join_step_fields accepted_pod_def set_chan_def set_conn_def empty_pod_def)
  then have "pod_step one_shard joining_pod ?acc"
    by (rule pod_step.accept[of _ _ "''lobby''" "''bob''"]) (simp add: start_websocket_def)
  moreover have "pod_step one_shard ?acc second_pod"
    unfolding second_pod_def by (rule pod_step.join) (simp add: set_chan_def set_conn_def)
  ultimately have reach: "reach start_pod (pod_step one_shard) second_pod" by (meson reach_step)
  have "pd_subs second_pod = []" "pd_chans second_pod (ClientPtr 1) = make_chan" "pd_delivered second_pod 1 = []"
    by (simp_all add: second_pod_def join_step_fields, simp_all add: set_chan_def set_conn_def joining_rest)
  then have "in_transit second_pod 1 = []"
    by (simp add: in_transit_def backlog_def room_queue_def queue_at_def make_chan_def split: option.split)
  then show ?thesis
    using early_message_is_lost[OF one_shard_usable reach conns] conns(2) by simp
qed

subsection \<open>The hub\<close>

text \<open>
  C36: Every run of joins and leaves on a new hub does what the contract says: the members of each
  room are those who joined and have not left, a subscription is opened exactly by the first member
  of a room and cancelled exactly with the last.
\<close>

theorem hub_refines_members:
  "run_with spec_hub qs (\<lambda>name. {}) =
     (fst (run_with exec_hub qs newHub), members (snd (run_with exec_hub qs newHub)))"
  using run_hub_refines[OF newHub_inv, of qs] by (simp add: members_newHub)

text \<open>
  C37: A broadcast does not depend on the order in which the room's clients are visited; it appends
  the payload to every channel of the room that has space, drops it for the full ones and touches no
  other; and through the pointer of a room that was closed it does nothing.
\<close>

theorem broadcast_delivers:
  assumes "hub_inv h" "distinct order" "set order = room_clients h r"
    and "\<And>c. c \<in> room_clients h r \<Longrightarrow> \<not> cn_closed (cs c)"
  shows "send_all payload order cs = broadcastLocalRoom h r payload cs \<and>
    broadcastLocalRoom h r payload cs =
      Some (\<lambda>c. if c \<in> room_clients h r \<and> length (cn_buf (cs c)) < send_capacity
                then (cs c)\<lparr>cn_buf := cn_buf (cs c) @ [payload]\<rparr> else cs c) \<and>
    (\<forall>rm. hb_heap h r = Some rm \<and> rm_cancel rm \<in> hb_cancelled h \<longrightarrow>
       broadcastLocalRoom h r payload cs = Some cs)"
proof (intro conjI allI impI)
  have fin: "finite (room_clients h r)" by (simp flip: assms(3))
  show "send_all payload order cs = broadcastLocalRoom h r payload cs"
    by (rule broadcast_any_order[OF fin assms(2-4)])
  show "broadcastLocalRoom h r payload cs =
      Some (\<lambda>c. if c \<in> room_clients h r \<and> length (cn_buf (cs c)) < send_capacity
                then (cs c)\<lparr>cn_buf := cn_buf (cs c) @ [payload]\<rparr> else cs c)"
    using broadcast_Some[OF fin assms(4), where payload = payload] assms(4) by (auto simp: select_send_def fun_eq_iff)
  fix rm assume "hb_heap h r = Some rm \<and> rm_cancel rm \<in> hb_cancelled h"
  then show "broadcastLocalRoom h r payload cs = Some cs"
    using cancelled_room_empty[OF assms(1)] broadcast_empty by blast
qed

theorem broadcast_delivers_witness:
  "broadcastLocalRoom (snd (join ''lobby'' (ClientPtr 0) newHub)) (RoomPtr 0) ''hi'' (\<lambda>c. make_chan) =
     Some (\<lambda>c. if c = ClientPtr 0 then make_chan\<lparr>cn_buf := [''hi'']\<rparr> else make_chan)"
  using broadcast_delivers[of "snd (join ''lobby'' (ClientPtr 0) newHub)" "[ClientPtr 0]" "RoomPtr 0" "\<lambda>c. make_chan" "''hi''"]
    join_inv[OF newHub_inv]
  by (simp add: lobby_clients make_chan_def send_capacity_def cong: if_cong)

subsection \<open>Messages, shards and health\<close>

text \<open>
  C38: A message survives its trip: the JSON a pod publishes decodes, in every receiver and whatever
  follows it, to the same room, user name, body and formatted time, byte for byte where they are
  well-formed UTF-8 and with U+FFFD for each malformed byte otherwise.
\<close>

theorem message_roundtrip:
  assumes "marshal_message m = Some payload"
  shows "parse_value (payload @ rest) =
      Some (VObject [(''room'', VString (coerce_utf8 (msg_Room m))), (''username'', VString (coerce_utf8 (msg_Username m))),
        (''body'', VString (coerce_utf8 (msg_Body m))), (''sentAt'', VString (format_RFC3339Nano (msg_SentAt m)))], rest) \<and>
    (\<forall>s \<in> {msg_Room m, msg_Username m, msg_Body m}. valid_utf8 s \<longrightarrow> coerce_utf8 s = s)"
  using parse_marshal_message[OF assms, of rest] coerce_valid by blast

definition demo_message :: Message where
  "demo_message = \<lparr>msg_Room = ''lobby'', msg_Username = ''ann'', msg_Body = ''<b>'' @ [CHR 0x22], msg_SentAt = zero_time\<rparr>"

theorem message_roundtrip_witness:
  "\<exists>payload t. marshal_message demo_message = Some payload \<and>
     parse_value payload = Some (VObject [(''room'', VString ''lobby''), (''username'', VString ''ann''),
       (''body'', VString (''<b>'' @ [CHR 0x22])), (''sentAt'', VString t)], [])"
proof -
  obtain payload where p: "marshal_message demo_message = Some payload"
    by (simp add: marshal_message_Some demo_message_def zero_time_def)
  have "valid_utf8 (msg_Room demo_message)" "valid_utf8 (msg_Username demo_message)" "valid_utf8 (msg_Body demo_message)"
    by (rule ascii_valid, simp add: demo_message_def)+
  then show ?thesis
    using message_roundtrip[OF p, of "[]"] p by (auto simp: demo_message_def simp del: coerce_utf8.simps valid_utf8.simps)
qed

text \<open>
  C39: A pod that starts has a shard for every room, one of the configured addresses, which is not
  blank and has no space at its ends and no comma; and different rooms use different channels.
\<close>

theorem every_room_has_a_shard:
  assumes "chat_main getenv = Some srv" "length (shards (cs_broker srv)) < 2 ^ 32"
  shows "(\<exists>shard \<in> set (shards (cs_broker srv)). shardFor (cs_broker srv) room = Some shard \<and>
      shard \<noteq> [] \<and> no_leading_space shard \<and> no_trailing_space shard \<and> CHR '','' \<notin> set shard) \<and>
    (roomChannel room = roomChannel room' \<longleftrightarrow> room = room')"
proof -
  have "shards (cs_broker srv) = getRedisAddrs getenv" "getRedisAddrs getenv \<noteq> []"
    using assms(1) by (auto simp: chat_main_def newBroker_def Let_def split: if_splits)
  then show ?thesis
    using shardFor_Some[of "cs_broker srv" room] assms(2) getRedisAddrs_clean[of _ getenv] roomChannel_inj
    by (metis (no_types, lifting))
qed

theorem every_room_has_a_shard_witness:
  "\<exists>srv. chat_main (\<lambda>name. []) = Some srv \<and>
     (\<exists>shard \<in> set (shards (cs_broker srv)). shardFor (cs_broker srv) ''lobby'' = Some shard \<and> shard \<noteq> [])"
proof -
  have "trim_leading space_encodings ''localhost:6379'' = ''localhost:6379''"
    "trim_leading (map rev space_encodings) ''9736:tsohlacol'' = ''9736:tsohlacol''"
    by (simp_all add: trim_leading.simps[of _ "''localhost:6379''"] trim_leading.simps[of _ "''9736:tsohlacol''"]
        leading_space_def space_encodings_def)
  then have "TrimSpace ''localhost:6379'' = ''localhost:6379''" by (simp add: TrimSpace_def)
  then have addrs: "getRedisAddrs (\<lambda>name. []) = [''localhost:6379'']"
    by (simp add: getRedisAddrs_def chatGetEnv_def Let_def)
  obtain srv where srv: "chat_main (\<lambda>name. []) = Some srv" "shards (cs_broker srv) = [''localhost:6379'']"
    using addrs by (auto simp: chat_main_def newBroker_def Let_def)
  then show ?thesis using every_room_has_a_shard[OF srv(1), of "''lobby''"] by auto
qed

text \<open>
  C40: The health check answers 200 exactly if every shard answered its ping, in whatever order the
  pings finish; otherwise it answers 503 with the error of a shard that failed.
\<close>

theorem health_iff_all_shards:
  assumes "set done_order = {..<length (shards b)}"
  shows "if \<forall>k < length (shards b). ping k = None
    then chatHealthHandler ping done_order = json_answer 200 (JObj [(''status'', JStr ''ok'')])
    else \<exists>k < length (shards b). \<exists>err. ping k = Some err \<and>
      chatHealthHandler ping done_order = json_answer 503 (JObj [(''status'', JStr ''error''), (''error'', JStr err)])"
proof (cases "first_error ping done_order None")
  case None
  then show ?thesis
    using first_error_None_iff[of ping done_order] assms by (simp add: chatHealthHandler_def pingAllShards_def)
next
  case (Some err)
  then show ?thesis
    using first_error_from[OF Some] first_error_None_iff[of ping done_order] assms
    by (auto simp: chatHealthHandler_def pingAllShards_def)
qed

theorem health_iff_all_shards_witness:
  "chatHealthHandler (\<lambda>k. if k = 0 then Some ''down'' else None) [1, 0] =
     json_answer 503 (JObj [(''status'', JStr ''error''), (''error'', JStr ''down'')])"
proof -
  have "set [1, 0::nat] = {..<length (shards (newBroker [''a'', ''a'']))}" by (auto simp: newBroker_def)
  from health_iff_all_shards[OF this, of "\<lambda>k. if k = 0 then Some ''down'' else None"]
  show ?thesis by (auto simp: newBroker_def split: if_splits)
qed

end
