(* ===== verification/Spec2Isabelle.thy ===== *)
theory Spec2Isabelle
  imports StreamsReplies StreamsApi StreamsConcurrent VodService VodLog ChatProperties
begin

text \<open>
  Vidcast is a live-streaming platform.  A creator gets a stream key from the streams service,
  publishes a stream with it to MediaMTX, which asks the streams service by webhook whether the key is
  good; MediaMTX records segments and starts one vod-recorder process for each, which uploads the
  segment to object storage, where the streams service lists it; viewers chat through pods that share
  rooms over Redis.  This development models the Go services under \<open>services/\<close>: every function
  except the calls that only start servers and write the logs of the servers.

  \<^bold>\<open>What the services share.\<close>  \<open>Prelude\<close>: collections, generic lemmas, reachable states and the locale
  \<open>invariant_system\<close>.  \<open>GoStrings\<close>: strings as bytes, \<open>strings\<close>, \<open>path\<close> and \<open>path/filepath\<close>.
  \<open>GoHash\<close>: SHA-256, FNV-1a and hexadecimal on words of 8, 32 and 64 bits.  \<open>GoJson\<close>,
  \<open>GoJsonDecode\<close>, \<open>GoJsonRoundtrip\<close>, \<open>GoJsonValues\<close>: the encoder of \<open>encoding/json\<close> with its escapes,
  the decoder into a struct with case-insensitive field names, and the round trip between them, of
  strings and of whole values.  \<open>GoTime\<close>: times in
  RFC 3339.  \<open>GoFloat\<close>: \<open>float64\<close>, \<open>strconv.ParseFloat\<close> and \<open>FormatFloat\<close>, \<open>time.ParseDuration\<close>;
  \<open>GoFloatRounding\<close> and \<open>GoFloatRoundtrip\<close>: correct rounding, and that a formatted value parses back.
  \<open>GoServeMux\<close>: patterns, precedence, redirects and 405 answers of \<open>http.ServeMux\<close>.  All of it is the
  standard library as documented, so it is defined and not assumed.

  \<^bold>\<open>services/streams.\<close>  \<open>StreamStore\<close> is \<open>store.go\<close>: the record \<open>store\<close> has the two maps of the
  struct, \<open>channels\<close> and \<open>byKeyHash\<close>, and each method, which holds the mutex throughout, is one
  function.  \<open>StoreSpec\<close> is its contract, a map from slugs to (key hash, live flag) without an index,
  with the simulation between the two.  \<open>StreamsHttp\<close> is \<open>httpjson.go\<close>, \<open>auth.go\<close>, \<open>health.go\<close>: a
  handler maps a request and a store to a response and a store.  \<open>StreamKeyHandler\<close> is
  \<open>streamkey_handler.go\<close> and \<open>channels_handler.go\<close>, \<open>MediaMTXHandler\<close> is \<open>mediamtx_handler.go\<close>,
  \<open>S3Client\<close> and \<open>RecordingsHandler\<close> are \<open>s3client.go\<close> and \<open>recordings_handler.go\<close>, and
  \<open>StreamsMain\<close> is the wiring of \<open>main.go\<close> with one request served through the mux (\<open>serve\<close>).
  \<open>StreamsConcurrent\<close> runs any number of requests in parallel, each as the sequence of its critical
  sections, since some handlers take the mutex more than once, and \<open>StreamsJourney\<close> follows one
  stream through the mux from the creation of its key to the listing after its end.  \<open>StreamsReplies\<close>
  has the error texts and the bytes of the bodies, and \<open>StreamsApi\<close> the contract of the HTTP
  interface: each call and its reply against the abstract registry.

  \<^bold>\<open>services/vod-recorder.\<close>  \<open>VodRecorder\<close> is \<open>env.go\<close>, \<open>uploader.go\<close> and \<open>main.go\<close>: one run of the
  process over a world of local files and bucket objects.  \<open>VodNamespace\<close> relates the keys it writes
  to the prefixes the streams service lists, as the locale \<open>vod_key_scheme\<close>, and runs many
  processes; \<open>VodProperties\<close> has the properties of a run and of a listing, and \<open>VodService\<close> those of
  both services together.  \<open>VodLog\<close> is \<open>main\<close> once more with the lines it logs and its exit status,
  the same run as \<open>vod_main\<close> (\<open>vod_run_world\<close>).

  \<^bold>\<open>services/chat.\<close>  \<open>ChatBroker\<close> is \<open>broker.go\<close>; what the hub needs of it is the locale
  \<open>room_router\<close>.  \<open>ChatHub\<close> is \<open>hub.go\<close>: rooms in a heap under pointers, because a subscription
  keeps the pointer of its room after the room has left the map; \<open>ChatHubSpec\<close> is its contract on sets
  of members.  \<open>ChatMessage\<close> is \<open>message.go\<close>.  \<open>ChatPod\<close> is \<open>handler.go\<close> with everything it starts:
  the goroutines of each connection and of each subscription are program counters, and \<open>pod_step\<close> runs
  one of them to its next use of the mutex, a channel, the connection or Redis.  \<open>ChatSafety\<close> has the
  invariant of all interleavings, \<open>ChatLiveness\<close> the way of each connection to its end and
  \<open>ChatOrder\<close> the way of each message to the connections.  \<open>ChatCluster\<close> runs any number of pods, each
  a pod of \<open>ChatPod\<close> (locale \<open>system_family\<close>), with one step of all of them for a publish to Redis,
  and \<open>ChatDelivery\<close> follows a message from pod to pod.  \<open>ChatMain\<close> is \<open>main.go\<close> and
  \<open>health.go\<close>, \<open>Echo\<close> is \<open>services/echo\<close>, \<open>ChatProperties\<close> has the properties.

  \<^bold>\<open>What is shown.\<close> C1 to C5: the key registry implements its contract; keys
  resolve exactly while they are current. C6: any sequence of requests through the mux is answered
  as the abstract registry would answer it. C7 to C10: what no request without the API key can
  change or learn, the stream-key endpoint under every method, and the shape of every reply down to
  its bytes. C11 to C14: the two webhooks. C15 and C17: all interleavings of requests; the lemma
  \<open>task_sections_are_handlers\<close> ties them to the handlers. C18 to C21: the recorder's environment and what a run may touch;
  the duration in an object's metadata is exact, and no local file is removed before its contents
  are stored. C26 and C16: the log of a run tells what it did, and not the credentials. C22 to C24,
  C27 and C28: which objects a listing shows, from upload to response. C25: one stream from its key
  to its end. C29: both services under a key on another channel's path. C30 to C35: no interleaving
  of a pod panics, each room has exactly one subscription, all pods of a deployment deliver from one
  history of messages, a message can reach every pod, one that comes too early reaches nobody, and
  each connection can come to its end by its own steps. C36 to C40: the hub's contract, broadcasts,
  messages, shards, health. C14, C17, C23, C28, C29 and C34 state behaviour that the repository's
  comments do not expect.

  \<^bold>\<open>Parameters.\<close>  Random bytes (\<open>Some raw\<close>, or \<open>None\<close> for an error), the order of a map range and the
  order in which parallel pings finish are arguments.  The AWS SDK is \<open>s3_sdk\<close> in the streams service
  (a paginator and a presigner) and \<open>put_object\<close> in the recorder; the hypotheses on it are
  \<open>honest_listing\<close> (all keys with the prefix, once, in byte order), \<open>presigns\<close>, \<open>durable_puts\<close> (a put
  that succeeds has stored the object) and \<open>atomic_puts\<close> (one that fails has stored all or nothing).
  Redis delivers a publish to any subset of the listeners of its channel, on all pods, in order.  The file system
  may refuse any call.  SHA-256 is computed, so no hypothesis excludes collisions: where one would
  matter, fresh keys have hashes that are not in use (\<open>fresh_run\<close>), or the statement names the hash.

  \<^bold>\<open>Bounds.\<close>  The JSON parser runs on fuel, twice the length of its input plus two, more than the
  recursive calls it can make since each pair of them consumes a byte.  The page loop over S3 may not
  return, so it is a \<open>partial_function\<close>, and C24 says when it does.  The number of shards
  is below \<open>2 ^ 32\<close> where \<open>shardIndex\<close> truncates it to 32 bits (\<open>shardIndex_panics\<close> has the other
  case).  A send buffer holds 16 payloads, which gives the 23 steps of C35.

  \<^bold>\<open>Not modelled.\<close>  \<open>ListenAndServe\<close>, the log output of the servers and the parsing of an HTTP
  request before its path, headers and body; the texts of \<open>%q\<close>, of a failed random draw and of decoding
  and duration errors, which are arguments; deadlines and timers, which are calls that may
  fail at any time; the WebSocket and Redis wire protocols.
  \<open>services/users\<close> is Python, and \<open>infra/\<close>, \<open>deploy/\<close> and the CI scripts are configuration.
\<close>

section \<open>The stream-key registry\<close>

text \<open>
  C1: Any run of store operations that starts from the empty store and draws fresh keys behaves, in
  every result and in the state it reaches, like the abstract registry that has no key index.
\<close>

theorem store_refines_registry:
  assumes "fresh_run qs newStore"
  shows "spec_run qs Map.empty (run_results qs newStore) (abs_store (run_ops qs newStore))"
  using run_refines_spec[OF newStore_inv assms] by (simp add: abs_store_newStore)

theorem store_refines_registry_witness:
  "let qs = [CreateOp (Some ''k'') ''alice'', SetLiveOp ''alice'' True, FindOp ''x'', CreateOp None ''alice'',
             RevokeOp ''alice'', CreateOp (Some ''l'') ''alice'']
   in spec_run qs Map.empty (run_results qs newStore) (abs_store (run_ops qs newStore))"
  unfolding Let_def
  by (rule store_refines_registry)
     (simp add: fresh_op_def newStore_def CreateKey_def SetLive_def RevokeKey_def generateKey_def Let_def)

text \<open>
  C2: After any operations whatever, and whatever the random source returned, a key that the store
  resolves is the current key of the channel it resolves to.
\<close>

theorem resolved_key_is_current:
  assumes "FindByKey (run_ops qs newStore) key = Some slug"
  shows "\<exists>rec. channels (run_ops qs newStore) slug = Some rec \<and> cr_slug rec = slug \<and> cr_keyHash rec = hashKey key"
proof -
  have "index_sound (run_ops qs newStore)"
    by (rule index_sound_run[OF store_inv_sound[OF newStore_inv]])
  then show ?thesis
    using assms by (auto simp: FindByKey_def elim: index_soundD)
qed

theorem resolved_key_is_current_witness:
  "\<exists>rec. channels (run_ops [CreateOp (Some ''k'') ''alice''] newStore) ''alice'' = Some rec \<and>
     cr_slug rec = ''alice'' \<and> cr_keyHash rec = hashKey (''sk_'' @ hex_EncodeToString ''k'')"
  by (rule resolved_key_is_current)
     (simp add: newStore_def CreateKey_def generateKey_def FindByKey_def Let_def)

text \<open>
  C3: A key that create or rotate hands out resolves to its channel for as long as no operation
  rotates or revokes that channel.
\<close>

theorem issued_key_resolves:
  assumes "store_inv s" "fresh_run (q # qs) s" "issues slug q"
    and "fst (exec_op q s) = KeyResult (Inr key)"
    and "\<And>q'. q' \<in> set qs \<Longrightarrow> \<not> retires slug q'"
  shows "FindByKey (run_ops (q # qs) s) key = Some slug"
proof -
  have "has_key (run_ops (q # qs) s) slug key"
    using has_key_run[OF issued_has_key[OF assms(3), of s key "snd (exec_op q s)"] assms(5)] assms(4)
    by (simp add: prod_eq_iff)
  then show ?thesis
    using FindByKey_has_key[OF store_inv_run[OF assms(1,2)]] by blast
qed

theorem issued_key_resolves_witness:
  "FindByKey (run_ops [CreateOp (Some ''k'') ''alice'', SetLiveOp ''alice'' True, CreateOp None ''bob''] newStore)
     (''sk_'' @ hex_EncodeToString ''k'') = Some ''alice''"
  by (rule issued_key_resolves[OF newStore_inv])
     (auto simp: fresh_op_def newStore_def CreateKey_def SetLive_def generateKey_def Let_def)

text \<open>
  C4: Once its channel is rotated or revoked, a key never resolves again, unless its own hash is
  drawn anew.
\<close>

theorem retired_key_never_resolves:
  assumes "has_key s slug key" "retires slug q" "\<nexists>e. fst (exec_op q s) = KeyResult (Inl e)"
    and "\<And>q'. q' \<in> set (q # qs) \<Longrightarrow> new_hash q' \<noteq> Some (hashKey key)"
  shows "FindByKey (run_ops (q # qs) s) key = None"
proof -
  have "byKeyHash (snd (exec_op q s)) (hashKey key) = None"
    by (rule retired_absent[OF assms(1,2) _ assms(3)]) (use assms(4) in simp)
  then show ?thesis
    unfolding FindByKey_def run_ops.simps
    by (rule absent_run) (use assms(4) in simp)
qed

theorem retired_key_never_resolves_witness:
  "FindByKey (run_ops [RevokeOp ''alice'', CreateOp None ''alice'', SetLiveOp ''alice'' True]
     (run_ops [CreateOp (Some ''k'') ''alice''] newStore)) (''sk_'' @ hex_EncodeToString ''k'') = None"
  by (rule retired_key_never_resolves[where slug = "''alice''"])
     (auto simp: has_key_def newStore_def CreateKey_def RevokeKey_def generateKey_def Let_def)

text \<open>
  C5: The live listing contains exactly the live channels, each once, sorted by slug, and does not
  depend on the order in which the channel map is visited.
\<close>

theorem ListLive_correct:
  assumes "index_sound s" "map_order order s"
  shows "set (map lc_Slug (ListLive order s)) = live_slugs s \<and> sorted (map lc_Slug (ListLive order s)) \<and>
    distinct (map lc_Slug (ListLive order s)) \<and>
    (\<forall>order'. map_order order' s \<longrightarrow> ListLive order' s = ListLive order s)"
proof (intro conjI allI impI)
  show "set (map lc_Slug (ListLive order s)) = live_slugs s"
    by (rule set_ListLive[OF assms])
  show "sorted (map lc_Slug (ListLive order s))"
    by (simp add: ListLive_def)
  have "mset (map lc_Slug (ListLive order s)) = mset (map lc_Slug (collect_live order s))"
    by (simp add: ListLive_def)
  then show "distinct (map lc_Slug (ListLive order s))"
    using distinct_collect_live[OF assms] mset_eq_imp_distinct_iff by blast
  fix order' assume "map_order order' s"
  then show "ListLive order' s = ListLive order s"
    by (intro sorted_listing_unique[OF assms(1) _ assms(2)]) (simp_all add: ListLive_def)
qed

theorem ListLive_correct_witness:
  "let s = run_ops [CreateOp (Some ''k'') ''bob'', SetLiveOp ''bob'' True] newStore in
   set (map lc_Slug (ListLive [''bob''] s)) = live_slugs s \<and> sorted (map lc_Slug (ListLive [''bob''] s)) \<and>
    distinct (map lc_Slug (ListLive [''bob''] s)) \<and>
    (\<forall>order'. map_order order' s \<longrightarrow> ListLive order' s = ListLive [''bob''] s)"
  unfolding Let_def
proof (rule ListLive_correct)
  show "index_sound (run_ops [CreateOp (Some ''k'') ''bob'', SetLiveOp ''bob'' True] newStore)"
    by (rule index_sound_run[OF store_inv_sound[OF newStore_inv]])
  show "map_order [''bob''] (run_ops [CreateOp (Some ''k'') ''bob'', SetLiveOp ''bob'' True] newStore)"
    by (auto simp: map_order_def newStore_def CreateKey_def SetLive_def generateKey_def Let_def split: if_splits)
qed

section \<open>The streams endpoints\<close>

text \<open>
  Creating a key: 409 for a known channel and 500 without randomness, both without any effect;
  otherwise 201 with the new key, and the channel exists, offline, found by that key and its slug.
\<close>

lemma create_key_behaviour:
  "newCreateStreamKeyHandler rnd r s =
     (if channels s (rq_slug r) \<noteq> None
      then (writeError StatusConflict (StoreError ErrChannelExists), s)
      else case rnd of
        None \<Rightarrow> (writeError StatusInternalServerError (StoreError ErrGenerateKey), s)
      | Some raw \<Rightarrow>
          (let key = ''sk_'' @ hex_EncodeToString raw in
           (writeJSON StatusCreated (key_response (rq_slug r) key),
            s\<lparr>channels := (channels s)(rq_slug r \<mapsto>
                \<lparr>cr_slug = rq_slug r, cr_keyHash = hashKey key, cr_live = False\<rparr>),
              byKeyHash := (byKeyHash s)(hashKey key \<mapsto> rq_slug r)\<rparr>)))"
  by (auto simp: create_handler_cases CreateKey_def generateKey_def Let_def split: option.split)

text \<open>
  Rotating a key: 404 for an unknown channel and 500 without randomness, both without effect;
  otherwise 200 with a new key in place of the old one, which leaves the index, and the live flag
  as it was.
\<close>

lemma rotate_key_behaviour:
  "newRotateStreamKeyHandler rnd r s =
     (case channels s (rq_slug r) of
        None \<Rightarrow> (writeError StatusNotFound (StoreError ErrChannelNotFound), s)
      | Some rec \<Rightarrow>
          (case rnd of
             None \<Rightarrow> (writeError StatusInternalServerError (StoreError ErrGenerateKey), s)
           | Some raw \<Rightarrow>
               (let key = ''sk_'' @ hex_EncodeToString raw in
                (writeJSON StatusOK (key_response (rq_slug r) key),
                 s\<lparr>channels := (channels s)(rq_slug r \<mapsto> rec\<lparr>cr_keyHash := hashKey key\<rparr>),
                   byKeyHash := ((byKeyHash s)(cr_keyHash rec := None))(hashKey key \<mapsto> rq_slug r)\<rparr>))))"
  by (auto simp: rotate_handler_cases RotateKey_def generateKey_def Let_def split: option.split)

text \<open>
  Revoking a channel: 404 without effect if it is unknown; otherwise 204, and afterwards neither
  the slug nor the key is known, while every other channel is as it was.
\<close>

lemma revoke_key_behaviour:
  "(channels s (rq_slug r) = None \<and>
      newRevokeStreamKeyHandler r s = (writeError StatusNotFound (StoreError ErrChannelNotFound), s)) \<or>
   (\<exists>rec s'. channels s (rq_slug r) = Some rec \<and> newRevokeStreamKeyHandler r s = (writeHeader StatusNoContent, s') \<and>
      Get s' (rq_slug r) = None \<and> byKeyHash s' (cr_keyHash rec) = None \<and>
      channels s' = (channels s)(rq_slug r := None) \<and> byKeyHash s' = (byKeyHash s)(cr_keyHash rec := None))"
  by (cases "channels s (rq_slug r)") (auto simp: revoke_handler_cases RevokeKey_def Get_def)

text \<open>
  C7: No secret leaves the read endpoints: two stores that differ only in the keys they hold give the
  same answers to reading a channel's metadata and to the live listing.
\<close>

definition same_but_keys :: "store \<Rightarrow> store \<Rightarrow> bool" where
  "same_but_keys s t \<longleftrightarrow>
     (\<forall>slug. map_option (\<lambda>rec. rec\<lparr>cr_keyHash := []\<rparr>) (channels s slug) =
             map_option (\<lambda>rec. rec\<lparr>cr_keyHash := []\<rparr>) (channels t slug))"

lemma same_but_keys_cases:
  assumes "same_but_keys s t" "index_sound s" "index_sound t"
  shows "(channels s slug = None \<and> channels t slug = None) \<or>
    (\<exists>a b. channels s slug = Some a \<and> channels t slug = Some b \<and> cr_slug a = cr_slug b \<and> cr_live a = cr_live b \<and>
       cr_keyHash a \<noteq> [] \<and> cr_keyHash b \<noteq> [])"
proof -
  have eq: "map_option (\<lambda>rec. rec\<lparr>cr_keyHash := []\<rparr>) (channels s slug) =
      map_option (\<lambda>rec. rec\<lparr>cr_keyHash := []\<rparr>) (channels t slug)"
    using assms(1) by (simp add: same_but_keys_def)
  show ?thesis
  proof (cases "channels s slug")
    case None
    then show ?thesis using eq by simp
  next
    case (Some a)
    then obtain b where b: "channels t slug = Some b" using eq by (cases "channels t slug") auto
    have "a\<lparr>cr_keyHash := []\<rparr> = b\<lparr>cr_keyHash := []\<rparr>" using eq Some b by simp
    then have "cr_slug a = cr_slug b" "cr_live a = cr_live b"
      by (cases a; cases b; simp)+
    then show ?thesis
      using Some b index_sound_hash[OF assms(2) Some] index_sound_hash[OF assms(3) b] by blast
  qed
qed

theorem read_endpoints_keep_secrets:
  assumes "same_but_keys s t" "index_sound s" "index_sound t"
  shows "fst (newGetStreamKeyHandler r s) = fst (newGetStreamKeyHandler r t) \<and>
    fst (newListChannelsHandler order r s) = fst (newListChannelsHandler order r t)"
proof
  show "fst (newGetStreamKeyHandler r s) = fst (newGetStreamKeyHandler r t)"
    using same_but_keys_cases[OF assms, of "rq_slug r"]
    by (auto simp: newGetStreamKeyHandler_def Get_def)
  have "collect_live order s = collect_live order t"
  proof (induction order)
    case (Cons x order)
    then show ?case
      using same_but_keys_cases[OF assms, of x] by (auto simp: collect_live_def List.map_filter_simps)
  qed (simp add: collect_live_def List.map_filter_simps)
  then show "fst (newListChannelsHandler order r s) = fst (newListChannelsHandler order r t)"
    by (simp add: newListChannelsHandler_def ListLive_def)
qed

theorem read_endpoints_keep_secrets_witness:
  "let s = run_ops [CreateOp (Some ''k'') ''bob''] newStore; t = run_ops [CreateOp (Some ''l'') ''bob''] newStore;
       r = \<lparr>rq_authorization = [], rq_slug = ''bob'', rq_body = []\<rparr>
   in fst (newGetStreamKeyHandler r s) = fst (newGetStreamKeyHandler r t) \<and>
      fst (newListChannelsHandler [''bob''] r s) = fst (newListChannelsHandler [''bob''] r t)"
  unfolding Let_def
proof (rule read_endpoints_keep_secrets)
  show "same_but_keys (run_ops [CreateOp (Some ''k'') ''bob''] newStore) (run_ops [CreateOp (Some ''l'') ''bob''] newStore)"
    by (auto simp: same_but_keys_def newStore_def CreateKey_def generateKey_def Let_def)
qed (rule index_sound_run[OF store_inv_sound[OF newStore_inv]])+

text \<open>
  C8: A request without the configured API key changes no stream key: whatever it is, after it every
  channel has the key it had, and the index is the same.
\<close>

theorem no_key_change_without_api_key:
  assumes "apiKey \<noteq> []" "hr_authorization hr \<noteq> ''Bearer '' @ apiKey"
    and "serve (streams_routes version apiKey recordings) inp hr s = (reply, s')"
  shows "key_hashes s' = key_hashes s"
  using serve_unauthorized[OF assms(3,1)] assms(2) by (simp add: bearer_prefix_def)

theorem no_key_change_without_api_key_witness:
  "key_hashes (snd (serve (streams_routes ''v'' ''secret'' None) \<lparr>in_random = Some ''k'', in_order = []\<rparr>
     \<lparr>hr_method = ''POST'', hr_path = ''/channels/alice/stream-key'', hr_authorization = ''Bearer guess'', hr_body = []\<rparr>
     newStore)) = key_hashes newStore"
  by (rule no_key_change_without_api_key[OF _ _ surjective_pairing]) simp_all

text \<open>
  C9: The stream-key endpoint of a channel, for every method: POST creates, GET and HEAD read, PUT
  rotates, DELETE revokes, each behind the API key and with the unescaped slug; any other method is a
  405 that names these.
\<close>

theorem stream_key_endpoint:
  assumes "hr_path hr = ''/channels/'' @ enc @ ''/stream-key''" "plain_elem enc" "pathUnescape enc \<noteq> ''/''"
  shows "serve (streams_routes version apiKey recordings) inp hr s =
    (case stream_key_handler apiKey inp (hr_method hr) of
       Some h \<Rightarrow> run_handler h (with_slug hr (pathUnescape enc)) s
     | None \<Rightarrow> (MethodNotAllowedReply [''DELETE'', ''GET'', ''HEAD'', ''POST'', ''PUT''], s))"
  by (rule serve_stream_key) (use assms in \<open>simp_all add: channel_url_def\<close>)

theorem stream_key_endpoint_witness:
  "serve (streams_routes ''v'' ''secret'' None) \<lparr>in_random = None, in_order = []\<rparr>
     \<lparr>hr_method = ''PATCH'', hr_path = ''/channels/'' @ ''a%20b'' @ ''/stream-key'', hr_authorization = [], hr_body = []\<rparr>
     newStore = (MethodNotAllowedReply [''DELETE'', ''GET'', ''HEAD'', ''POST'', ''PUT''], newStore)"
proof -
  have "plain_elem ''a%20b''" "pathUnescape ''a%20b'' \<noteq> ''/''"
    by (simp_all add: plain_elem_def pathUnescape_def unhex_def)
  then show ?thesis
    by (subst stream_key_endpoint[where enc = "''a%20b''"]) (simp_all add: stream_key_handler_def)
qed

text \<open>
  The bearer check lets a request through exactly if no key is configured or its header is
  \<open>Bearer\<close>, a space and the key; otherwise it answers 401 and the handler does not run.
\<close>

lemma requireAuth_exact:
  "requireAuth apiKey fn r s =
     (if apiKey = [] \<or> rq_authorization r = ''Bearer '' @ apiKey then fn r s
      else (writeError StatusUnauthorized ErrUnauthorized, s))"
  by (simp add: requireAuth_eq authorized_def bearer_prefix_def)

section \<open>The MediaMTX webhooks\<close>

text \<open>
  C11: The authentication webhook decides by key alone: an undecodable body is a 400; anything but a
  publish is allowed without effect; a publish is allowed exactly if its key resolves, and then the
  channel of that key, and no other, is live afterwards.
\<close>

theorem auth_webhook_decision:
  assumes "index_sound s"
  shows "(case decodeWebhook (rq_body r) of
      Inl err \<Rightarrow> newMediaMTXAuthHandler r s = (writeError StatusBadRequest (DecodeError err), s)
    | Inr req \<Rightarrow>
        if wr_Action req \<noteq> ''publish'' then newMediaMTXAuthHandler r s = (writeHeader StatusOK, s)
        else case FindByKey s (presentedKey req) of
          None \<Rightarrow> newMediaMTXAuthHandler r s = (writeHeader StatusUnauthorized, s)
        | Some slug \<Rightarrow>
            fst (newMediaMTXAuthHandler r s) = writeHeader StatusOK \<and>
            (\<exists>ch. Get (snd (newMediaMTXAuthHandler r s)) slug = Some ch \<and> ch_Live ch) \<and>
            (\<forall>other. other \<noteq> slug \<longrightarrow> Get (snd (newMediaMTXAuthHandler r s)) other = Get s other))"
  using streams.find_set_live[OF assms, of _ _ True] streams.set_live_other
  by (auto simp: newMediaMTXAuthHandler_def split: sum.split option.split)

theorem auth_webhook_decision_witness:
  "newMediaMTXAuthHandler \<lparr>rq_authorization = [], rq_slug = [], rq_body = ''{''\<rparr> newStore =
     (writeError StatusBadRequest (DecodeError BadInput), newStore)"
proof -
  have d: "decodeWebhook ''{'' = Inl BadInput"
    by (simp add: decodeWebhook_def max_body_def parse_value_def pval.simps skip_ws_def is_ws_def eval_nat_numeral)
  show ?thesis
    using auth_webhook_decision[OF store_inv_sound[OF newStore_inv],
        of "\<lparr>rq_authorization = [], rq_slug = [], rq_body = ''{''\<rparr>"]
    by (simp add: d)
qed

text \<open>
  C12: A streamer who presents a channel's key, in the password or as the last path segment, is let
  in and marked live, whatever follows the JSON of the request: the body MediaMTX posts survives
  encoding and decoding.
\<close>

theorem publish_with_key_goes_live:
  assumes "store_inv s" "has_key s slug key" "key = ''sk_'' @ hex_EncodeToString raw"
    and "wr_Action req = ''publish''" "valid_utf8 (wr_Path req)" "valid_utf8 key"
    and "wr_Password req = key \<or> (wr_Password req = [] \<and> wr_Path req = app @ ''/'' @ key)"
    and "length (json_encode (webhook_json req)) \<le> 4096"
    and "rq_body r = json_encode (webhook_json req) @ rest"
  shows "rs_status (fst (newMediaMTXAuthHandler r s)) = 200 \<and>
    (\<exists>ch. Get (snd (newMediaMTXAuthHandler r s)) slug = Some ch \<and> ch_Live ch)"
proof -
  have dec: "decodeWebhook (rq_body r) = Inr req"
    unfolding assms(9)
    by (rule decodeWebhook_encoded)
       (use assms(4-8) in \<open>auto simp: max_body_def byte_in_def rune_error_def\<close>)
  have key: "key \<noteq> []" "CHR ''/'' \<notin> set key"
    using generated_key_no_slash[of raw] assms(3) by simp_all
  have pk: "presentedKey req = key"
    using assms(7)
  proof
    assume "wr_Password req = key"
    then show ?thesis using key(1) by (simp add: presentedKey_def)
  next
    assume "wr_Password req = [] \<and> wr_Path req = app @ ''/'' @ key"
    then show ?thesis using presentedKey_path[of req app key] key by simp
  qed
  have find: "FindByKey s (presentedKey req) = Some slug"
    using FindByKey_has_key[OF assms(1)] assms(2) pk by simp
  then show ?thesis
    using streams.find_set_live[OF store_inv_sound[OF assms(1)] find, of True] auth_publish[OF dec assms(4)]
    by (auto simp: writeHeader_def StatusOK_def)
qed

text \<open>A short witness: a key of no random bytes, presented on the path.\<close>

definition demo_webhook :: authWebhookRequest where
  "demo_webhook = \<lparr>wr_Action = ''publish'', wr_Path = ''live'' @ ''/'' @ ''sk_'', wr_Password = []\<rparr>"

theorem publish_with_key_goes_live_witness:
  "let s = run_ops [CreateOp (Some []) ''alice''] newStore;
       r = \<lparr>rq_authorization = [], rq_slug = [], rq_body = json_encode (webhook_json demo_webhook) @ []\<rparr>
   in rs_status (fst (newMediaMTXAuthHandler r s)) = 200 \<and>
      (\<exists>ch. Get (snd (newMediaMTXAuthHandler r s)) ''alice'' = Some ch \<and> ch_Live ch)"
  unfolding Let_def
proof (rule publish_with_key_goes_live[where key = "''sk_''" and raw = "[]" and app = "''live''" and req = demo_webhook and rest = "[]"])
  show "store_inv (run_ops [CreateOp (Some []) ''alice''] newStore)"
    by (rule store_inv_run[OF newStore_inv]) (simp add: fresh_op_def newStore_def)
  show "has_key (run_ops [CreateOp (Some []) ''alice''] newStore) ''alice'' ''sk_''"
    by (simp add: has_key_def newStore_def CreateKey_def generateKey_def Let_def)
  show "length (json_encode (webhook_json demo_webhook)) \<le> 4096"
    by (simp add: webhook_json_def demo_webhook_def str_obj_def quote_def esc_ascii_def byte_in_def)
qed (simp_all add: demo_webhook_def byte_in_def rune_error_def)

text \<open>
  C13: The unpublish hook never fails on a decodable body; it marks offline the channel its path
  names, by key or by slug, and changes nothing if the path names none.
\<close>

theorem unpublish_marks_offline:
  assumes "index_sound s" "decodeWebhook (rq_body r) = Inr req"
  shows "fst (newMediaMTXUnpublishHandler r s) = writeHeader StatusOK \<and>
    (case resolveChannelFromPath s (wr_Path req) of
       None \<Rightarrow> snd (newMediaMTXUnpublishHandler r s) = s
     | Some slug \<Rightarrow>
         (\<exists>ch. Get (snd (newMediaMTXUnpublishHandler r s)) slug = Some ch \<and> \<not> ch_Live ch) \<and>
         (\<forall>other. other \<noteq> slug \<longrightarrow> Get (snd (newMediaMTXUnpublishHandler r s)) other = Get s other))"
proof (cases "resolveChannelFromPath s (wr_Path req)")
  case None
  then show ?thesis using assms(2) by (simp add: newMediaMTXUnpublishHandler_def)
next
  case (Some slug)
  obtain ch where "Get s slug = Some ch"
    using resolveChannelFromPath_known[OF assms(1) Some] by blast
  then show ?thesis
    using assms(2) Some streams.set_live_get[of s slug ch False] streams.set_live_other[of _ slug False s]
    by (simp add: newMediaMTXUnpublishHandler_def)
qed

lemma decode_empty_object: "decodeWebhook ''{}'' = Inr empty_webhook"
  by (simp add: decodeWebhook_def max_body_def parse_value_def pval.simps skip_ws_def is_ws_def eval_nat_numeral)

theorem unpublish_marks_offline_witness:
  "fst (newMediaMTXUnpublishHandler \<lparr>rq_authorization = [], rq_slug = [], rq_body = ''{}''\<rparr> newStore) = writeHeader StatusOK"
  using unpublish_marks_offline[OF store_inv_sound[OF newStore_inv],
      of "\<lparr>rq_authorization = [], rq_slug = [], rq_body = ''{}''\<rparr>" empty_webhook] decode_empty_object
  by simp

text \<open>
  C14: Rotating the key of a stream that presented it on its path strands the channel: the hook that
  MediaMTX runs at the end of that stream still carries the old key, resolves nothing, and the
  channel stays live.  (The alternative is that old and new key have the same SHA-256 hash.)
\<close>

theorem rotation_strands_live_channel:
  assumes "channels s slug = Some rec" "cr_live rec" "cr_keyHash rec = hashKey key"
    and "key = ''sk_'' @ hex_EncodeToString raw" "channels s key = None"
    and "decodeWebhook (rq_body r) = Inr req" "wr_Path req = app @ ''/'' @ key"
    and "RotateKey (Some raw') slug s = (Inr key', s')"
  shows "hashKey key' = hashKey key \<or>
    (newMediaMTXUnpublishHandler r s' = (writeHeader StatusOK, s') \<and> slug \<in> live_slugs s')"
proof (cases "hashKey key' = hashKey key")
  case False
  have key: "key \<noteq> []" "CHR ''/'' \<notin> set key"
    using generated_key_no_slash[of raw] assms(4) by simp_all
  have seg: "lastPathSegment (wr_Path req) = key"
    using lastPathSegment_append[of key "[]" app] key assms(7) by simp
  have s': "channels s' = (channels s)(slug \<mapsto> rec\<lparr>cr_keyHash := hashKey key'\<rparr>)"
    "byKeyHash s' = ((byKeyHash s)(hashKey key := None))(hashKey key' \<mapsto> slug)"
    using assms(1,3,8) by (auto simp: RotateKey_def generateKey_def Let_def)
  have "key \<noteq> slug" using assms(1,5) by auto
  then have "resolveChannelFromPath s' (wr_Path req) = None"
    using assms(5) False unfolding resolveChannelFromPath_def seg
    by (simp add: FindByKey_def Get_def s')
  moreover have "slug \<in> live_slugs s'"
    using assms(2) by (simp add: live_slugs_def s')
  ultimately show ?thesis
    using assms(6) by (simp add: newMediaMTXUnpublishHandler_def)
qed simp

definition demo_live_store :: store where
  "demo_live_store =
     \<lparr>channels = [''alice'' \<mapsto> \<lparr>cr_slug = ''alice'', cr_keyHash = hashKey ''sk_'', cr_live = True\<rparr>],
      byKeyHash = [hashKey ''sk_'' \<mapsto> ''alice'']\<rparr>"

definition demo_request :: "gostring \<Rightarrow> request" where
  "demo_request slug =
     \<lparr>rq_authorization = [], rq_slug = slug, rq_body = json_encode (webhook_json demo_webhook) @ []\<rparr>"

lemma decode_demo: "decodeWebhook (rq_body (demo_request slug)) = Inr demo_webhook"
  unfolding demo_request_def request.select_convs
  by (rule decodeWebhook_encoded)
     (simp_all add: demo_webhook_def byte_in_def rune_error_def max_body_def webhook_json_def str_obj_def
       quote_def esc_ascii_def)

theorem rotation_strands_live_channel_witness:
  "let key' = ''sk_'' @ hex_EncodeToString ''k''; s' = snd (RotateKey (Some ''k'') ''alice'' demo_live_store)
   in hashKey key' = hashKey ''sk_'' \<or>
      (newMediaMTXUnpublishHandler (demo_request []) s' = (writeHeader StatusOK, s') \<and> ''alice'' \<in> live_slugs s')"
  unfolding Let_def
proof (rule rotation_strands_live_channel[OF _ _ _ _ _ decode_demo, where raw' = "''k''"])
  show "wr_Path demo_webhook = ''live'' @ ''/'' @ ''sk_''" by (simp add: demo_webhook_def)
  show "channels demo_live_store ''alice'' =
      Some \<lparr>cr_slug = ''alice'', cr_keyHash = hashKey ''sk_'', cr_live = True\<rparr>"
    by (simp add: demo_live_store_def)
  show "''sk_'' = ''sk_'' @ hex_EncodeToString []" by simp
qed (simp_all add: demo_live_store_def RotateKey_def generateKey_def Let_def)

text \<open>
  The publish decision ignores the path when a password is given: with any one valid key a
  streamer is let in on every path, so also on the path of a channel that is not the key's.
\<close>

lemma publish_path_not_bound_to_key:
  assumes "wr_Password req \<noteq> []" "wr_Action req = ''publish''"
    and "decodeWebhook (rq_body r) = Inr req" "decodeWebhook (rq_body r') = Inr (req\<lparr>wr_Path := other\<rparr>)"
  shows "newMediaMTXAuthHandler r' s = newMediaMTXAuthHandler r s"
proof -
  have "presentedKey (req\<lparr>wr_Path := other\<rparr>) = presentedKey req"
    using assms(1) by (simp add: presentedKey_def)
  then show ?thesis
    using auth_publish[OF assms(3,2)] auth_publish[OF assms(4)] assms(2) by simp
qed

section \<open>Requests in parallel\<close>


lemma demo_presented: "presentedKey demo_webhook = ''sk_''"
  using presentedKey_path[of demo_webhook "''live''" "''sk_''"] by (simp add: demo_webhook_def)


lemma demo_create:
  "newCreateStreamKeyHandler (Some []) (demo_request ''alice'') newStore =
     (writeJSON StatusCreated (key_response ''alice'' ''sk_''),
      \<lparr>channels = [''alice'' \<mapsto> \<lparr>cr_slug = ''alice'', cr_keyHash = hashKey ''sk_'', cr_live = False\<rparr>],
       byKeyHash = [hashKey ''sk_'' \<mapsto> ''alice'']\<rparr>)"
  by (simp add: create_handler_cases CreateKey_def generateKey_def newStore_def demo_request_def Let_def)


text \<open>
  The sections of a request, run without interruption, are its handler; and whatever other
  requests do to the store between them, a request is answered after at most three.  This ties the
  interleavings to the handlers of the other properties.
\<close>

lemma task_sections_are_handlers:
  "run_task 2 (AuthTask r) s = (Answered (fst (newMediaMTXAuthHandler r s)), snd (newMediaMTXAuthHandler r s)) \<and>
   run_task 3 (UnpublishTask r) s =
     (Answered (fst (newMediaMTXUnpublishHandler r s)), snd (newMediaMTXUnpublishHandler r s)) \<and>
   run_task 1 (ApiTask call r) s = (Answered (fst (api_handler call r s)), snd (api_handler call r s)) \<and>
   (\<exists>resp. fst (task_step (fst (task_step (fst (task_step t s1)) s2)) s3) = Answered resp)"
proof (intro conjI run_auth_task run_unpublish_task run_api_task)
  have "sections_left (fst (task_step u s)) \<le> sections_left u - 1" for u s
    using task_step_progress[of u s] by (cases "sections_left u = 0") (auto simp: sections_left_0)
  note step = this
  have "sections_left t \<le> 3" by (cases t) auto
  then have "sections_left (fst (task_step (fst (task_step (fst (task_step t s1)) s2)) s3)) = 0"
    using step[of t s1] step[of "fst (task_step t s1)" s2]
      step[of "fst (task_step (fst (task_step t s1)) s2)" s3] by linarith
  then show "\<exists>resp. fst (task_step (fst (task_step (fst (task_step t s1)) s2)) s3) = Answered resp"
    by (simp add: sections_left_0)
qed

text \<open>
  C17: A mark that comes too late: between the lookup of its key and the mark of an accepted publish,
  the channel is revoked and created anew.  The publish is answered 200 and the new channel is live,
  although the old key no longer resolves and nobody has presented the new one.  (The alternative is
  that old and new key have the same hash.)
\<close>

theorem late_mark_revives_channel:
  assumes "index_sound s" "FindByKey s (presentedKey req) = Some slug"
    and "decodeWebhook (rq_body r) = Inr req" "wr_Action req = ''publish''"
    and "t = fst (task_step (AuthTask r) s)" "s' = recreated (Some raw) slug s"
  shows "hashKey (''sk_'' @ hex_EncodeToString raw) = hashKey (presentedKey req) \<or>
    (FindByKey s' (presentedKey req) = None \<and> slug \<notin> live_slugs s' \<and>
     fst (task_step t s') = Answered (writeHeader StatusOK) \<and> slug \<in> live_slugs (snd (task_step t s')))"
proof -
  obtain rec where rec: "channels s slug = Some rec"
    using index_soundD[OF assms(1) assms(2)[unfolded FindByKey_def]] by blast
  have t: "t = AuthMark (presentedKey req) slug"
    using assms(2-5) by simp
  have new: "channels s' slug =
      Some \<lparr>cr_slug = slug, cr_keyHash = hashKey (''sk_'' @ hex_EncodeToString raw), cr_live = False\<rparr>"
    unfolding assms(6) by (rule recreated_channel[OF rec])
  have "hashKey (''sk_'' @ hex_EncodeToString raw) = hashKey (presentedKey req) \<or>
      FindByKey s' (presentedKey req) = None"
    using recreated_old_key[OF assms(1,2), of raw] assms(6) by metis
  moreover have "slug \<notin> live_slugs s'" "slug \<in> live_slugs (snd (SetLive slug True s'))"
    using new by (simp_all add: live_slugs_def SetLive_def)
  ultimately show ?thesis by (simp add: t)
qed

theorem late_mark_revives_channel_witness:
  "let s = snd (newCreateStreamKeyHandler (Some []) (demo_request ''alice'') newStore);
       t = fst (task_step (AuthTask (demo_request [])) s); s' = recreated (Some ''k'') ''alice'' s
   in hashKey (''sk_'' @ hex_EncodeToString ''k'') = hashKey (presentedKey demo_webhook) \<or>
    (FindByKey s' (presentedKey demo_webhook) = None \<and> ''alice'' \<notin> live_slugs s' \<and>
     fst (task_step t s') = Answered (writeHeader StatusOK) \<and> ''alice'' \<in> live_slugs (snd (task_step t s')))"
  unfolding Let_def
proof (rule late_mark_revives_channel[OF _ _ decode_demo _ refl refl])
  show "index_sound (snd (newCreateStreamKeyHandler (Some []) (demo_request ''alice'') newStore))"
    unfolding create_handler_state by (rule index_sound_exec[OF store_inv_sound[OF newStore_inv]])
qed (simp_all add: demo_create demo_presented FindByKey_def, simp add: demo_webhook_def)

end
